theory Spec2Isabelle
  imports Main "HOL-Library.AList" "HOL-Library.Monad_Syntax" "HOL-Library.Multiset"
begin

section \<open>The archetype component store of ecs-lite\<close>

text \<open>
  The development embeds the class \<open>ComponentManager\<close> (the pooling, indexed version of the
  store) function by function. The sources are roblox-ts: arrays have \<open>size()\<close>,
  \<open>clear()\<close> and \<open>unorderedRemove\<close>, the scheduler calls \<open>warn\<close> and \<open>tostring\<close>, and
  \<open>Array.sort\<close> takes a comparator that returns a boolean (it is Luau's \<open>table.sort\<close>).

  Entities and component ids are natural numbers; component classes and component instances
  are type parameters \<open>'k\<close> and \<open>'c\<close> (an instance is an object, hence always truthy).
  An operation that would index \<open>undefined\<close>, or read or write an array outside its bounds
  where the source does not test for it, ends the run: such a function returns \<open>None\<close>.
  Absence that the source handles (an \<open>undefined\<close> it tests for) is an ordinary result.
\<close>

subsection \<open>Arrays\<close>

text \<open>\<open>xs[i]\<close>: the element, or \<open>undefined\<close> outside the array.\<close>

definition array_get :: "'a list \<Rightarrow> nat \<Rightarrow> 'a option" where
  "array_get xs i = (if i < length xs then Some (xs ! i) else None)"

text \<open>
  \<open>xs[i] = v\<close>: overwrites a slot, appends when \<open>i\<close> is the length, and would leave a
  hole beyond it (\<open>None\<close>: an array with a hole has no defined length in Luau).
\<close>

definition array_set :: "'a list \<Rightarrow> nat \<Rightarrow> 'a \<Rightarrow> 'a list option" where
  "array_set xs i v =
     (if i < length xs then Some (xs[i := v])
      else if i = length xs then Some (xs @ [v])
      else None)"

text \<open>
  \<open>xs.sort(cmp)\<close> with a boolean comparator \<open>cmp a b\<close> ("a goes before b"). For a strict
  total order every correct sorting algorithm returns the same array; insertion is used here.
\<close>

fun array_insert :: "('a \<Rightarrow> 'a \<Rightarrow> bool) \<Rightarrow> 'a \<Rightarrow> 'a list \<Rightarrow> 'a list" where
  "array_insert cmp x [] = [x]"
| "array_insert cmp x (y # ys) = (if cmp y x then y # array_insert cmp x ys else x # y # ys)"

definition array_sort :: "('a \<Rightarrow> 'a \<Rightarrow> bool) \<Rightarrow> 'a list \<Rightarrow> 'a list" where
  "array_sort cmp xs = foldr (array_insert cmp) xs []"

subsection \<open>Signatures\<close>

type_synonym Entity = nat
type_synonym ComponentId = nat

text \<open>The decimal numeral of a number, as \<open>join\<close> prints an integer id.\<close>

definition digit_char :: "nat \<Rightarrow> char" where
  "digit_char d = char_of (48 + d)"

fun string_of_nat :: "nat \<Rightarrow> string" where
  "string_of_nat n =
     (if n < 10 then [digit_char n] else string_of_nat (n div 10) @ [digit_char (n mod 10)])"

declare string_of_nat.simps [simp del]

text \<open>\<open>createSignature\<close>: \<open>componentIds.join(",")\<close>.\<close>

fun createSignature :: "ComponentId list \<Rightarrow> string" where
  "createSignature [] = []"
| "createSignature [x] = string_of_nat x"
| "createSignature (x # y # ys) = string_of_nat x @ CHR '','' # createSignature (y # ys)"

text \<open>
  The signature that \<open>addComponent\<close> computes when it extends an entity's signature:
  \<open>[...currentArchetype.signature, componentId].sort((a, b) => a < b)\<close>.
\<close>

definition extendSignature :: "ComponentId list \<Rightarrow> ComponentId \<Rightarrow> ComponentId list" where
  "extendSignature sig componentId = array_sort (\<lambda>a b. a < b) (sig @ [componentId])"

text \<open>
  The ids that \<open>getEntitiesWithComponents\<close> sorts for its cache key, given the ids of the
  queried classes: \<open>ids.sort((a, b) => a < b)\<close>.
\<close>

definition querySignature :: "ComponentId list \<Rightarrow> ComponentId list" where
  "querySignature ids = array_sort (\<lambda>a b. a < b) ids"

subsection \<open>The store\<close>

text \<open>
  An archetype is an object shared by the map \<open>archetypes\<close>, the entity locations, the
  per-type index and the query caches. It is created only by \<open>getOrCreateArchetype\<close>,
  which files it under its signature string and never removes it, so that string serves as
  the object's address: \<open>archetypes\<close> is the store of archetype objects, and every other
  field holds addresses. A \<open>Map\<close> that the code iterates (the columns of an archetype) is
  an association list in insertion order, a \<open>Set\<close> of archetypes a duplicate-free list.
  The order in which the runtime iterates a \<open>Set\<close> of objects is its own affair; the list
  fixes one (insertion order). It decides only the order in which a query lists the
  entities of different archetypes, so what is stated below of a query result is which
  entities it lists and how often, never their order across archetypes.
\<close>

type_synonym ArchetypeRef = string

record 'c Archetype =
  signature :: "ComponentId list"
  entities :: "Entity list"
  componentArrays :: "(ComponentId \<times> 'c list) list"

text \<open>
  The entity arrays that a query creates are objects: the \<open>entities\<close> array of a cache
  entry, which is the store's own, and the array a query returns, which is the caller's to
  change. Such an array is its address and its contents. The array of a cache entry is
  referenced by that entry alone and is emptied and refilled in place, so the entry holds
  its contents (\<open>cache_entities\<close>) next to its address (\<open>cache_entities_addr\<close>).
\<close>

type_synonym ArrayAddr = nat

text \<open>The fields of \<open>QueryCache\<close> carry the prefix \<open>cache_\<close> (two share a name with \<open>Archetype\<close>).\<close>

record QueryCache =
  cache_signature :: "ComponentId list"
  cache_entities :: "Entity list"
  cache_entities_addr :: ArrayAddr
  cache_archetypes :: "ArchetypeRef list"
  needsUpdate :: bool

text \<open>
  The last field, \<open>arrayCounter\<close>, is not one of the class: it is the allocator's next free
  address for entity arrays, so that a new array is an object no earlier one is.
\<close>

record ('k, 'c) ComponentManager =
  componentIdCounter :: ComponentId
  componentClassToId :: "'k \<rightharpoonup> ComponentId"
  componentIdToClass :: "ComponentId \<rightharpoonup> 'k"
  archetypes :: "string \<rightharpoonup> 'c Archetype"
  entityToArchetype :: "Entity \<rightharpoonup> ArchetypeRef"
  entityToIndex :: "Entity \<rightharpoonup> nat"
  queryCache :: "string \<rightharpoonup> QueryCache"
  archetypesByComponentId :: "ComponentId \<rightharpoonup> ArchetypeRef list"
  componentPoolsById :: "ComponentId \<rightharpoonup> 'c list"
  recycledComponents :: "ComponentId \<rightharpoonup> 'c list"
  batchInvalidation :: bool
  pendingCacheInvalidation :: bool
  arrayCounter :: ArrayAddr

definition newComponentManager :: "('k, 'c) ComponentManager" where
  "newComponentManager =
     \<lparr>componentIdCounter = 0, componentClassToId = Map.empty, componentIdToClass = Map.empty,
      archetypes = Map.empty, entityToArchetype = Map.empty, entityToIndex = Map.empty,
      queryCache = Map.empty, archetypesByComponentId = Map.empty,
      componentPoolsById = Map.empty, recycledComponents = Map.empty,
      batchInvalidation = False, pendingCacheInvalidation = False, arrayCounter = 0\<rparr>"

text \<open>\<open>Set.add\<close>.\<close>

definition set_add :: "'a \<Rightarrow> 'a list \<Rightarrow> 'a list" where
  "set_add x xs = (if x \<in> set xs then xs else xs @ [x])"

definition getComponentId ::
  "'k \<Rightarrow> ('k, 'c) ComponentManager \<Rightarrow> ComponentId \<times> ('k, 'c) ComponentManager" where
  "getComponentId componentClass s =
     (case componentClassToId s componentClass of
        Some cid \<Rightarrow> (cid, s)
      | None \<Rightarrow>
          (let cid = componentIdCounter s
           in (cid, s\<lparr>componentIdCounter := cid + 1,
                      componentClassToId := (componentClassToId s)(componentClass \<mapsto> cid),
                      componentIdToClass := (componentIdToClass s)(cid \<mapsto> componentClass),
                      archetypesByComponentId := (archetypesByComponentId s)(cid \<mapsto> []),
                      componentPoolsById := (componentPoolsById s)(cid \<mapsto> []),
                      recycledComponents := (recycledComponents s)(cid \<mapsto> [])\<rparr>)))"

definition invalidateQueryCaches :: "('k, 'c) ComponentManager \<Rightarrow> ('k, 'c) ComponentManager" where
  "invalidateQueryCaches s =
     s\<lparr>queryCache := (\<lambda>key. map_option (\<lambda>cache. cache\<lparr>needsUpdate := True\<rparr>) (queryCache s key))\<rparr>"

definition scheduleQueryCacheInvalidation ::
  "('k, 'c) ComponentManager \<Rightarrow> ('k, 'c) ComponentManager" where
  "scheduleQueryCacheInvalidation s =
     (if batchInvalidation s then s\<lparr>pendingCacheInvalidation := True\<rparr>
      else invalidateQueryCaches s)"

definition startBatch :: "('k, 'c) ComponentManager \<Rightarrow> ('k, 'c) ComponentManager" where
  "startBatch s = s\<lparr>batchInvalidation := True\<rparr>"

definition endBatch :: "('k, 'c) ComponentManager \<Rightarrow> ('k, 'c) ComponentManager" where
  "endBatch s =
     (let s1 = s\<lparr>batchInvalidation := False\<rparr>
      in if pendingCacheInvalidation s1
         then (invalidateQueryCaches s1)\<lparr>pendingCacheInvalidation := False\<rparr>
         else s1)"

definition clearQueryCache :: "('k, 'c) ComponentManager \<Rightarrow> ('k, 'c) ComponentManager" where
  "clearQueryCache s = s\<lparr>queryCache := Map.empty\<rparr>"

text \<open>
  The loop of \<open>getOrCreateArchetype\<close> over the ids of a new archetype \<open>ref\<close>: a fresh empty
  column per id, and the archetype entered in the index of that id (\<open>get(componentId)!\<close>
  on an id without an index entry indexes \<open>undefined\<close>).
\<close>

fun createColumns ::
  "ArchetypeRef \<Rightarrow> ComponentId list \<Rightarrow> (ComponentId \<times> 'c list) list \<Rightarrow>
   (ComponentId \<rightharpoonup> ArchetypeRef list) \<Rightarrow>
   ((ComponentId \<times> 'c list) list \<times> (ComponentId \<rightharpoonup> ArchetypeRef list)) option" where
  "createColumns ref [] cols idx = Some (cols, idx)"
| "createColumns ref (componentId # ids) cols idx =
     (case idx componentId of
        None \<Rightarrow> None
      | Some refs \<Rightarrow>
          createColumns ref ids (AList.update componentId [] cols)
            (idx(componentId \<mapsto> set_add ref refs)))"

definition getOrCreateArchetype ::
  "ComponentId list \<Rightarrow> ('k, 'c) ComponentManager \<Rightarrow>
   (ArchetypeRef \<times> ('k, 'c) ComponentManager) option" where
  "getOrCreateArchetype componentIds s =
     (let key = createSignature componentIds
      in case archetypes s key of
           Some archetype \<Rightarrow> Some (key, s)
         | None \<Rightarrow>
             (case createColumns key componentIds [] (archetypesByComponentId s) of
                None \<Rightarrow> None
              | Some (cols, idx) \<Rightarrow>
                  Some (key,
                    scheduleQueryCacheInvalidation
                      (s\<lparr>archetypesByComponentId := idx,
                         archetypes := (archetypes s)(key \<mapsto>
                           \<lparr>signature = componentIds, entities = [],
                            componentArrays = cols\<rparr>)\<rparr>))))"

text \<open>
  \<open>recycleComponent\<close> reads and writes the field \<open>recycledComponents\<close> only, and is
  modelled on that map.
\<close>

definition recycleComponent ::
  "ComponentId \<Rightarrow> 'c \<Rightarrow> (ComponentId \<rightharpoonup> 'c list) \<Rightarrow> (ComponentId \<rightharpoonup> 'c list)" where
  "recycleComponent componentId component pools =
     (case pools componentId of
        Some recycled \<Rightarrow>
          (if length recycled < 1000 then pools(componentId \<mapsto> recycled @ [component])
           else pools)
      | None \<Rightarrow> pools)"

text \<open>
  The first loop of \<open>swapRemoveFromArchetype\<close>:
  \<open>componentArray[entityIndex] = componentArray[lastIndex]\<close> for every column.
\<close>

fun swapColumns ::
  "nat \<Rightarrow> nat \<Rightarrow> (ComponentId \<times> 'c list) list \<Rightarrow> (ComponentId \<times> 'c list) list option" where
  "swapColumns entityIndex lastIndex [] = Some []"
| "swapColumns entityIndex lastIndex ((componentId, componentArray) # rest) =
     do {
       v \<leftarrow> array_get componentArray lastIndex;
       arr \<leftarrow> array_set componentArray entityIndex v;
       rest' \<leftarrow> swapColumns entityIndex lastIndex rest;
       Some ((componentId, arr) # rest')
     }"

text \<open>
  The second loop: every column is popped, and a popped instance goes to
  \<open>recycleComponent\<close> under the id that \<open>getComponentIdFromArray\<close> finds for the column.
  That helper searches the archetype's columns for the array object itself; every column is
  an array of its own, so it finds the key under which the loop holds the column.
  \<open>pop\<close> on an empty array gives \<open>undefined\<close>, and nothing is recycled.
\<close>

fun popColumns ::
  "(ComponentId \<times> 'c list) list \<Rightarrow> (ComponentId \<rightharpoonup> 'c list) \<Rightarrow>
   (ComponentId \<times> 'c list) list \<times> (ComponentId \<rightharpoonup> 'c list)" where
  "popColumns [] pools = ([], pools)"
| "popColumns ((componentId, componentArray) # rest) pools =
     (let pools1 = (case componentArray of
                      [] \<Rightarrow> pools
                    | _ # _ \<Rightarrow> recycleComponent componentId (last componentArray) pools);
          (rest', pools2) = popColumns rest pools1
      in ((componentId, butlast componentArray) # rest', pools2))"

text \<open>
  \<open>swapRemoveFromArchetype\<close>. On an archetype without entities \<open>lastIndex\<close> is \<open>-1\<close>,
  \<open>lastEntity\<close> is \<open>undefined\<close> and \<open>entityToIndex.set(undefined, \<dots>)\<close> indexes a table
  with \<open>nil\<close>.
\<close>

definition swapRemoveFromArchetype ::
  "Entity \<Rightarrow> ArchetypeRef \<Rightarrow> nat \<Rightarrow> ('k, 'c) ComponentManager \<Rightarrow>
   ('k, 'c) ComponentManager option" where
  "swapRemoveFromArchetype entity ref entityIndex s =
     do {
       archetype \<leftarrow> archetypes s ref;
       (if entities archetype = [] then None
        else do {
          let lastIndex = length (entities archetype) - 1;
          (ents, cols, e2i) \<leftarrow>
            (if entityIndex \<noteq> lastIndex then do {
               lastEntity \<leftarrow> array_get (entities archetype) lastIndex;
               ents \<leftarrow> array_set (entities archetype) entityIndex lastEntity;
               cols \<leftarrow> swapColumns entityIndex lastIndex (componentArrays archetype);
               Some (ents, cols, (entityToIndex s)(lastEntity \<mapsto> entityIndex))
             }
             else Some (entities archetype, componentArrays archetype, entityToIndex s));
          let (cols', pools) = popColumns cols (recycledComponents s);
          Some (s\<lparr>entityToIndex := e2i, recycledComponents := pools,
                  archetypes := (archetypes s)(ref \<mapsto>
                    archetype\<lparr>entities := butlast ents, componentArrays := cols'\<rparr>)\<rparr>)
        })
     }"

text \<open>
  The loop of \<open>moveEntity\<close> over the source signature: where the target has a column for
  the id, the entity's value is pushed onto it. The source columns are read at the entity's
  row, which the pushes (at the end of target columns) do not touch.
\<close>

fun copyColumns ::
  "ComponentId list \<Rightarrow> nat \<Rightarrow> (ComponentId \<times> 'c list) list \<Rightarrow>
   (ComponentId \<times> 'c list) list \<Rightarrow> (ComponentId \<times> 'c list) list option" where
  "copyColumns [] entityIndex src tgt = Some tgt"
| "copyColumns (componentId # ids) entityIndex src tgt =
     (case map_of tgt componentId of
        None \<Rightarrow> copyColumns ids entityIndex src tgt
      | Some targetArray \<Rightarrow>
          do {
            sourceArray \<leftarrow> map_of src componentId;
            v \<leftarrow> array_get sourceArray entityIndex;
            copyColumns ids entityIndex src (AList.update componentId (targetArray @ [v]) tgt)
          })"

definition moveEntity ::
  "Entity \<Rightarrow> ArchetypeRef \<Rightarrow> ArchetypeRef \<Rightarrow> ('k, 'c) ComponentManager \<Rightarrow>
   ('k, 'c) ComponentManager option" where
  "moveEntity entity fromRef toRef s =
     (case entityToIndex s entity of
        None \<Rightarrow> Some s
      | Some entityIndex \<Rightarrow>
          do {
            fromArchetype \<leftarrow> archetypes s fromRef;
            toArchetype \<leftarrow> archetypes s toRef;
            let newIndex = length (entities toArchetype);
            cols \<leftarrow> copyColumns (signature fromArchetype) entityIndex
                      (componentArrays fromArchetype) (componentArrays toArchetype);
            let s1 = s\<lparr>archetypes := (archetypes s)(toRef \<mapsto>
                        toArchetype\<lparr>componentArrays := cols\<rparr>)\<rparr>;
            s2 \<leftarrow> swapRemoveFromArchetype entity fromRef entityIndex s1;
            toArchetype2 \<leftarrow> archetypes s2 toRef;
            Some (s2\<lparr>archetypes := (archetypes s2)(toRef \<mapsto>
                        toArchetype2\<lparr>entities := entities toArchetype2 @ [entity]\<rparr>),
                      entityToArchetype := (entityToArchetype s2)(entity \<mapsto> toRef),
                      entityToIndex := (entityToIndex s2)(entity \<mapsto> newIndex)\<rparr>)
          })"

definition addComponent ::
  "Entity \<Rightarrow> 'k \<Rightarrow> 'c \<Rightarrow> ('k, 'c) ComponentManager \<Rightarrow> ('k, 'c) ComponentManager option" where
  "addComponent entity componentClass component s0 =
     (let (componentId, s) = getComponentId componentClass s0
      in case entityToArchetype s entity of
           Some ref \<Rightarrow>
             do {
               currentArchetype \<leftarrow> archetypes s ref;
               (case map_of (componentArrays currentArchetype) componentId of
                  Some componentArray \<Rightarrow>
                    do {
                      entityIndex \<leftarrow> entityToIndex s entity;
                      arr \<leftarrow> array_set componentArray entityIndex component;
                      Some (s\<lparr>archetypes := (archetypes s)(ref \<mapsto>
                        currentArchetype\<lparr>componentArrays :=
                          AList.update componentId arr (componentArrays currentArchetype)\<rparr>)\<rparr>)
                    }
                | None \<Rightarrow>
                    do {
                      let newSignature = extendSignature (signature currentArchetype) componentId;
                      (newRef, s1) \<leftarrow> getOrCreateArchetype newSignature s;
                      s2 \<leftarrow> moveEntity entity ref newRef s1;
                      newArchetype \<leftarrow> archetypes s2 newRef;
                      (if entities newArchetype = [] then None
                       else do {
                         let newIndex = length (entities newArchetype) - 1;
                         componentArray \<leftarrow> map_of (componentArrays newArchetype) componentId;
                         arr \<leftarrow> array_set componentArray newIndex component;
                         Some (scheduleQueryCacheInvalidation
                           (s2\<lparr>archetypes := (archetypes s2)(newRef \<mapsto>
                              newArchetype\<lparr>componentArrays :=
                                AList.update componentId arr (componentArrays newArchetype)\<rparr>)\<rparr>))
                       })
                    })
             }
         | None \<Rightarrow>
             do {
               (newRef, s1) \<leftarrow> getOrCreateArchetype [componentId] s;
               newArchetype \<leftarrow> archetypes s1 newRef;
               let newIndex = length (entities newArchetype);
               componentArray \<leftarrow> map_of (componentArrays newArchetype) componentId;
               Some (scheduleQueryCacheInvalidation
                 (s1\<lparr>archetypes := (archetypes s1)(newRef \<mapsto>
                        newArchetype\<lparr>entities := entities newArchetype @ [entity],
                          componentArrays := AList.update componentId (componentArray @ [component])
                            (componentArrays newArchetype)\<rparr>),
                      entityToArchetype := (entityToArchetype s1)(entity \<mapsto> newRef),
                      entityToIndex := (entityToIndex s1)(entity \<mapsto> newIndex)\<rparr>))
             })"

text \<open>
  \<open>getComponent\<close>, \<open>hasComponent\<close>, \<open>removeComponent\<close>: the result and the store after the
  call (\<open>getComponentId\<close> registers a class it sees for the first time).
\<close>

definition getComponent ::
  "Entity \<Rightarrow> 'k \<Rightarrow> ('k, 'c) ComponentManager \<Rightarrow> ('c option \<times> ('k, 'c) ComponentManager) option" where
  "getComponent entity componentClass s =
     (case entityToArchetype s entity of
        None \<Rightarrow> Some (None, s)
      | Some ref \<Rightarrow>
          do {
            archetype \<leftarrow> archetypes s ref;
            let (componentId, s1) = getComponentId componentClass s;
            (case map_of (componentArrays archetype) componentId of
               None \<Rightarrow> Some (None, s1)
             | Some componentArray \<Rightarrow>
                 (case entityToIndex s1 entity of
                    None \<Rightarrow> Some (None, s1)
                  | Some entityIndex \<Rightarrow> Some (array_get componentArray entityIndex, s1)))
          })"

definition hasComponent ::
  "Entity \<Rightarrow> 'k \<Rightarrow> ('k, 'c) ComponentManager \<Rightarrow> (bool \<times> ('k, 'c) ComponentManager) option" where
  "hasComponent entity componentClass s =
     (case entityToArchetype s entity of
        None \<Rightarrow> Some (False, s)
      | Some ref \<Rightarrow>
          do {
            archetype \<leftarrow> archetypes s ref;
            let (componentId, s1) = getComponentId componentClass s;
            Some (map_of (componentArrays archetype) componentId \<noteq> None, s1)
          })"

definition removeAllComponents ::
  "Entity \<Rightarrow> ('k, 'c) ComponentManager \<Rightarrow> ('k, 'c) ComponentManager option" where
  "removeAllComponents entity s =
     (case entityToArchetype s entity of
        None \<Rightarrow> Some s
      | Some ref \<Rightarrow>
          (case entityToIndex s entity of
             None \<Rightarrow> Some s
           | Some entityIndex \<Rightarrow>
               do {
                 s1 \<leftarrow> swapRemoveFromArchetype entity ref entityIndex s;
                 Some (scheduleQueryCacheInvalidation
                   (s1\<lparr>entityToArchetype := (entityToArchetype s1)(entity := None),
                       entityToIndex := (entityToIndex s1)(entity := None)\<rparr>))
               }))"

definition removeComponent ::
  "Entity \<Rightarrow> 'k \<Rightarrow> ('k, 'c) ComponentManager \<Rightarrow> (bool \<times> ('k, 'c) ComponentManager) option" where
  "removeComponent entity componentClass s =
     (case entityToArchetype s entity of
        None \<Rightarrow> Some (False, s)
      | Some ref \<Rightarrow>
          do {
            currentArchetype \<leftarrow> archetypes s ref;
            let (componentId, s1) = getComponentId componentClass s;
            (if map_of (componentArrays currentArchetype) componentId = None then Some (False, s1)
             else
               (let newSignature = filter (\<lambda>cid. cid \<noteq> componentId) (signature currentArchetype)
                in if newSignature = [] then
                     do {
                       s2 \<leftarrow> removeAllComponents entity s1;
                       Some (True, scheduleQueryCacheInvalidation s2)
                     }
                   else
                     do {
                       (newRef, s2) \<leftarrow> getOrCreateArchetype newSignature s1;
                       s3 \<leftarrow> moveEntity entity ref newRef s2;
                       Some (True, scheduleQueryCacheInvalidation s3)
                     }))
          })"

text \<open>\<open>getEntitiesWithComponent\<close>: the member lists of the indexed archetypes, one after another.\<close>

fun collectEntities :: "(string \<rightharpoonup> 'c Archetype) \<Rightarrow> ArchetypeRef list \<Rightarrow> Entity list option" where
  "collectEntities heap [] = Some []"
| "collectEntities heap (ref # refs) =
     do {
       archetype \<leftarrow> heap ref;
       rest \<leftarrow> collectEntities heap refs;
       Some (entities archetype @ rest)
     }"

definition getEntitiesWithComponent ::
  "'k \<Rightarrow> ('k, 'c) ComponentManager \<Rightarrow> (Entity list \<times> ('k, 'c) ComponentManager) option" where
  "getEntitiesWithComponent componentClass s =
     (let (componentId, s1) = getComponentId componentClass s
      in case archetypesByComponentId s1 componentId of
           None \<Rightarrow> Some ([], s1)
         | Some refs \<Rightarrow>
             (if refs = [] then Some ([], s1)
              else do { ents \<leftarrow> collectEntities (archetypes s1) refs; Some (ents, s1) }))"

text \<open>\<open>componentClasses.map((cls) => this.getComponentId(cls))\<close>, left to right.\<close>

fun getComponentIds ::
  "'k list \<Rightarrow> ('k, 'c) ComponentManager \<Rightarrow> ComponentId list \<times> ('k, 'c) ComponentManager" where
  "getComponentIds [] s = ([], s)"
| "getComponentIds (cls # rest) s =
     (let (cid, s1) = getComponentId cls s; (ids, s2) = getComponentIds rest s1
      in (cid # ids, s2))"

text \<open>
  The loop of \<open>updateQueryCacheOptimized\<close> over the candidate archetypes, with the entity
  list and the archetype set collected so far.
\<close>

fun scanCandidates ::
  "(string \<rightharpoonup> 'c Archetype) \<Rightarrow> ComponentId list \<Rightarrow> ArchetypeRef list \<Rightarrow>
   Entity list \<times> ArchetypeRef list \<Rightarrow> (Entity list \<times> ArchetypeRef list) option" where
  "scanCandidates heap sig [] acc = Some acc"
| "scanCandidates heap sig (ref # refs) (ents, archs) =
     do {
       archetype \<leftarrow> heap ref;
       (if list_all (\<lambda>componentId. map_of (componentArrays archetype) componentId \<noteq> None) sig
        then scanCandidates heap sig refs (ents @ entities archetype, set_add ref archs)
        else scanCandidates heap sig refs (ents, archs))
     }"

definition updateQueryCacheOptimized ::
  "QueryCache \<Rightarrow> ('k, 'c) ComponentManager \<Rightarrow> QueryCache option" where
  "updateQueryCacheOptimized cache s =
     (case (case cache_signature cache of
              [] \<Rightarrow> None
            | firstComponentId # _ \<Rightarrow> archetypesByComponentId s firstComponentId) of
        None \<Rightarrow> Some (cache\<lparr>cache_entities := [], cache_archetypes := [], needsUpdate := False\<rparr>)
      | Some candidateArchetypes \<Rightarrow>
          do {
            (ents, archs) \<leftarrow>
              scanCandidates (archetypes s) (cache_signature cache) candidateArchetypes ([], []);
            Some (cache\<lparr>cache_entities := ents, cache_archetypes := archs, needsUpdate := False\<rparr>)
          })"

text \<open>
  \<open>getEntitiesWithComponents\<close>. Three expressions create an entity array: \<open>return []\<close> for
  the empty query, \<open>entities: []\<close> in a new cache entry, and the result
  \<open>[...cache.entities]\<close>, a new array with the contents of the entry's array. The result
  is the new array: its address and its contents. (\<open>getEntitiesWithComponent\<close> fills a
  local array that no cache refers to; its result is the contents alone.)
\<close>

definition getEntitiesWithComponents ::
  "'k list \<Rightarrow> ('k, 'c) ComponentManager \<Rightarrow>
   ((ArrayAddr \<times> Entity list) \<times> ('k, 'c) ComponentManager) option" where
  "getEntitiesWithComponents componentClasses s =
     (if componentClasses = []
      then Some ((arrayCounter s, []), s\<lparr>arrayCounter := arrayCounter s + 1\<rparr>)
      else
        (let (ids, s1) = getComponentIds componentClasses s;
             componentIds = querySignature ids;
             cacheKey = createSignature componentIds;
             (cache, s2) =
               (case queryCache s1 cacheKey of
                  Some cache \<Rightarrow> (cache, s1)
                | None \<Rightarrow>
                    (\<lparr>cache_signature = componentIds, cache_entities = [],
                      cache_entities_addr = arrayCounter s1, cache_archetypes = [],
                      needsUpdate = True\<rparr>,
                     s1\<lparr>arrayCounter := arrayCounter s1 + 1\<rparr>))
         in do {
              cache' \<leftarrow> (if needsUpdate cache then updateQueryCacheOptimized cache s2
                         else Some cache);
              Some ((arrayCounter s2, cache_entities cache'),
                    s2\<lparr>queryCache := (queryCache s2)(cacheKey \<mapsto> cache'),
                       arrayCounter := arrayCounter s2 + 1\<rparr>)
            }))"

subsection \<open>Runs of the public operations\<close>

text \<open>
  \<open>getComponentsForEntities\<close> and \<open>getStats\<close> are left out: the first changes the store only
  through \<open>getComponentId\<close>, as \<open>getEntitiesWithComponent\<close> does, the second not at all.
  \<open>getOrCreateComponent\<close> is private and has no caller.
\<close>

datatype ('k, 'c) operation =
    AddComponent Entity 'k 'c
  | GetComponent Entity 'k
  | HasComponent Entity 'k
  | RemoveComponent Entity 'k
  | RemoveAllComponents Entity
  | GetEntitiesWithComponent 'k
  | GetEntitiesWithComponents "'k list"
  | StartBatch
  | EndBatch
  | ClearQueryCache

fun step ::
  "('k, 'c) operation \<Rightarrow> ('k, 'c) ComponentManager \<Rightarrow> ('k, 'c) ComponentManager option" where
  "step (AddComponent e k c) s = addComponent e k c s"
| "step (GetComponent e k) s = map_option snd (getComponent e k s)"
| "step (HasComponent e k) s = map_option snd (hasComponent e k s)"
| "step (RemoveComponent e k) s = map_option snd (removeComponent e k s)"
| "step (RemoveAllComponents e) s = removeAllComponents e s"
| "step (GetEntitiesWithComponent k) s = map_option snd (getEntitiesWithComponent k s)"
| "step (GetEntitiesWithComponents ks) s = map_option snd (getEntitiesWithComponents ks s)"
| "step StartBatch s = Some (startBatch s)"
| "step EndBatch s = Some (endBatch s)"
| "step ClearQueryCache s = Some (clearQueryCache s)"

fun run ::
  "('k, 'c) operation list \<Rightarrow> ('k, 'c) ComponentManager \<Rightarrow> ('k, 'c) ComponentManager option" where
  "run [] s = Some s"
| "run (x # xs) s = (case step x s of None \<Rightarrow> None | Some s' \<Rightarrow> run xs s')"

text \<open>The stores a program can reach: those some run of operations builds from a new manager.\<close>

definition reachable :: "('k, 'c) ComponentManager \<Rightarrow> bool" where
  "reachable s = (\<exists>ops. run ops newComponentManager = Some s)"

subsection \<open>Invariant and closed forms\<close>

text \<open>Swap-compaction of one array: the last element overwrites slot \<open>i\<close>, the end is dropped.\<close>

definition swap_remove :: "nat \<Rightarrow> 'a list \<Rightarrow> 'a list" where
  "swap_remove i xs = butlast (xs[i := last xs])"

text \<open>A row pushed onto columns: a column grows by the row's value for its id, if it has one.\<close>

definition push_row ::
  "(ComponentId \<rightharpoonup> 'c) \<Rightarrow> (ComponentId \<times> 'c list) list \<Rightarrow> (ComponentId \<times> 'c list) list" where
  "push_row row cols =
     map (\<lambda>(cid, col). (cid, case row cid of None \<Rightarrow> col | Some v \<Rightarrow> col @ [v])) cols"

text \<open>The values an archetype holds in row \<open>i\<close>.\<close>

definition row_at :: "'c Archetype \<Rightarrow> nat \<Rightarrow> (ComponentId \<rightharpoonup> 'c)" where
  "row_at a i cid = map_option (\<lambda>col. col ! i) (map_of (componentArrays a) cid)"

text \<open>
  The store after entity \<open>e\<close>, at row \<open>i\<close> of archetype \<open>a\<close> (stored at \<open>r\<close>), has left it
  and has no location.
\<close>

definition detached ::
  "Entity \<Rightarrow> ArchetypeRef \<Rightarrow> nat \<Rightarrow> 'c Archetype \<Rightarrow> ('k, 'c) ComponentManager \<Rightarrow>
   ('k, 'c) ComponentManager" where
  "detached e r i a s =
     s\<lparr>archetypes := (archetypes s)(r \<mapsto>
          a\<lparr>entities := swap_remove i (entities a),
            componentArrays := map (\<lambda>(cid, col). (cid, swap_remove i col)) (componentArrays a)\<rparr>),
       entityToArchetype := (entityToArchetype s)(e := None),
       entityToIndex := ((entityToIndex s)(last (entities a) \<mapsto> i))(e := None),
       recycledComponents := snd (popColumns (componentArrays a) (recycledComponents s))\<rparr>"

text \<open>The store after entity \<open>e\<close> has become the last row of archetype \<open>b\<close> (stored at \<open>r\<close>).\<close>

definition inserted ::
  "Entity \<Rightarrow> ArchetypeRef \<Rightarrow> 'c Archetype \<Rightarrow> (ComponentId \<rightharpoonup> 'c) \<Rightarrow>
   ('k, 'c) ComponentManager \<Rightarrow> ('k, 'c) ComponentManager" where
  "inserted e r b row s =
     s\<lparr>archetypes := (archetypes s)(r \<mapsto>
          b\<lparr>entities := entities b @ [e],
            componentArrays := push_row row (componentArrays b)\<rparr>),
       entityToArchetype := (entityToArchetype s)(e \<mapsto> r),
       entityToIndex := (entityToIndex s)(e \<mapsto> length (entities b))\<rparr>"

text \<open>The store after a new, empty archetype for the ids has been filed and indexed.\<close>

definition created :: "ComponentId list \<Rightarrow> ('k, 'c) ComponentManager \<Rightarrow> ('k, 'c) ComponentManager" where
  "created ids s =
     s\<lparr>archetypesByComponentId :=
          (\<lambda>c. if c \<in> set ids
                then map_option (set_add (createSignature ids)) (archetypesByComponentId s c)
                else archetypesByComponentId s c),
       archetypes := (archetypes s)(createSignature ids \<mapsto>
          \<lparr>signature = ids, entities = [], componentArrays = map (\<lambda>cid. (cid, [])) ids\<rparr>)\<rparr>"

text \<open>The store that \<open>getOrCreateArchetype\<close> leaves behind.\<close>

definition ensured :: "ComponentId list \<Rightarrow> ('k, 'c) ComponentManager \<Rightarrow> ('k, 'c) ComponentManager" where
  "ensured ids s =
     (case archetypes s (createSignature ids) of
        Some a \<Rightarrow> s
      | None \<Rightarrow> scheduleQueryCacheInvalidation (created ids s))"

definition archetype_ok :: "string \<Rightarrow> 'c Archetype \<Rightarrow> bool" where
  "archetype_ok key a \<longleftrightarrow>
     createSignature (signature a) = key \<and> distinct (signature a) \<and> sorted (signature a) \<and>
     map fst (componentArrays a) = signature a \<and>
     (\<forall>col \<in> snd ` set (componentArrays a). length col = length (entities a))"

definition archetypes_ok :: "('k, 'c) ComponentManager \<Rightarrow> bool" where
  "archetypes_ok s \<longleftrightarrow> (\<forall>key a. archetypes s key = Some a \<longrightarrow> archetype_ok key a)"

definition index_complete :: "('k, 'c) ComponentManager \<Rightarrow> bool" where
  "index_complete s \<longleftrightarrow>
     (\<forall>key a cid. archetypes s key = Some a \<longrightarrow> cid \<in> set (signature a) \<longrightarrow>
        cid < componentIdCounter s \<and>
        (\<exists>refs. archetypesByComponentId s cid = Some refs \<and> key \<in> set refs))"

definition index_sound :: "('k, 'c) ComponentManager \<Rightarrow> bool" where
  "index_sound s \<longleftrightarrow>
     (\<forall>cid refs. archetypesByComponentId s cid = Some refs \<longrightarrow>
        distinct refs \<and> (\<forall>r \<in> set refs. \<exists>a. archetypes s r = Some a \<and> cid \<in> set (signature a)))"

definition located :: "('k, 'c) ComponentManager \<Rightarrow> bool" where
  "located s \<longleftrightarrow>
     (\<forall>e r. entityToArchetype s e = Some r \<longrightarrow>
        (\<exists>a i. archetypes s r = Some a \<and> entityToIndex s e = Some i \<and>
               i < length (entities a) \<and> entities a ! i = e))"

definition members_located :: "('k, 'c) ComponentManager \<Rightarrow> bool" where
  "members_located s \<longleftrightarrow>
     (\<forall>key a i. archetypes s key = Some a \<longrightarrow> i < length (entities a) \<longrightarrow>
        entityToArchetype s (entities a ! i) = Some key \<and>
        entityToIndex s (entities a ! i) = Some i)"

definition registry_ok :: "('k, 'c) ComponentManager \<Rightarrow> bool" where
  "registry_ok s \<longleftrightarrow>
     (\<forall>k cid. componentClassToId s k = Some cid \<longrightarrow> cid < componentIdCounter s) \<and>
     (\<forall>k k' cid. componentClassToId s k = Some cid \<longrightarrow> componentClassToId s k' = Some cid
        \<longrightarrow> k = k') \<and>
     (\<forall>cid. cid < componentIdCounter s \<longrightarrow>
        archetypesByComponentId s cid \<noteq> None \<and> recycledComponents s cid \<noteq> None)"

definition heap_inv :: "('k, 'c) ComponentManager \<Rightarrow> bool" where
  "heap_inv s \<longleftrightarrow>
     archetypes_ok s \<and> index_complete s \<and> index_sound s \<and> located s \<and> members_located s \<and>
     registry_ok s"

text \<open>
  The invariant of the query caches: an entry is filed under the key of its signature,
  signatures are non-empty and registered, the entity array is allocated, a pending
  invalidation occurs only inside a batch, and an entry that is not dirty while nothing is
  pending is what recomputing it would give.
\<close>

definition cache_struct :: "('k, 'c) ComponentManager \<Rightarrow> bool" where
  "cache_struct s \<longleftrightarrow>
     (\<forall>key c. queryCache s key = Some c \<longrightarrow>
        createSignature (cache_signature c) = key \<and> cache_signature c \<noteq> [] \<and>
        (\<forall>cid \<in> set (cache_signature c). cid < componentIdCounter s) \<and>
        cache_entities_addr c < arrayCounter s) \<and>
     (pendingCacheInvalidation s \<longrightarrow> batchInvalidation s)"

definition cache_fresh :: "('k, 'c) ComponentManager \<Rightarrow> bool" where
  "cache_fresh s \<longleftrightarrow>
     (\<forall>key c. queryCache s key = Some c \<longrightarrow> \<not> needsUpdate c \<longrightarrow>
        \<not> pendingCacheInvalidation s \<longrightarrow> updateQueryCacheOptimized c s = Some c)"

definition store_inv :: "('k, 'c) ComponentManager \<Rightarrow> bool" where
  "store_inv s \<longleftrightarrow> heap_inv s \<and> cache_struct s \<and> cache_fresh s"

text \<open>The component value an entity holds for an id, read off the store.\<close>

definition component_at :: "('k, 'c) ComponentManager \<Rightarrow> Entity \<Rightarrow> ComponentId \<Rightarrow> 'c option" where
  "component_at s e cid =
     (case entityToArchetype s e of
        None \<Rightarrow> None
      | Some r \<Rightarrow>
          (case archetypes s r of
             None \<Rightarrow> None
           | Some a \<Rightarrow>
               (case map_of (componentArrays a) cid of
                  None \<Rightarrow> None
                | Some col \<Rightarrow>
                    (case entityToIndex s e of
                       None \<Rightarrow> None
                     | Some i \<Rightarrow> array_get col i))))"

text \<open>The entities of all archetypes whose signature contains every id of \<open>sig\<close>.\<close>

definition members :: "('k, 'c) ComponentManager \<Rightarrow> ComponentId list \<Rightarrow> Entity set" where
  "members s sig =
     {e. \<exists>key a. archetypes s key = Some a \<and> set sig \<subseteq> set (signature a) \<and>
                  e \<in> set (entities a)}"

text \<open>The signature of the archetype an entity is in.\<close>

definition signature_of :: "('k, 'c) ComponentManager \<Rightarrow> Entity \<Rightarrow> ComponentId list option" where
  "signature_of s e =
     (case entityToArchetype s e of
        None \<Rightarrow> None
      | Some r \<Rightarrow> map_option signature (archetypes s r))"

text \<open>
  The component instances each entity owns after a sequence of calls: for each class, the
  instance the entity was last given by \<open>addComponent\<close> and has not had removed since. It
  is read off the calls alone; the rows of the store are measured against it.
\<close>

fun owner_step ::
  "('k, 'c) operation \<Rightarrow> (Entity \<Rightarrow> 'k \<rightharpoonup> 'c) \<Rightarrow> (Entity \<Rightarrow> 'k \<rightharpoonup> 'c)" where
  "owner_step (AddComponent e k c) m = m(e := (m e)(k \<mapsto> c))"
| "owner_step (RemoveComponent e k) m = m(e := (m e)(k := None))"
| "owner_step (RemoveAllComponents e) m = m(e := Map.empty)"
| "owner_step (GetComponent e k) m = m"
| "owner_step (HasComponent e k) m = m"
| "owner_step (GetEntitiesWithComponent k) m = m"
| "owner_step (GetEntitiesWithComponents ks) m = m"
| "owner_step StartBatch m = m"
| "owner_step EndBatch m = m"
| "owner_step ClearQueryCache m = m"

definition owned :: "('k, 'c) operation list \<Rightarrow> Entity \<Rightarrow> 'k \<rightharpoonup> 'c" where
  "owned ops = foldl (\<lambda>m x. owner_step x m) (\<lambda>e. Map.empty) ops"

text \<open>
  Row alignment, for the instances \<open>owner\<close> says each entity owns: in every archetype each
  id of the signature has a column as long as the entity list, and there is no other
  column; the entity in row \<open>i\<close> is recorded at that archetype and row; and what column
  \<open>cid\<close> holds in row \<open>i\<close> is the instance that entity owns for the class of \<open>cid\<close>.
  Conversely every located entity is in the entity list of its archetype, at its row.
\<close>

definition row_aligned ::
  "(Entity \<Rightarrow> 'k \<rightharpoonup> 'c) \<Rightarrow> ('k, 'c) ComponentManager \<Rightarrow> bool" where
  "row_aligned owner s \<longleftrightarrow>
     (\<forall>key a. archetypes s key = Some a \<longrightarrow>
        (\<forall>cid \<in> set (signature a).
           \<exists>col. map_of (componentArrays a) cid = Some col \<and> length col = length (entities a)) \<and>
        (\<forall>cid col. map_of (componentArrays a) cid = Some col \<longrightarrow>
           cid \<in> set (signature a) \<and> length col = length (entities a)) \<and>
        (\<forall>i < length (entities a).
           entityToArchetype s (entities a ! i) = Some key \<and>
           entityToIndex s (entities a ! i) = Some i \<and>
           (\<forall>cid col. map_of (componentArrays a) cid = Some col \<longrightarrow>
              (\<exists>k. componentIdToClass s cid = Some k \<and>
                    owner (entities a ! i) k = Some (col ! i))))) \<and>
     (\<forall>e r. entityToArchetype s e = Some r \<longrightarrow>
        (\<exists>a i. archetypes s r = Some a \<and> entityToIndex s e = Some i \<and>
               i < length (entities a) \<and> entities a ! i = e))"

text \<open>
  The invariant that ties the store to the owned instances: ids and classes are
  registered both ways, and an entity reads for a registered class what it owns, and owns
  nothing for a class that is not registered.
\<close>

definition owns_inv ::
  "(Entity \<Rightarrow> 'k \<rightharpoonup> 'c) \<Rightarrow> ('k, 'c) ComponentManager \<Rightarrow> bool" where
  "owns_inv owner s \<longleftrightarrow>
     heap_inv s \<and>
     (\<forall>cid < componentIdCounter s.
        \<exists>k. componentIdToClass s cid = Some k \<and> componentClassToId s k = Some cid) \<and>
     (\<forall>e k. componentClassToId s k = None \<longrightarrow> owner e k = None) \<and>
     (\<forall>e k cid. componentClassToId s k = Some cid \<longrightarrow> component_at s e cid = owner e k)"

section \<open>Sorting and keys\<close>

lemma array_insert_insort: "array_insert (\<lambda>a b. a < b) x ys = insort (x::nat) ys"
  by (induction ys) auto

lemma array_sort_sort: "array_sort (\<lambda>a b. a < b) xs = sort (xs::nat list)"
  unfolding array_sort_def
  by (induction xs) (simp_all add: array_insert_insort)

lemma of_char_digit: "d < 10 \<Longrightarrow> of_char (digit_char d) = (48 + d :: nat)"
  unfolding digit_char_def of_char_of by simp

lemma digit_char_not_comma: "d < 10 \<Longrightarrow> digit_char d \<noteq> CHR '',''"
proof
  assume d: "d < 10" and e: "digit_char d = CHR '',''"
  have "(of_char (digit_char d) :: nat) = of_char (CHR '','')" by (simp only: e)
  then have "48 + d = (44::nat)" unfolding of_char_digit [OF d] by simp
  then show False by simp
qed

lemma digit_char_inj: "a < 10 \<Longrightarrow> b < 10 \<Longrightarrow> digit_char a = digit_char b \<Longrightarrow> a = b"
proof -
  assume a: "a < 10" and b: "b < 10" and e: "digit_char a = digit_char b"
  have "(of_char (digit_char a) :: nat) = of_char (digit_char b)" by (simp only: e)
  then show ?thesis unfolding of_char_digit [OF a] of_char_digit [OF b] by simp
qed

lemma string_of_nat_nonempty: "string_of_nat n \<noteq> []"
  by (subst string_of_nat.simps) simp

lemma string_of_nat_no_comma: "CHR '','' \<notin> set (string_of_nat n)"
proof (induction n rule: string_of_nat.induct)
  case (1 n)
  show ?case
  proof (cases "n < 10")
    case True
    then show ?thesis
      using digit_char_not_comma [of n] by (subst string_of_nat.simps) auto
  next
    case False
    then show ?thesis
      using 1 digit_char_not_comma [of "n mod 10"] by (subst string_of_nat.simps) auto
  qed
qed

lemma string_of_nat_inj: "string_of_nat a = string_of_nat b \<Longrightarrow> a = b"
proof (induction a arbitrary: b rule: string_of_nat.induct)
  case (1 n)
  show ?case
  proof (cases "n < 10")
    case True
    then have l: "string_of_nat n = [digit_char n]"
      by (subst string_of_nat.simps) simp
    show ?thesis
    proof (cases "b < 10")
      case bs: True
      then have "string_of_nat b = [digit_char b]" by (subst string_of_nat.simps) simp
      then show ?thesis using l "1.prems" True bs digit_char_inj by auto
    next
      case False
      then have "string_of_nat b = string_of_nat (b div 10) @ [digit_char (b mod 10)]"
        by (subst string_of_nat.simps) simp
      then have "string_of_nat (b div 10) = []" using l "1.prems" by simp
      then show ?thesis using string_of_nat_nonempty by blast
    qed
  next
    case False
    then have l: "string_of_nat n = string_of_nat (n div 10) @ [digit_char (n mod 10)]"
      by (subst string_of_nat.simps) simp
    show ?thesis
    proof (cases "b < 10")
      case True
      then have "string_of_nat b = [digit_char b]" by (subst string_of_nat.simps) simp
      then have "string_of_nat (n div 10) = []" using l "1.prems" by simp
      then show ?thesis using string_of_nat_nonempty by blast
    next
      case bl: False
      then have r: "string_of_nat b = string_of_nat (b div 10) @ [digit_char (b mod 10)]"
        by (subst string_of_nat.simps) simp
      from l r "1.prems" have e: "string_of_nat (n div 10) = string_of_nat (b div 10)"
        and d: "digit_char (n mod 10) = digit_char (b mod 10)" by auto
      from "1.IH" [OF False e] have "n div 10 = b div 10" .
      moreover from d have "n mod 10 = b mod 10" using digit_char_inj by simp
      ultimately show ?thesis by (metis div_mult_mod_eq)
    qed
  qed
qed

lemma comma_split:
  assumes "CHR '','' \<notin> set a" "CHR '','' \<notin> set b" "a @ CHR '','' # r = b @ CHR '','' # r'"
  shows "a = b \<and> r = r'"
  using assms
proof (induction a arbitrary: b)
  case Nil
  then show ?case by (cases b) auto
next
  case (Cons x a)
  then show ?case by (cases b) auto
qed

lemma createSignature_no_comma_head:
  "createSignature (y # ys) = string_of_nat x \<Longrightarrow> ys = [] \<and> y = x"
proof (cases ys)
  case Nil
  assume "createSignature (y # ys) = string_of_nat x"
  then show ?thesis using Nil string_of_nat_inj by simp
next
  case (Cons z zs)
  assume "createSignature (y # ys) = string_of_nat x"
  then have "CHR '','' \<in> set (string_of_nat x)"
    using Cons by (metis createSignature.simps(3) in_set_conv_decomp)
  then show ?thesis using string_of_nat_no_comma by blast
qed

lemma createSignature_nonempty: "createSignature (x # xs) \<noteq> []"
  by (cases xs) (simp_all add: string_of_nat_nonempty)

lemma createSignature_inj: "createSignature xs = createSignature ys \<Longrightarrow> xs = ys"
proof (induction xs arbitrary: ys rule: createSignature.induct)
  case 1
  show ?case
  proof (cases ys)
    case Nil
    then show ?thesis by simp
  next
    case (Cons y ys')
    then have "createSignature ys \<noteq> []" using createSignature_nonempty by simp
    then show ?thesis using 1 by simp
  qed
next
  case (2 x)
  show ?case
  proof (cases ys)
    case Nil
    then show ?thesis using 2 string_of_nat_nonempty by simp
  next
    case (Cons y ys')
    then show ?thesis using 2 createSignature_no_comma_head [of y ys' x] by simp
  qed
next
  case (3 x y zs)
  show ?case
  proof (cases ys)
    case Nil
    then show ?thesis using 3 by simp
  next
    case (Cons u us)
    show ?thesis
    proof (cases us)
      case Nil
      then have "createSignature (x # y # zs) = string_of_nat u"
        using 3 Cons by simp
      then show ?thesis using createSignature_no_comma_head by blast
    next
      case (Cons v vs)
      with \<open>ys = u # us\<close> 3 have
        "string_of_nat x @ CHR '','' # createSignature (y # zs)
           = string_of_nat u @ CHR '','' # createSignature (v # vs)" by simp
      then have "string_of_nat x = string_of_nat u"
        and "createSignature (y # zs) = createSignature (v # vs)"
        using comma_split string_of_nat_no_comma by blast+
      then show ?thesis
        using "3.IH" string_of_nat_inj Cons \<open>ys = u # us\<close> by blast
    qed
  qed
qed

text \<open>
  The sort that \<open>addComponent\<close> and \<open>getEntitiesWithComponents\<close> apply is the ascending
  sort, and the key is one-to-one on sorted id lists.
\<close>

lemma signature_sorts:
  "extendSignature sig componentId = sort (sig @ [componentId])
   \<and> querySignature ids = sort ids
   \<and> sorted (extendSignature sig componentId)
   \<and> mset (extendSignature sig componentId) = mset sig + {#componentId#}
   \<and> sorted (querySignature ids) \<and> mset (querySignature ids) = mset ids
   \<and> ((createSignature (querySignature xs) = createSignature (querySignature ys))
        = (sort xs = sort ys))"
  unfolding extendSignature_def querySignature_def array_sort_sort
  using createSignature_inj by auto

section \<open>Arrays and columns\<close>

lemma swap_remove_length: "length (swap_remove i xs) = length xs - 1"
  by (simp add: swap_remove_def)

lemma swap_remove_nth:
  assumes "j < length xs - 1"
  shows "swap_remove i xs ! j = (if j = i then last xs else xs ! j)"
  using assms by (simp add: swap_remove_def nth_butlast)

lemma swap_remove_last: "xs \<noteq> [] \<Longrightarrow> swap_remove (length xs - 1) xs = butlast xs"
  by (simp add: swap_remove_def last_conv_nth)

lemma swapColumns_closed:
  assumes "\<forall>col \<in> snd ` set cols. l < length col \<and> i < length col"
  shows "swapColumns i l cols = Some (map (\<lambda>(cid, col). (cid, col[i := col ! l])) cols)"
  using assms
  by (induction cols) (auto simp: array_get_def array_set_def)

lemma popColumns_fst: "fst (popColumns cols pools) = map (\<lambda>(cid, col). (cid, butlast col)) cols"
  by (induction cols arbitrary: pools) (auto simp: Let_def case_prod_beta)

lemma popColumns_swapped:
  assumes "\<forall>col \<in> snd ` set cols. length col = Suc l \<and> i < length col"
  shows "snd (popColumns (map (\<lambda>(cid, col). (cid, col[i := col ! l])) cols) pools)
         = snd (popColumns cols pools)"
  using assms
proof (induction cols arbitrary: pools)
  case Nil
  then show ?case by simp
next
  case (Cons p cols)
  obtain cid col where p: "p = (cid, col)" by (cases p)
  from Cons.prems p have len: "length col = Suc l" "i < length col" by auto
  then have ne: "col \<noteq> []" "col[i := col ! l] \<noteq> []" by auto
  have "last (col[i := col ! l]) = last col"
    using len ne by (simp add: last_list_update last_conv_nth nth_list_update)
  moreover obtain x xs where "col = x # xs" using ne by (cases col) auto
  moreover obtain y ys where "col[i := col ! l] = y # ys" using ne by (cases "col[i := col ! l]") auto
  ultimately show ?case
    using Cons p by (simp add: Let_def case_prod_beta)
qed

lemma recycleComponent_dom: "dom (recycleComponent cid c pools) = dom pools"
  by (auto simp: recycleComponent_def split: option.splits if_splits)

lemma popColumns_dom: "dom (snd (popColumns cols pools)) = dom pools"
proof (induction cols arbitrary: pools)
  case Nil
  then show ?case by simp
next
  case (Cons p cols)
  obtain cid col where p: "p = (cid, col)" by (cases p)
  show ?case
    unfolding p by (cases col) (simp_all add: Let_def case_prod_beta Cons recycleComponent_dom)
qed

lemma push_row_keys: "map fst (push_row row cols) = map fst cols"
  by (induction cols) (auto simp: push_row_def)

lemma map_of_push_row:
  "map_of (push_row row cols) cid =
     map_option (\<lambda>col. case row cid of None \<Rightarrow> col | Some v \<Rightarrow> col @ [v]) (map_of cols cid)"
  by (induction cols) (auto simp: push_row_def split: option.splits)

lemma update_push_row:
  assumes "distinct (map fst cols)" "map_of cols cid = Some col" "row cid = None"
  shows "AList.update cid (col @ [v]) (push_row row cols) = push_row (row(cid \<mapsto> v)) cols"
  using assms
proof (induction cols)
  case Nil
  then show ?case by simp
next
  case (Cons p cols)
  obtain c' col' where p: "p = (c', col')" by (cases p)
  show ?case
  proof (cases "c' = cid")
    case True
    then have "col' = col" using Cons.prems p by simp
    moreover have "\<forall>q \<in> set cols. fst q \<noteq> cid" using Cons.prems p True by auto
    then have "push_row (row(cid \<mapsto> v)) cols = push_row row cols"
      unfolding push_row_def by (intro map_cong) (auto split: prod.splits)
    ultimately show ?thesis using p True Cons.prems by (simp add: push_row_def)
  next
    case False
    then show ?thesis using Cons p by (auto simp: push_row_def)
  qed
qed

lemma copyColumns_closed:
  assumes "distinct (map fst tgt)" "distinct sig"
    and "\<forall>cid \<in> set sig. cid \<in> fst ` set tgt \<longrightarrow> (\<exists>sc. map_of src cid = Some sc \<and> i < length sc)"
    and "\<forall>cid \<in> set sig. row0 cid = None"
  shows "copyColumns sig i src (push_row row0 tgt)
         = Some (push_row (\<lambda>cid. if cid \<in> set sig then map_option (\<lambda>col. col ! i) (map_of src cid)
                                else row0 cid) tgt)"
  using assms
proof (induction sig arbitrary: row0)
  case Nil
  then show ?case by simp
next
  case (Cons c sig)
  show ?case
  proof (cases "map_of tgt c")
    case None
    then have "c \<notin> fst ` set tgt" by (simp add: map_of_eq_None_iff)
    then have nk: "\<forall>q \<in> set tgt. fst q \<noteq> c" by auto
    have "copyColumns (c # sig) i src (push_row row0 tgt) = copyColumns sig i src (push_row row0 tgt)"
      using None by (simp add: map_of_push_row)
    also have "\<dots> = Some (push_row (\<lambda>cid. if cid \<in> set sig then map_option (\<lambda>col. col ! i) (map_of src cid)
                                else row0 cid) tgt)"
      using Cons by simp
    also have "push_row (\<lambda>cid. if cid \<in> set sig then map_option (\<lambda>col. col ! i) (map_of src cid)
                                else row0 cid) tgt
        = push_row (\<lambda>cid. if cid \<in> set (c # sig) then map_option (\<lambda>col. col ! i) (map_of src cid)
                                else row0 cid) tgt"
      unfolding push_row_def using nk by (intro map_cong) (auto split: prod.splits)
    finally show ?thesis .
  next
    case (Some col)
    then have "c \<in> fst ` set tgt" by (metis map_of_eq_None_iff option.distinct(1))
    then obtain sc where sc: "map_of src c = Some sc" "i < length sc"
      using Cons.prems by auto
    have r0: "row0 c = None" using Cons.prems by simp
    let ?row1 = "row0(c \<mapsto> sc ! i)"
    have "copyColumns (c # sig) i src (push_row row0 tgt)
        = copyColumns sig i src (AList.update c (col @ [sc ! i]) (push_row row0 tgt))"
      using Some sc r0 by (simp add: map_of_push_row array_get_def)
    also have "\<dots> = copyColumns sig i src (push_row ?row1 tgt)"
      using update_push_row [of tgt c col row0 "sc ! i"] Cons.prems(1) Some r0 by simp
    also have "\<dots> = Some (push_row (\<lambda>cid. if cid \<in> set sig then map_option (\<lambda>col. col ! i) (map_of src cid)
                                else ?row1 cid) tgt)"
      using Cons.prems by (intro Cons.IH) auto
    also have "(\<lambda>cid. if cid \<in> set sig then map_option (\<lambda>col. col ! i) (map_of src cid)
                                else ?row1 cid)
        = (\<lambda>cid. if cid \<in> set (c # sig) then map_option (\<lambda>col. col ! i) (map_of src cid)
                                else row0 cid)"
      using sc by auto
    finally show ?thesis .
  qed
qed

lemma push_row_empty: "push_row Map.empty cols = cols"
  by (induction cols) (auto simp: push_row_def)

section \<open>Closed forms of the row operations\<close>

lemma swapRemove_closed:
  assumes a: "archetypes s r = Some a" and i: "i < length (entities a)"
    and len: "\<forall>col \<in> snd ` set (componentArrays a). length col = length (entities a)"
  shows "swapRemoveFromArchetype e r i s =
     Some (s\<lparr>entityToIndex :=
               (if i = length (entities a) - 1 then entityToIndex s
                else (entityToIndex s)(last (entities a) \<mapsto> i)),
             recycledComponents := snd (popColumns (componentArrays a) (recycledComponents s)),
             archetypes := (archetypes s)(r \<mapsto>
               a\<lparr>entities := swap_remove i (entities a),
                 componentArrays :=
                   map (\<lambda>(cid, col). (cid, swap_remove i col)) (componentArrays a)\<rparr>)\<rparr>)"
proof -
  let ?n = "length (entities a)"
  have ne: "entities a \<noteq> []" using i by auto
  show ?thesis
  proof (cases "i = ?n - 1")
    case True
    have e: "butlast (entities a) = swap_remove i (entities a)"
      using True ne swap_remove_last [of "entities a"] by simp
    have c: "map (\<lambda>(cid, col). (cid, butlast col)) (componentArrays a)
           = map (\<lambda>(cid, col). (cid, swap_remove i col)) (componentArrays a)"
    proof (intro map_cong refl)
      fix p assume p: "p \<in> set (componentArrays a)"
      then have "length (snd p) = ?n" using len by auto
      moreover from this have "snd p \<noteq> []" using ne by auto
      ultimately have "butlast (snd p) = swap_remove i (snd p)"
        using True swap_remove_last [of "snd p"] by simp
      then show "(case p of (cid, col) \<Rightarrow> (cid, butlast col))
               = (case p of (cid, col) \<Rightarrow> (cid, swap_remove i col))"
        by (cases p) simp
    qed
    have f: "fst (popColumns (componentArrays a) (recycledComponents s))
           = map (\<lambda>(cid, col). (cid, swap_remove i col)) (componentArrays a)"
      using c by (simp only: popColumns_fst)
    show ?thesis
      unfolding swapRemoveFromArchetype_def using a ne True f e
      by (simp add: Let_def case_prod_beta)
  next
    case False
    have g: "array_get (entities a) (?n - 1) = Some (last (entities a))"
      using ne by (simp add: array_get_def last_conv_nth)
    have st: "array_set (entities a) i (last (entities a)) = Some ((entities a)[i := last (entities a)])"
      using i by (simp add: array_set_def)
    have sw: "swapColumns i (?n - 1) (componentArrays a)
            = Some (map (\<lambda>(cid, col). (cid, col[i := col ! (?n - 1)])) (componentArrays a))"
      using len i by (intro swapColumns_closed) auto
    have ps: "snd (popColumns (map (\<lambda>(cid, col). (cid, col[i := col ! (?n - 1)])) (componentArrays a))
                 (recycledComponents s))
            = snd (popColumns (componentArrays a) (recycledComponents s))"
      using len i by (intro popColumns_swapped) auto
    have c: "map (\<lambda>(cid, col). (cid, butlast col))
               (map (\<lambda>(cid, col). (cid, col[i := col ! (?n - 1)])) (componentArrays a))
           = map (\<lambda>(cid, col). (cid, swap_remove i col)) (componentArrays a)"
      unfolding map_map
    proof (intro map_cong refl)
      fix p assume p: "p \<in> set (componentArrays a)"
      then have "length (snd p) = ?n" using len by auto
      moreover from this have "snd p \<noteq> []" using ne by auto
      ultimately have "snd p ! (?n - 1) = last (snd p)"
        by (simp add: last_conv_nth)
      then show "((\<lambda>(cid, col). (cid, butlast col)) \<circ> (\<lambda>(cid, col). (cid, col[i := col ! (?n - 1)]))) p
               = (case p of (cid, col) \<Rightarrow> (cid, swap_remove i col))"
        by (cases p) (simp add: swap_remove_def)
    qed
    have f: "fst (popColumns (map (\<lambda>(cid, col). (cid, col[i := col ! (?n - 1)])) (componentArrays a))
                 (recycledComponents s))
           = map (\<lambda>(cid, col). (cid, swap_remove i col)) (componentArrays a)"
      using c by (simp only: popColumns_fst)
    have e: "butlast ((entities a)[i := last (entities a)]) = swap_remove i (entities a)"
      by (simp add: swap_remove_def)
    show ?thesis
      unfolding swapRemoveFromArchetype_def
      using a ne False g st sw f ps e
      by (simp add: Let_def case_prod_beta)
  qed
qed

lemma removeAll_closed:
  assumes loc: "entityToArchetype s e = Some r" "entityToIndex s e = Some i"
    and a: "archetypes s r = Some a" and i: "i < length (entities a)" "entities a ! i = e"
    and len: "\<forall>col \<in> snd ` set (componentArrays a). length col = length (entities a)"
  shows "removeAllComponents e s = Some (scheduleQueryCacheInvalidation (detached e r i a s))"
proof -
  have "entities a \<noteq> []" using i by auto
  then have l: "i = length (entities a) - 1 \<Longrightarrow> last (entities a) = e"
    using i by (simp add: last_conv_nth)
  show ?thesis
    unfolding removeAllComponents_def detached_def
    using loc swapRemove_closed [OF a i(1) len, of e] l
    by (auto intro!: arg_cong [where f = scheduleQueryCacheInvalidation])
qed

lemma Archetype_update_order:
  "b\<lparr>componentArrays := x, entities := y\<rparr> = b\<lparr>entities := y, componentArrays := x\<rparr>"
  by (cases b) simp

lemma row_at_copy:
  assumes "map fst (componentArrays a) = signature a"
  shows "(\<lambda>cid. if cid \<in> set (signature a)
                 then map_option (\<lambda>col. col ! i) (map_of (componentArrays a) cid)
                 else None) = row_at a i"
proof
  fix cid
  have "cid \<notin> set (signature a) \<Longrightarrow> map_of (componentArrays a) cid = None"
    using assms by (metis map_of_eq_None_iff set_map)
  then show "(if cid \<in> set (signature a)
                 then map_option (\<lambda>col. col ! i) (map_of (componentArrays a) cid)
                 else None) = row_at a i cid"
    by (simp add: row_at_def)
qed

lemma moveEntity_closed:
  assumes loc: "entityToArchetype s e = Some r" "entityToIndex s e = Some i"
    and a: "archetypes s r = Some a" and i: "i < length (entities a)" "entities a ! i = e"
    and oka: "archetype_ok r a"
    and b: "archetypes s t = Some b" and okb: "distinct (map fst (componentArrays b))"
    and ne: "t \<noteq> r"
  shows "moveEntity e r t s = Some (inserted e t b (row_at a i) (detached e r i a s))"
proof -
  have len: "\<forall>col \<in> snd ` set (componentArrays a). length col = length (entities a)"
    using oka by (simp add: archetype_ok_def)
  have keys: "map fst (componentArrays a) = signature a"
    using oka by (simp add: archetype_ok_def)
  have src: "\<forall>cid \<in> set (signature a). cid \<in> fst ` set (componentArrays b) \<longrightarrow>
      (\<exists>sc. map_of (componentArrays a) cid = Some sc \<and> i < length sc)"
  proof (intro ballI impI)
    fix cid assume "cid \<in> set (signature a)"
    then have "cid \<in> fst ` set (componentArrays a)" using keys by (metis set_map)
    then obtain sc where sc: "map_of (componentArrays a) cid = Some sc"
      by (metis map_of_eq_None_iff not_Some_eq)
    then have "sc \<in> snd ` set (componentArrays a)"
      by (metis map_of_SomeD image_eqI snd_conv)
    then show "\<exists>sc. map_of (componentArrays a) cid = Some sc \<and> i < length sc"
      using sc len i by auto
  qed
  have cp: "copyColumns (signature a) i (componentArrays a) (componentArrays b)
          = Some (push_row (row_at a i) (componentArrays b))"
    using copyColumns_closed [OF okb, of "signature a" "componentArrays a" i Map.empty] src oka
    by (simp add: push_row_empty row_at_copy [OF keys] archetype_ok_def)
  let ?s1 = "s\<lparr>archetypes := (archetypes s)(t \<mapsto> b\<lparr>componentArrays := push_row (row_at a i) (componentArrays b)\<rparr>)\<rparr>"
  have a1: "archetypes ?s1 r = Some a" using a ne by simp
  have "entities a \<noteq> []" using i by auto
  then have l: "i = length (entities a) - 1 \<Longrightarrow> last (entities a) = e"
    using i by (simp add: last_conv_nth)
  have tw: "\<And>m x y. (m(t \<mapsto> x))(r \<mapsto> y) = (m(r \<mapsto> y))(t \<mapsto> x)"
    using ne by (simp add: fun_upd_twist)
  show ?thesis
    unfolding moveEntity_def
    using loc a b cp swapRemove_closed [OF a1 i(1) len, of e] ne l
    by (auto simp: inserted_def detached_def tw Archetype_update_order)
qed

section \<open>The invariant under the row operations\<close>

lemma members_distinct:
  assumes "members_located s" "archetypes s key = Some a"
  shows "distinct (entities a)"
  unfolding distinct_conv_nth
proof (intro allI impI)
  fix j k assume "j < length (entities a)" "k < length (entities a)" "j \<noteq> k"
  then have "entityToIndex s (entities a ! j) = Some j" "entityToIndex s (entities a ! k) = Some k"
    using assms unfolding members_located_def by blast+
  then show "entities a ! j \<noteq> entities a ! k" using \<open>j \<noteq> k\<close> by auto
qed

lemma located_unique:
  assumes "located s" "entityToArchetype s e = Some r" "entityToIndex s e = Some i"
    "archetypes s r = Some a"
  shows "i < length (entities a) \<and> entities a ! i = e"
  using assms unfolding located_def by fastforce

lemma detached_fields [simp]:
  "componentIdCounter (detached e r i a s) = componentIdCounter s"
  "componentClassToId (detached e r i a s) = componentClassToId s"
  "componentIdToClass (detached e r i a s) = componentIdToClass s"
  "queryCache (detached e r i a s) = queryCache s"
  "archetypesByComponentId (detached e r i a s) = archetypesByComponentId s"
  "componentPoolsById (detached e r i a s) = componentPoolsById s"
  "batchInvalidation (detached e r i a s) = batchInvalidation s"
  "pendingCacheInvalidation (detached e r i a s) = pendingCacheInvalidation s"
  "entityToArchetype (detached e r i a s) = (entityToArchetype s)(e := None)"
  "entityToIndex (detached e r i a s) = ((entityToIndex s)(last (entities a) \<mapsto> i))(e := None)"
  "recycledComponents (detached e r i a s) = snd (popColumns (componentArrays a) (recycledComponents s))"
  "archetypes (detached e r i a s) = (archetypes s)(r \<mapsto>
          a\<lparr>entities := swap_remove i (entities a),
            componentArrays := map (\<lambda>(cid, col). (cid, swap_remove i col)) (componentArrays a)\<rparr>)"
  by (simp_all add: detached_def)

lemma inserted_fields [simp]:
  "componentIdCounter (inserted e r b row s) = componentIdCounter s"
  "componentClassToId (inserted e r b row s) = componentClassToId s"
  "componentIdToClass (inserted e r b row s) = componentIdToClass s"
  "queryCache (inserted e r b row s) = queryCache s"
  "archetypesByComponentId (inserted e r b row s) = archetypesByComponentId s"
  "componentPoolsById (inserted e r b row s) = componentPoolsById s"
  "recycledComponents (inserted e r b row s) = recycledComponents s"
  "batchInvalidation (inserted e r b row s) = batchInvalidation s"
  "pendingCacheInvalidation (inserted e r b row s) = pendingCacheInvalidation s"
  "entityToArchetype (inserted e r b row s) = (entityToArchetype s)(e \<mapsto> r)"
  "entityToIndex (inserted e r b row s) = (entityToIndex s)(e \<mapsto> length (entities b))"
  "archetypes (inserted e r b row s) = (archetypes s)(r \<mapsto>
          b\<lparr>entities := entities b @ [e], componentArrays := push_row row (componentArrays b)\<rparr>)"
  by (simp_all add: inserted_def)

lemma map_fst_columns: "map fst (map (\<lambda>(cid, col). (cid, f col)) cols) = map fst cols"
  by (induction cols) (auto simp: case_prod_beta)

lemma fst_comp_columns: "fst \<circ> (\<lambda>(cid, col). (cid, f col)) = fst"
  by auto

lemma detached_archetype_ok:
  assumes "archetype_ok r a"
  shows "archetype_ok r (a\<lparr>entities := swap_remove i (entities a),
            componentArrays := map (\<lambda>(cid, col). (cid, swap_remove i col)) (componentArrays a)\<rparr>)"
proof -
  have "\<And>col. col \<in> snd ` set (map (\<lambda>(cid, col). (cid, swap_remove i col)) (componentArrays a))
      \<Longrightarrow> length col = length (swap_remove i (entities a))"
  proof -
    fix col assume "col \<in> snd ` set (map (\<lambda>(cid, col). (cid, swap_remove i col)) (componentArrays a))"
    then obtain c0 where "c0 \<in> snd ` set (componentArrays a)" "col = swap_remove i c0"
      by force
    then show "length col = length (swap_remove i (entities a))"
      using assms by (auto simp: archetype_ok_def swap_remove_length)
  qed
  note l = this
  show ?thesis
    unfolding archetype_ok_def
  proof (intro conjI ballI)
    fix col
    assume "col \<in> snd ` set (componentArrays (a\<lparr>entities := swap_remove i (entities a),
            componentArrays := map (\<lambda>(cid, col). (cid, swap_remove i col)) (componentArrays a)\<rparr>))"
    then show "length col = length (entities (a\<lparr>entities := swap_remove i (entities a),
            componentArrays := map (\<lambda>(cid, col). (cid, swap_remove i col)) (componentArrays a)\<rparr>))"
      using l by simp
  qed (use assms in \<open>simp_all add: archetype_ok_def fst_comp_columns\<close>)
qed

lemma detached_inv:
  assumes inv: "heap_inv s"
    and loc: "entityToArchetype s e = Some r" "entityToIndex s e = Some i"
    and a: "archetypes s r = Some a"
  shows "heap_inv (detached e r i a s)"
proof -
  let ?s' = "detached e r i a s"
  let ?n = "length (entities a)"
  from inv have ok: "archetypes_ok s" and ic: "index_complete s" and isd: "index_sound s"
    and lo: "located s" and ml: "members_located s" and rg: "registry_ok s"
    by (simp_all add: heap_inv_def)
  have i: "i < ?n" "entities a ! i = e" using located_unique [OF lo loc a] by auto
  have dist: "distinct (entities a)" using members_distinct [OF ml a] .
  have ne: "entities a \<noteq> []" using i by auto
  have lastn: "last (entities a) = entities a ! (?n - 1)" using ne by (simp add: last_conv_nth)
  have lastloc: "entityToArchetype s (last (entities a)) = Some r"
    "entityToIndex s (last (entities a)) = Some (?n - 1)"
    using ml a ne unfolding members_located_def lastn by auto
  have sig: "\<And>key a'. archetypes ?s' key = Some a' \<Longrightarrow>
      \<exists>a0. archetypes s key = Some a0 \<and> signature a' = signature a0"
    using a by (auto split: if_splits)
  have bk: "\<And>key a0. archetypes s key = Some a0 \<Longrightarrow>
      \<exists>a'. archetypes ?s' key = Some a' \<and> signature a' = signature a0"
    using a by auto
  have 1: "archetypes_ok ?s'"
    unfolding archetypes_ok_def
  proof (intro allI impI)
    fix key a' assume h: "archetypes ?s' key = Some a'"
    show "archetype_ok key a'"
    proof (cases "key = r")
      case True
      then show ?thesis
        using h detached_archetype_ok [of r a i] ok a by (auto simp: archetypes_ok_def)
    next
      case False
      then show ?thesis using h ok by (auto simp: archetypes_ok_def)
    qed
  qed
  have 2: "index_complete ?s'"
    unfolding index_complete_def
  proof (intro allI impI)
    fix key a' cid assume h: "archetypes ?s' key = Some a'" "cid \<in> set (signature a')"
    then obtain a0 where "archetypes s key = Some a0" "signature a' = signature a0"
      using sig by blast
    then show "cid < componentIdCounter ?s' \<and>
        (\<exists>refs. archetypesByComponentId ?s' cid = Some refs \<and> key \<in> set refs)"
      using ic h unfolding index_complete_def by simp
  qed
  have 3: "index_sound ?s'"
    unfolding index_sound_def
  proof (intro allI impI conjI ballI)
    fix cid refs assume h: "archetypesByComponentId ?s' cid = Some refs"
    then show "distinct refs" using isd unfolding index_sound_def by simp
    fix x assume "x \<in> set refs"
    then obtain a0 where "archetypes s x = Some a0" "cid \<in> set (signature a0)"
      using isd h unfolding index_sound_def by fastforce
    then show "\<exists>a'. archetypes ?s' x = Some a' \<and> cid \<in> set (signature a')"
      using bk by fastforce
  qed
  have 4: "located ?s'"
    unfolding located_def
  proof (intro allI impI)
    fix e' r' assume h: "entityToArchetype ?s' e' = Some r'"
    then have ne': "e' \<noteq> e" and l0: "entityToArchetype s e' = Some r'"
      by (auto split: if_splits)
    then obtain a0 i0 where a0: "archetypes s r' = Some a0" "entityToIndex s e' = Some i0"
      "i0 < length (entities a0)" "entities a0 ! i0 = e'"
      using lo unfolding located_def by blast
    show "\<exists>a' i'. archetypes ?s' r' = Some a' \<and> entityToIndex ?s' e' = Some i' \<and>
        i' < length (entities a') \<and> entities a' ! i' = e'"
    proof (cases "r' = r")
      case False
      then have "e' \<noteq> last (entities a)" using lastloc l0 by auto
      then show ?thesis using False a0 ne' by auto
    next
      case True
      then have aa: "a0 = a" using a0 a by simp
      have ii: "i0 \<noteq> i" using a0 i ne' aa by auto
      show ?thesis
      proof (cases "i0 = ?n - 1")
        case t: True
        then have "e' = last (entities a)" using a0 aa lastn by simp
        moreover have "i < ?n - 1" using i ii t by simp
        ultimately show ?thesis
          using True ne' by (auto simp: swap_remove_length swap_remove_nth)
      next
        case f: False
        then have lt: "i0 < ?n - 1" using a0 aa by simp
        have "e' \<noteq> last (entities a)"
          using dist a0 aa f lastn ne by (metis diff_less length_greater_0_conv less_one nth_eq_iff_index_eq)
        then show ?thesis
          using True ne' lt ii a0 aa by (auto simp: swap_remove_length swap_remove_nth)
      qed
    qed
  qed
  have 5: "members_located ?s'"
    unfolding members_located_def
  proof (intro allI impI)
    fix key a' j assume h: "archetypes ?s' key = Some a'" "j < length (entities a')"
    show "entityToArchetype ?s' (entities a' ! j) = Some key \<and>
          entityToIndex ?s' (entities a' ! j) = Some j"
    proof (cases "key = r")
      case False
      then have a0: "archetypes s key = Some a'" using h by simp
      then have l: "entityToArchetype s (entities a' ! j) = Some key"
        "entityToIndex s (entities a' ! j) = Some j"
        using ml h unfolding members_located_def by auto
      then have "entities a' ! j \<noteq> e" "entities a' ! j \<noteq> last (entities a)"
        using False loc lastloc by auto
      then show ?thesis using l by simp
    next
      case True
      then have a': "entities a' = swap_remove i (entities a)" using h by auto
      then have j: "j < ?n - 1" using h by (simp add: swap_remove_length)
      show ?thesis
      proof (cases "j = i")
        case t: True
        then have "entities a' ! j = last (entities a)" using a' j by (simp add: swap_remove_nth)
        moreover have "last (entities a) \<noteq> e"
          using dist i j t lastn ne by (metis diff_less length_greater_0_conv less_one nat_neq_iff nth_eq_iff_index_eq)
        ultimately show ?thesis using True t lastloc by simp
      next
        case f: False
        then have x: "entities a' ! j = entities a ! j" using a' j by (simp add: swap_remove_nth)
        have jn: "j < ?n" using j by simp
        have "entities a ! j \<noteq> e" using dist i f jn by (metis nth_eq_iff_index_eq)
        moreover have "entities a ! j \<noteq> last (entities a)"
          using dist j jn lastn ne by (metis diff_less length_greater_0_conv less_one nat_neq_iff nth_eq_iff_index_eq)
        moreover have "entityToArchetype s (entities a ! j) = Some r"
          "entityToIndex s (entities a ! j) = Some j"
          using ml a jn unfolding members_located_def by auto
        ultimately show ?thesis using True x by simp
      qed
    qed
  qed
  have "\<And>cid. (snd (popColumns (componentArrays a) (recycledComponents s)) cid \<noteq> None)
      = (recycledComponents s cid \<noteq> None)"
    using popColumns_dom [of "componentArrays a" "recycledComponents s"] by (metis domIff)
  then have 6: "registry_ok ?s'"
    using rg unfolding registry_ok_def by simp
  show ?thesis using 1 2 3 4 5 6 by (simp add: heap_inv_def)
qed

lemma push_row_lengths:
  assumes "map fst cols = sig" "\<forall>cid \<in> set sig. row cid \<noteq> None"
    and "\<forall>col \<in> snd ` set cols. length col = n"
    and "col \<in> snd ` set (push_row row cols)"
  shows "length col = Suc n"
proof -
  from assms(4) obtain cid c0 where c: "(cid, c0) \<in> set cols"
    "col = (case row cid of None \<Rightarrow> c0 | Some v \<Rightarrow> c0 @ [v])"
    unfolding push_row_def by force
  then have "cid \<in> set sig" using assms(1) by force
  then obtain v where "row cid = Some v" using assms(2) by auto
  moreover have "length c0 = n" using c assms(3) by force
  ultimately show ?thesis using c by simp
qed

lemma inserted_inv:
  assumes inv: "heap_inv s"
    and loc: "entityToArchetype s e = None"
    and b: "archetypes s r = Some b"
    and row: "\<forall>cid \<in> set (signature b). row cid \<noteq> None"
  shows "heap_inv (inserted e r b row s)"
proof -
  let ?s' = "inserted e r b row s"
  let ?b' = "b\<lparr>entities := entities b @ [e], componentArrays := push_row row (componentArrays b)\<rparr>"
  from inv have ok: "archetypes_ok s" and ic: "index_complete s" and isd: "index_sound s"
    and lo: "located s" and ml: "members_located s" and rg: "registry_ok s"
    by (simp_all add: heap_inv_def)
  have okb: "archetype_ok r b" using ok b by (simp add: archetypes_ok_def)
  have sig: "\<And>key a'. archetypes ?s' key = Some a' \<Longrightarrow>
      \<exists>a0. archetypes s key = Some a0 \<and> signature a' = signature a0"
    using b by (auto split: if_splits)
  have bk: "\<And>key a0. archetypes s key = Some a0 \<Longrightarrow>
      \<exists>a'. archetypes ?s' key = Some a' \<and> signature a' = signature a0"
    using b by auto
  have notin: "\<And>key a0 j. archetypes s key = Some a0 \<Longrightarrow> j < length (entities a0) \<Longrightarrow>
      entities a0 ! j \<noteq> e"
    using ml loc unfolding members_located_def by fastforce
  have okb': "archetype_ok r ?b'"
    unfolding archetype_ok_def
  proof (intro conjI ballI)
    fix col assume "col \<in> snd ` set (componentArrays ?b')"
    then have "col \<in> snd ` set (push_row row (componentArrays b))" by simp
    then have "length col = Suc (length (entities b))"
      using push_row_lengths [of "componentArrays b" "signature b" row "length (entities b)" col]
        okb row by (simp add: archetype_ok_def)
    then show "length col = length (entities ?b')" by simp
  qed (use okb in \<open>simp_all add: archetype_ok_def push_row_keys\<close>)
  have 1: "archetypes_ok ?s'"
    unfolding archetypes_ok_def
  proof (intro allI impI)
    fix key a' assume h: "archetypes ?s' key = Some a'"
    show "archetype_ok key a'"
      using h okb' ok by (cases "key = r") (auto simp: archetypes_ok_def)
  qed
  have 2: "index_complete ?s'"
    unfolding index_complete_def
  proof (intro allI impI)
    fix key a' cid assume h: "archetypes ?s' key = Some a'" "cid \<in> set (signature a')"
    then obtain a0 where "archetypes s key = Some a0" "signature a' = signature a0"
      using sig by blast
    then show "cid < componentIdCounter ?s' \<and>
        (\<exists>refs. archetypesByComponentId ?s' cid = Some refs \<and> key \<in> set refs)"
      using ic h unfolding index_complete_def by simp
  qed
  have 3: "index_sound ?s'"
    unfolding index_sound_def
  proof (intro allI impI conjI ballI)
    fix cid refs assume h: "archetypesByComponentId ?s' cid = Some refs"
    then show "distinct refs" using isd unfolding index_sound_def by simp
    fix x assume "x \<in> set refs"
    then obtain a0 where "archetypes s x = Some a0" "cid \<in> set (signature a0)"
      using isd h unfolding index_sound_def by fastforce
    then show "\<exists>a'. archetypes ?s' x = Some a' \<and> cid \<in> set (signature a')"
      using bk by fastforce
  qed
  have 4: "located ?s'"
    unfolding located_def
  proof (intro allI impI)
    fix e' r' assume h: "entityToArchetype ?s' e' = Some r'"
    show "\<exists>a' i'. archetypes ?s' r' = Some a' \<and> entityToIndex ?s' e' = Some i' \<and>
        i' < length (entities a') \<and> entities a' ! i' = e'"
    proof (cases "e' = e")
      case True
      then show ?thesis using h by auto
    next
      case False
      then have "entityToArchetype s e' = Some r'" using h by simp
      then obtain a0 i0 where a0: "archetypes s r' = Some a0" "entityToIndex s e' = Some i0"
        "i0 < length (entities a0)" "entities a0 ! i0 = e'"
        using lo unfolding located_def by blast
      show ?thesis
      proof (cases "r' = r")
        case t: True
        then have "a0 = b" using a0 b by simp
        then show ?thesis using t False a0 by (auto simp: nth_append)
      next
        case f: False
        then show ?thesis using False a0 by auto
      qed
    qed
  qed
  have 5: "members_located ?s'"
    unfolding members_located_def
  proof (intro allI impI)
    fix key a' j assume h: "archetypes ?s' key = Some a'" "j < length (entities a')"
    show "entityToArchetype ?s' (entities a' ! j) = Some key \<and>
          entityToIndex ?s' (entities a' ! j) = Some j"
    proof (cases "key = r")
      case False
      then have a0: "archetypes s key = Some a'" using h by simp
      then have "entities a' ! j \<noteq> e" using notin h by blast
      then show ?thesis using ml a0 h unfolding members_located_def by simp
    next
      case True
      then have a': "entities a' = entities b @ [e]" using h by auto
      show ?thesis
      proof (cases "j = length (entities b)")
        case t: True
        then show ?thesis using a' True by simp
      next
        case f: False
        then have j: "j < length (entities b)" using h a' by simp
        then have "entities b ! j \<noteq> e" using notin b by blast
        then show ?thesis
          using ml b j a' True unfolding members_located_def by (simp add: nth_append)
      qed
    qed
  qed
  have 6: "registry_ok ?s'"
    using rg unfolding registry_ok_def by simp
  show ?thesis using 1 2 3 4 5 6 by (simp add: heap_inv_def)
qed

lemma heap_inv_cache_update [simp]:
  "heap_inv (s\<lparr>queryCache := q\<rparr>) = heap_inv s"
  "heap_inv (s\<lparr>pendingCacheInvalidation := p\<rparr>) = heap_inv s"
  "heap_inv (s\<lparr>batchInvalidation := p\<rparr>) = heap_inv s"
  "heap_inv (s\<lparr>arrayCounter := n\<rparr>) = heap_inv s"
  by (simp_all add: heap_inv_def archetypes_ok_def index_complete_def index_sound_def
      located_def members_located_def registry_ok_def)

lemma heap_inv_schedule [simp]: "heap_inv (scheduleQueryCacheInvalidation s) = heap_inv s"
  by (simp add: scheduleQueryCacheInvalidation_def invalidateQueryCaches_def)

lemma schedule_fields [simp]:
  "componentIdCounter (scheduleQueryCacheInvalidation s) = componentIdCounter s"
  "componentClassToId (scheduleQueryCacheInvalidation s) = componentClassToId s"
  "componentIdToClass (scheduleQueryCacheInvalidation s) = componentIdToClass s"
  "archetypes (scheduleQueryCacheInvalidation s) = archetypes s"
  "entityToArchetype (scheduleQueryCacheInvalidation s) = entityToArchetype s"
  "entityToIndex (scheduleQueryCacheInvalidation s) = entityToIndex s"
  "archetypesByComponentId (scheduleQueryCacheInvalidation s) = archetypesByComponentId s"
  "componentPoolsById (scheduleQueryCacheInvalidation s) = componentPoolsById s"
  "recycledComponents (scheduleQueryCacheInvalidation s) = recycledComponents s"
  "batchInvalidation (scheduleQueryCacheInvalidation s) = batchInvalidation s"
  by (simp_all add: scheduleQueryCacheInvalidation_def invalidateQueryCaches_def)

section \<open>The registry\<close>

lemma getComponentId_frame:
  assumes "getComponentId k s = (cid, s')"
  shows "archetypes s' = archetypes s" "entityToArchetype s' = entityToArchetype s"
    "entityToIndex s' = entityToIndex s" "queryCache s' = queryCache s"
    "batchInvalidation s' = batchInvalidation s"
    "pendingCacheInvalidation s' = pendingCacheInvalidation s"
    "componentIdCounter s \<le> componentIdCounter s'"
    "componentClassToId s' k = Some cid"
  using assms by (auto simp: getComponentId_def Let_def split: option.splits)

lemma getComponentId_registered:
  assumes "componentClassToId s k = Some cid"
  shows "getComponentId k s = (cid, s)"
  using assms by (simp add: getComponentId_def)

lemma getComponentId_keeps:
  assumes "getComponentId k s = (cid, s')" "registry_ok s"
  shows "componentClassToId s k' = Some c \<Longrightarrow> componentClassToId s' k' = Some c"
    and "c < componentIdCounter s \<Longrightarrow> archetypesByComponentId s' c = archetypesByComponentId s c"
    and "c < componentIdCounter s \<Longrightarrow> recycledComponents s' c = recycledComponents s c"
  using assms by (auto simp: getComponentId_def Let_def registry_ok_def split: option.splits)

lemma getComponentId_inv:
  assumes inv: "heap_inv s" and g: "getComponentId k s = (cid, s')"
  shows "heap_inv s'"
proof (cases "componentClassToId s k")
  case (Some c)
  then show ?thesis using inv g by (simp add: getComponentId_def)
next
  case None
  let ?n = "componentIdCounter s"
  have s': "s' = s\<lparr>componentIdCounter := ?n + 1,
                     componentClassToId := (componentClassToId s)(k \<mapsto> ?n),
                     componentIdToClass := (componentIdToClass s)(?n \<mapsto> k),
                     archetypesByComponentId := (archetypesByComponentId s)(?n \<mapsto> []),
                     componentPoolsById := (componentPoolsById s)(?n \<mapsto> []),
                     recycledComponents := (recycledComponents s)(?n \<mapsto> [])\<rparr>"
    using g None by (auto simp: getComponentId_def Let_def)
  from inv have ok: "archetypes_ok s" and ic: "index_complete s" and isd: "index_sound s"
    and lo: "located s" and ml: "members_located s" and rg: "registry_ok s"
    by (simp_all add: heap_inv_def)
  have 1: "archetypes_ok s'" using ok unfolding s' archetypes_ok_def by simp
  have 2: "index_complete s'"
    unfolding index_complete_def
  proof (intro allI impI)
    fix key a cid assume h: "archetypes s' key = Some a" "cid \<in> set (signature a)"
    then have "cid < ?n \<and> (\<exists>refs. archetypesByComponentId s cid = Some refs \<and> key \<in> set refs)"
      using ic unfolding index_complete_def s' by simp
    then show "cid < componentIdCounter s' \<and>
        (\<exists>refs. archetypesByComponentId s' cid = Some refs \<and> key \<in> set refs)"
      unfolding s' by auto
  qed
  have 3: "index_sound s'"
    using isd unfolding index_sound_def s' by auto
  have 4: "located s'" using lo unfolding located_def s' by simp
  have 5: "members_located s'" using ml unfolding members_located_def s' by simp
  have 6: "registry_ok s'"
    using rg None unfolding registry_ok_def s' by (auto simp: less_Suc_eq)
  show ?thesis using 1 2 3 4 5 6 by (simp add: heap_inv_def)
qed

section \<open>Archetype creation\<close>

lemma set_add_set [simp]: "set (set_add x xs) = insert x (set xs)"
  by (auto simp: set_add_def)

lemma set_add_distinct [simp]: "distinct (set_add x xs) = distinct xs"
  by (auto simp: set_add_def)

lemma set_add_idem [simp]: "set_add x (set_add x xs) = set_add x xs"
  by (auto simp: set_add_def)

lemma createColumns_closed:
  assumes "\<forall>cid \<in> set ids. idx cid \<noteq> None"
  shows "createColumns ref ids cols idx =
     Some (fold (\<lambda>cid. AList.update cid []) ids cols,
           (\<lambda>c. if c \<in> set ids then map_option (set_add ref) (idx c) else idx c))"
  using assms
proof (induction ids arbitrary: cols idx)
  case Nil
  then show ?case by simp
next
  case (Cons cid ids)
  then obtain refs where r: "idx cid = Some refs" by auto
  have ih: "\<forall>c \<in> set ids. (idx(cid \<mapsto> set_add ref refs)) c \<noteq> None"
    using Cons.prems by auto
  have "createColumns ref (cid # ids) cols idx
      = createColumns ref ids (AList.update cid [] cols) (idx(cid \<mapsto> set_add ref refs))"
    using r by simp
  also have "\<dots> = Some (fold (\<lambda>cid. AList.update cid []) ids (AList.update cid [] cols),
           (\<lambda>c. if c \<in> set ids then map_option (set_add ref) ((idx(cid \<mapsto> set_add ref refs)) c)
                 else (idx(cid \<mapsto> set_add ref refs)) c))"
    by (rule Cons.IH [OF ih])
  also have "(\<lambda>c. if c \<in> set ids then map_option (set_add ref) ((idx(cid \<mapsto> set_add ref refs)) c)
                 else (idx(cid \<mapsto> set_add ref refs)) c)
      = (\<lambda>c. if c \<in> set (cid # ids) then map_option (set_add ref) (idx c) else idx c)"
    using r by (auto simp: fun_eq_iff)
  finally show ?case by simp
qed

lemma update_fresh: "k \<notin> fst ` set al \<Longrightarrow> AList.update k v al = al @ [(k, v)]"
  by (induction al) auto

lemma fresh_columns:
  assumes "distinct ids" "set ids \<inter> fst ` set cols = {}"
  shows "fold (\<lambda>cid. AList.update cid []) ids cols = cols @ map (\<lambda>cid. (cid, [])) ids"
  using assms
proof (induction ids arbitrary: cols)
  case Nil
  then show ?case by simp
next
  case (Cons cid ids)
  have u: "AList.update cid [] cols = cols @ [(cid, [])]"
    using Cons.prems by (intro update_fresh) auto
  have "set ids \<inter> fst ` set (cols @ [(cid, [])]) = {}"
    using Cons.prems by auto
  then show ?case using Cons u by simp
qed

lemma getOrCreateArchetype_closed:
  assumes "\<forall>cid \<in> set ids. archetypesByComponentId s cid \<noteq> None" "distinct ids"
  shows "getOrCreateArchetype ids s =
     Some (createSignature ids,
           case archetypes s (createSignature ids) of
             Some a \<Rightarrow> s
           | None \<Rightarrow> scheduleQueryCacheInvalidation (created ids s))"
proof -
  have "createColumns (createSignature ids) ids [] (archetypesByComponentId s) =
     Some (map (\<lambda>cid. (cid, [])) ids,
           (\<lambda>c. if c \<in> set ids
                 then map_option (set_add (createSignature ids)) (archetypesByComponentId s c)
                 else archetypesByComponentId s c))"
  proof -
    have fc: "fold (\<lambda>cid. AList.update cid []) ids [] = map (\<lambda>cid. (cid, [])) ids"
      using fresh_columns [OF assms(2), of "[]"] by simp
    show ?thesis
      using createColumns_closed [OF assms(1), of "createSignature ids" "[]"] unfolding fc .
  qed
  note cc = this
  show ?thesis
    unfolding getOrCreateArchetype_def Let_def cc
    by (cases "archetypes s (createSignature ids)") (simp_all add: created_def)
qed

lemma created_fields [simp]:
  "componentIdCounter (created ids s) = componentIdCounter s"
  "componentClassToId (created ids s) = componentClassToId s"
  "componentIdToClass (created ids s) = componentIdToClass s"
  "queryCache (created ids s) = queryCache s"
  "entityToArchetype (created ids s) = entityToArchetype s"
  "entityToIndex (created ids s) = entityToIndex s"
  "componentPoolsById (created ids s) = componentPoolsById s"
  "recycledComponents (created ids s) = recycledComponents s"
  "batchInvalidation (created ids s) = batchInvalidation s"
  "pendingCacheInvalidation (created ids s) = pendingCacheInvalidation s"
  "archetypes (created ids s) = (archetypes s)(createSignature ids \<mapsto>
          \<lparr>signature = ids, entities = [], componentArrays = map (\<lambda>cid. (cid, [])) ids\<rparr>)"
  "archetypesByComponentId (created ids s) =
          (\<lambda>c. if c \<in> set ids
                then map_option (set_add (createSignature ids)) (archetypesByComponentId s c)
                else archetypesByComponentId s c)"
  by (simp_all add: created_def)

lemma created_inv:
  assumes inv: "heap_inv s"
    and fresh: "archetypes s (createSignature ids) = None"
    and ids: "distinct ids" "sorted ids" "\<forall>cid \<in> set ids. cid < componentIdCounter s"
  shows "heap_inv (created ids s)"
proof -
  let ?s' = "created ids s"
  let ?key = "createSignature ids"
  let ?new = "\<lparr>signature = ids, entities = [], componentArrays = map (\<lambda>cid. (cid, [])) ids\<rparr> :: 'b Archetype"
  from inv have ok: "archetypes_ok s" and ic: "index_complete s" and isd: "index_sound s"
    and lo: "located s" and ml: "members_located s" and rg: "registry_ok s"
    by (simp_all add: heap_inv_def)
  have old: "\<And>key a. archetypes s key = Some a \<Longrightarrow> key \<noteq> ?key"
    using fresh by auto
  have 1: "archetypes_ok ?s'"
    unfolding archetypes_ok_def
  proof (intro allI impI)
    fix key a' assume h: "archetypes ?s' key = Some a'"
    show "archetype_ok key a'"
    proof (cases "key = ?key")
      case True
      then have "a' = ?new" using h by simp
      then show ?thesis using True ids by (simp add: archetype_ok_def comp_def)
    next
      case False
      then show ?thesis using h ok by (simp add: archetypes_ok_def)
    qed
  qed
  have 2: "index_complete ?s'"
    unfolding index_complete_def
  proof (intro allI impI)
    fix key a' cid assume h: "archetypes ?s' key = Some a'" "cid \<in> set (signature a')"
    show "cid < componentIdCounter ?s' \<and>
        (\<exists>refs. archetypesByComponentId ?s' cid = Some refs \<and> key \<in> set refs)"
    proof (cases "key = ?key")
      case True
      then have "a' = ?new" using h by simp
      then have c: "cid \<in> set ids" using h by simp
      then have "cid < componentIdCounter s" using ids by simp
      moreover from this obtain refs where "archetypesByComponentId s cid = Some refs"
        using rg unfolding registry_ok_def by auto
      ultimately show ?thesis using c True by simp
    next
      case False
      then have "archetypes s key = Some a'" using h by simp
      then have "cid < componentIdCounter s \<and>
        (\<exists>refs. archetypesByComponentId s cid = Some refs \<and> key \<in> set refs)"
        using ic h unfolding index_complete_def by blast
      then show ?thesis by auto
    qed
  qed
  have 3: "index_sound ?s'"
    unfolding index_sound_def
  proof (intro allI impI conjI ballI)
    fix cid refs assume h: "archetypesByComponentId ?s' cid = Some refs"
    then obtain refs0 where r0: "archetypesByComponentId s cid = Some refs0"
      "refs = (if cid \<in> set ids then set_add ?key refs0 else refs0)"
      by (auto split: if_splits)
    then have d0: "distinct refs0"
      and m0: "\<forall>r \<in> set refs0. \<exists>a. archetypes s r = Some a \<and> cid \<in> set (signature a)"
      using isd unfolding index_sound_def by blast+
    show "distinct refs" using r0 d0 by simp
    fix x assume x: "x \<in> set refs"
    show "\<exists>a'. archetypes ?s' x = Some a' \<and> cid \<in> set (signature a')"
    proof (cases "x = ?key")
      case True
      have "cid \<in> set ids"
      proof (rule ccontr)
        assume "cid \<notin> set ids"
        then have "x \<in> set refs0" using x r0 by simp
        then show False using m0 old True by blast
      qed
      then show ?thesis using True by simp
    next
      case False
      then have "x \<in> set refs0" using x r0 by (auto split: if_splits)
      then show ?thesis using m0 False by auto
    qed
  qed
  have 4: "located ?s'"
    unfolding located_def
  proof (intro allI impI)
    fix e r assume "entityToArchetype ?s' e = Some r"
    then obtain a i where a: "archetypes s r = Some a" "entityToIndex s e = Some i"
      "i < length (entities a)" "entities a ! i = e"
      using lo unfolding located_def by fastforce
    then have "r \<noteq> ?key" using old by blast
    then show "\<exists>a i. archetypes ?s' r = Some a \<and> entityToIndex ?s' e = Some i \<and>
        i < length (entities a) \<and> entities a ! i = e"
      using a by auto
  qed
  have 5: "members_located ?s'"
    unfolding members_located_def
  proof (intro allI impI)
    fix key a' j assume h: "archetypes ?s' key = Some a'" "j < length (entities a')"
    then have "key \<noteq> ?key" by (auto split: if_splits)
    then show "entityToArchetype ?s' (entities a' ! j) = Some key \<and>
          entityToIndex ?s' (entities a' ! j) = Some j"
      using h ml unfolding members_located_def by simp
  qed
  have 6: "registry_ok ?s'"
    using rg unfolding registry_ok_def by auto
  show ?thesis using 1 2 3 4 5 6 by (simp add: heap_inv_def)
qed

text \<open>Everything the operations need to know about \<open>getOrCreateArchetype\<close>.\<close>

lemma getOrCreateArchetype_inv:
  assumes inv: "heap_inv s"
    and ids: "distinct ids" "sorted ids" "\<forall>cid \<in> set ids. cid < componentIdCounter s"
  obtains s' b where "getOrCreateArchetype ids s = Some (createSignature ids, s')"
    "heap_inv s'" "archetypes s' (createSignature ids) = Some b" "signature b = ids"
    "entityToArchetype s' = entityToArchetype s" "entityToIndex s' = entityToIndex s"
    "componentIdCounter s' = componentIdCounter s" "componentClassToId s' = componentClassToId s"
    "recycledComponents s' = recycledComponents s" "batchInvalidation s' = batchInvalidation s"
    "\<And>key a. archetypes s key = Some a \<Longrightarrow> archetypes s' key = Some a"
    "\<And>key a. key \<noteq> createSignature ids \<Longrightarrow> archetypes s' key = archetypes s key"
    "archetypes s (createSignature ids) = None \<Longrightarrow> entities b = []"
proof -
  have reg: "\<forall>cid \<in> set ids. archetypesByComponentId s cid \<noteq> None"
    using inv ids by (simp add: heap_inv_def registry_ok_def)
  note c = getOrCreateArchetype_closed [OF reg ids(1)]
  show ?thesis
  proof (cases "archetypes s (createSignature ids)")
    case None
    let ?s' = "scheduleQueryCacheInvalidation (created ids s)"
    let ?b = "\<lparr>signature = ids, entities = [], componentArrays = map (\<lambda>cid. (cid, [])) ids\<rparr> :: 'b Archetype"
    have hi: "heap_inv ?s'"
      using created_inv [OF inv None ids] by simp
    have g: "getOrCreateArchetype ids s = Some (createSignature ids, ?s')"
      using c None by simp
    show ?thesis
    proof (rule that [of ?s' ?b])
      fix key a assume "archetypes s key = Some a"
      then show "archetypes ?s' key = Some a" using None by auto
    qed (use hi g in simp_all)
  next
    case (Some a)
    then have "archetype_ok (createSignature ids) a"
      using inv by (simp add: heap_inv_def archetypes_ok_def)
    then have sg: "signature a = ids"
      using createSignature_inj by (simp add: archetype_ok_def)
    have g: "getOrCreateArchetype ids s = Some (createSignature ids, s)"
      using c Some by simp
    show ?thesis
      by (rule that [of s a]) (use g inv Some sg in simp_all)
  qed
qed

section \<open>Closed forms of the operations\<close>

lemma ensured_fields [simp]:
  "componentIdCounter (ensured ids s) = componentIdCounter s"
  "componentClassToId (ensured ids s) = componentClassToId s"
  "componentIdToClass (ensured ids s) = componentIdToClass s"
  "entityToArchetype (ensured ids s) = entityToArchetype s"
  "entityToIndex (ensured ids s) = entityToIndex s"
  "componentPoolsById (ensured ids s) = componentPoolsById s"
  "recycledComponents (ensured ids s) = recycledComponents s"
  "batchInvalidation (ensured ids s) = batchInvalidation s"
  by (simp_all add: ensured_def split: option.splits)

lemma ensured_old: "archetypes s key = Some a \<Longrightarrow> archetypes (ensured ids s) key = Some a"
  by (auto simp: ensured_def split: option.splits)

lemma ensured_other:
  "key \<noteq> createSignature ids \<Longrightarrow> archetypes (ensured ids s) key = archetypes s key"
  by (auto simp: ensured_def split: option.splits)

lemma ensured_new:
  "archetypes s (createSignature ids) = None \<Longrightarrow>
   archetypes (ensured ids s) (createSignature ids) =
     Some \<lparr>signature = ids, entities = [], componentArrays = map (\<lambda>cid. (cid, [])) ids\<rparr>"
  by (simp add: ensured_def)

lemma ensured_inv:
  assumes inv: "heap_inv s"
    and ids: "distinct ids" "sorted ids" "\<forall>cid \<in> set ids. cid < componentIdCounter s"
  shows "getOrCreateArchetype ids s = Some (createSignature ids, ensured ids s)"
    and "heap_inv (ensured ids s)"
    and "\<exists>b. archetypes (ensured ids s) (createSignature ids) = Some b \<and> signature b = ids"
proof -
  have reg: "\<forall>cid \<in> set ids. archetypesByComponentId s cid \<noteq> None"
    using inv ids by (simp add: heap_inv_def registry_ok_def)
  show "getOrCreateArchetype ids s = Some (createSignature ids, ensured ids s)"
    using getOrCreateArchetype_closed [OF reg ids(1)] by (simp add: ensured_def)
  show "heap_inv (ensured ids s)"
  proof (cases "archetypes s (createSignature ids)")
    case None
    then show ?thesis using created_inv [OF inv None ids] by (simp add: ensured_def)
  next
    case (Some a)
    then show ?thesis using inv by (simp add: ensured_def)
  qed
  show "\<exists>b. archetypes (ensured ids s) (createSignature ids) = Some b \<and> signature b = ids"
  proof (cases "archetypes s (createSignature ids)")
    case None
    then show ?thesis by (simp add: ensured_new)
  next
    case (Some a)
    then have "archetype_ok (createSignature ids) a"
      using inv by (simp add: heap_inv_def archetypes_ok_def)
    then have "signature a = ids"
      using createSignature_inj by (simp add: archetype_ok_def)
    then show ?thesis using Some by (simp add: ensured_def)
  qed
qed

lemma heap_located:
  assumes "heap_inv s" "entityToArchetype s e = Some r"
  obtains a i where "archetypes s r = Some a" "entityToIndex s e = Some i"
    "i < length (entities a)" "entities a ! i = e" "archetype_ok r a"
  using assms unfolding heap_inv_def located_def archetypes_ok_def by blast

lemma column_of_signature:
  assumes "archetype_ok r a"
  shows "(map_of (componentArrays a) cid \<noteq> None) = (cid \<in> set (signature a))"
    and "map_of (componentArrays a) cid = Some col \<Longrightarrow> length col = length (entities a)"
proof -
  have k: "map fst (componentArrays a) = signature a"
    using assms by (simp add: archetype_ok_def)
  show "(map_of (componentArrays a) cid \<noteq> None) = (cid \<in> set (signature a))"
    using k by (metis map_of_eq_None_iff set_map)
  assume "map_of (componentArrays a) cid = Some col"
  then have "col \<in> snd ` set (componentArrays a)"
    by (metis map_of_SomeD image_eqI snd_conv)
  then show "length col = length (entities a)"
    using assms by (auto simp: archetype_ok_def)
qed

lemma removeAll_none: "entityToArchetype s e = None \<Longrightarrow> removeAllComponents e s = Some s"
  by (simp add: removeAllComponents_def)

lemma removeAll_some:
  assumes inv: "heap_inv s" and loc: "entityToArchetype s e = Some r"
    and a: "archetypes s r = Some a" "entityToIndex s e = Some i"
  shows "removeAllComponents e s = Some (scheduleQueryCacheInvalidation (detached e r i a s))"
    and "heap_inv (detached e r i a s)"
proof -
  obtain a' i' where l: "archetypes s r = Some a'" "entityToIndex s e = Some i'"
    "i' < length (entities a')" "entities a' ! i' = e" "archetype_ok r a'"
    using heap_located [OF inv loc] by blast
  then have eq: "a' = a" "i' = i" using a by auto
  show "removeAllComponents e s = Some (scheduleQueryCacheInvalidation (detached e r i a s))"
    using removeAll_closed [OF loc a(2) a(1)] l eq by (simp add: archetype_ok_def)
  show "heap_inv (detached e r i a s)"
    using detached_inv [OF inv loc a(2) a(1)] .
qed

lemma extendSignature_props:
  "distinct sig \<Longrightarrow> cid \<notin> set sig \<Longrightarrow> distinct (extendSignature sig cid)"
  "sorted (extendSignature sig cid)"
  "set (extendSignature sig cid) = insert cid (set sig)"
  by (simp_all add: extendSignature_def array_sort_sort)

lemma singleton_column:
  assumes "archetype_ok r b" "signature b = [cid]"
  obtains col where "componentArrays b = [(cid, col)]" "length col = length (entities b)"
proof -
  have "map fst (componentArrays b) = [cid]" using assms by (simp add: archetype_ok_def)
  then obtain col where c: "componentArrays b = [(cid, col)]"
    by (cases "componentArrays b") auto
  then have "length col = length (entities b)" using assms by (simp add: archetype_ok_def)
  then show ?thesis using c that by blast
qed

lemma addComponent_first:
  assumes inv: "heap_inv s" and g: "getComponentId k s = (cid, s0)"
    and loc: "entityToArchetype s e = None"
    and s1: "s1 = ensured [cid] s0"
  obtains b where "archetypes s1 (createSignature [cid]) = Some b" "signature b = [cid]"
    "addComponent e k c s =
       Some (scheduleQueryCacheInvalidation (inserted e (createSignature [cid]) b [cid \<mapsto> c] s1))"
    "heap_inv (inserted e (createSignature [cid]) b [cid \<mapsto> c] s1)"
proof -
  let ?key = "createSignature [cid]"
  have inv0: "heap_inv s0" using getComponentId_inv [OF inv g] .
  have reg: "cid < componentIdCounter s0"
    using inv0 getComponentId_frame(8) [OF g] by (auto simp: heap_inv_def registry_ok_def)
  have loc0: "entityToArchetype s0 e = None" using loc getComponentId_frame(2) [OF g] by simp
  note en = ensured_inv [OF inv0, of "[cid]"]
  have ge: "getOrCreateArchetype [cid] s0 = Some (?key, s1)" using en(1) reg s1 by simp
  have inv1: "heap_inv s1" using en(2) reg s1 by simp
  obtain b where b: "archetypes s1 ?key = Some b" "signature b = [cid]"
    using en(3) reg s1 by auto
  have okb: "archetype_ok ?key b" using inv1 b by (simp add: heap_inv_def archetypes_ok_def)
  obtain col where col: "componentArrays b = [(cid, col)]" "length col = length (entities b)"
    using singleton_column [OF okb b(2)] by blast
  have loc1: "entityToArchetype s1 e = None" using loc0 s1 by simp
  have pr: "push_row [cid \<mapsto> c] (componentArrays b) = [(cid, col @ [c])]"
    using col by (simp add: push_row_def)
  have "addComponent e k c s =
       Some (scheduleQueryCacheInvalidation (inserted e ?key b [cid \<mapsto> c] s1))"
    unfolding addComponent_def using g loc0 ge b col pr
    by (simp add: inserted_def)
  moreover have "heap_inv (inserted e ?key b [cid \<mapsto> c] s1)"
    using inserted_inv [OF inv1 loc1 b(1), of "[cid \<mapsto> c]"] b by simp
  ultimately show ?thesis using that b by blast
qed

lemma heap_inv_archetype_update:
  assumes inv: "heap_inv s" and a: "archetypes s r = Some a"
    and same: "signature a' = signature a" "entities a' = entities a"
    and ok': "archetype_ok r a'"
  shows "heap_inv (s\<lparr>archetypes := (archetypes s)(r \<mapsto> a')\<rparr>)"
proof -
  let ?s' = "s\<lparr>archetypes := (archetypes s)(r \<mapsto> a')\<rparr>"
  from inv have ok: "archetypes_ok s" and ic: "index_complete s" and isd: "index_sound s"
    and lo: "located s" and ml: "members_located s" and rg: "registry_ok s"
    by (simp_all add: heap_inv_def)
  have fw: "\<And>key x. archetypes ?s' key = Some x \<Longrightarrow>
      \<exists>a0. archetypes s key = Some a0 \<and> signature x = signature a0 \<and> entities x = entities a0"
    using a same by (auto split: if_splits)
  have bk: "\<And>key a0. archetypes s key = Some a0 \<Longrightarrow>
      \<exists>x. archetypes ?s' key = Some x \<and> signature x = signature a0 \<and> entities x = entities a0"
    using a same by auto
  have 1: "archetypes_ok ?s'"
    using ok ok' unfolding archetypes_ok_def by simp
  have 2: "index_complete ?s'"
    unfolding index_complete_def
  proof (intro allI impI)
    fix key x cid assume h: "archetypes ?s' key = Some x" "cid \<in> set (signature x)"
    then obtain a0 where "archetypes s key = Some a0" "signature x = signature a0"
      using fw by blast
    then show "cid < componentIdCounter ?s' \<and>
        (\<exists>refs. archetypesByComponentId ?s' cid = Some refs \<and> key \<in> set refs)"
      using ic h unfolding index_complete_def by simp
  qed
  have 3: "index_sound ?s'"
    unfolding index_sound_def
  proof (intro allI impI conjI ballI)
    fix cid refs assume h: "archetypesByComponentId ?s' cid = Some refs"
    then show "distinct refs" using isd unfolding index_sound_def by simp
    fix x assume "x \<in> set refs"
    then obtain a0 where "archetypes s x = Some a0" "cid \<in> set (signature a0)"
      using isd h unfolding index_sound_def by fastforce
    then show "\<exists>a'. archetypes ?s' x = Some a' \<and> cid \<in> set (signature a')"
      using bk by fastforce
  qed
  have 4: "located ?s'"
    unfolding located_def
  proof (intro allI impI)
    fix e' r' assume "entityToArchetype ?s' e' = Some r'"
    then obtain a0 i0 where a0: "archetypes s r' = Some a0" "entityToIndex s e' = Some i0"
      "i0 < length (entities a0)" "entities a0 ! i0 = e'"
      using lo unfolding located_def by fastforce
    then obtain x where "archetypes ?s' r' = Some x" "entities x = entities a0"
      using bk by blast
    then show "\<exists>a' i'. archetypes ?s' r' = Some a' \<and> entityToIndex ?s' e' = Some i' \<and>
        i' < length (entities a') \<and> entities a' ! i' = e'"
      using a0 by auto
  qed
  have 5: "members_located ?s'"
    unfolding members_located_def
  proof (intro allI impI)
    fix key x j assume h: "archetypes ?s' key = Some x" "j < length (entities x)"
    then obtain a0 where "archetypes s key = Some a0" "entities x = entities a0"
      using fw by blast
    then show "entityToArchetype ?s' (entities x ! j) = Some key \<and>
          entityToIndex ?s' (entities x ! j) = Some j"
      using ml h unfolding members_located_def by simp
  qed
  have 6: "registry_ok ?s'" using rg unfolding registry_ok_def by simp
  show ?thesis using 1 2 3 4 5 6 by (simp add: heap_inv_def)
qed

lemma update_member:
  "p \<in> set (AList.update k v al) \<Longrightarrow> p = (k, v) \<or> p \<in> set al"
  by (induction al) (auto split: if_splits)

lemma overwrite_archetype_ok:
  assumes "archetype_ok r a" "map_of (componentArrays a) cid = Some col" "length col' = length col"
  shows "archetype_ok r (a\<lparr>componentArrays := AList.update cid col' (componentArrays a)\<rparr>)"
proof -
  have k: "cid \<in> set (map fst (componentArrays a))"
    using assms(2) by (metis map_of_eq_None_iff option.distinct(1) set_map)
  have l: "length col = length (entities a)"
    using column_of_signature(2) [OF assms(1,2)] .
  have "\<And>c0. c0 \<in> snd ` set (AList.update cid col' (componentArrays a)) \<Longrightarrow>
      length c0 = length (entities a)"
  proof -
    fix c0 assume "c0 \<in> snd ` set (AList.update cid col' (componentArrays a))"
    then obtain p where "p \<in> set (AList.update cid col' (componentArrays a))" "c0 = snd p"
      by auto
    then have "c0 = col' \<or> c0 \<in> snd ` set (componentArrays a)"
      using update_member [of p cid col' "componentArrays a"] by auto
    then show "length c0 = length (entities a)"
      using assms l by (auto simp: archetype_ok_def)
  qed
  then show ?thesis
    using assms(1) k unfolding archetype_ok_def by (simp add: update_keys)
qed

lemma getComponentId_held:
  assumes inv: "heap_inv s" and g: "getComponentId k s = (cid, s0)"
    and a: "archetypes s r = Some a" "cid \<in> set (signature a)"
  shows "s0 = s" "componentClassToId s k = Some cid"
proof -
  have "cid < componentIdCounter s"
    using inv a unfolding heap_inv_def index_complete_def by blast
  then show "s0 = s" "componentClassToId s k = Some cid"
    using g by (auto simp: getComponentId_def Let_def split: option.splits)
qed

lemma addComponent_overwrite:
  assumes inv: "heap_inv s" and g: "getComponentId k s = (cid, s0)"
    and loc: "entityToArchetype s e = Some r"
    and a: "archetypes s r = Some a" "entityToIndex s e = Some i"
    and col: "map_of (componentArrays a) cid = Some col"
  shows "addComponent e k c s =
     Some (s\<lparr>archetypes := (archetypes s)(r \<mapsto>
        a\<lparr>componentArrays := AList.update cid (col[i := c]) (componentArrays a)\<rparr>)\<rparr>)"
    and "heap_inv (s\<lparr>archetypes := (archetypes s)(r \<mapsto>
        a\<lparr>componentArrays := AList.update cid (col[i := c]) (componentArrays a)\<rparr>)\<rparr>)"
    and "i < length col"
proof -
  obtain a' i' where l: "archetypes s r = Some a'" "entityToIndex s e = Some i'"
    "i' < length (entities a')" "entities a' ! i' = e" "archetype_ok r a'"
    using heap_located [OF inv loc] by blast
  then have eq: "a' = a" "i' = i" using a by auto
  have oka: "archetype_ok r a" using l eq by simp
  have cs: "cid \<in> set (signature a)" using column_of_signature(1) [OF oka, of cid] col by simp
  have s0: "s0 = s" using getComponentId_held [OF inv g a(1) cs] by simp
  have len: "length col = length (entities a)" using column_of_signature(2) [OF oka col] .
  then show il: "i < length col" using l eq by simp
  show "addComponent e k c s =
     Some (s\<lparr>archetypes := (archetypes s)(r \<mapsto>
        a\<lparr>componentArrays := AList.update cid (col[i := c]) (componentArrays a)\<rparr>)\<rparr>)"
    unfolding addComponent_def using g s0 loc a col il by (simp add: array_set_def)
  show "heap_inv (s\<lparr>archetypes := (archetypes s)(r \<mapsto>
        a\<lparr>componentArrays := AList.update cid (col[i := c]) (componentArrays a)\<rparr>)\<rparr>)"
    using heap_inv_archetype_update [OF inv a(1)] overwrite_archetype_ok [OF oka col, of "col[i := c]"]
    by simp
qed

lemma row_at_none:
  "map_of (componentArrays a) cid = None \<Longrightarrow> row_at a i cid = None"
  by (simp add: row_at_def)

lemma row_at_some:
  "archetype_ok r a \<Longrightarrow> cid \<in> set (signature a) \<Longrightarrow> row_at a i cid \<noteq> None"
  using column_of_signature(1) [of r a cid] by (simp add: row_at_def)

lemma addComponent_migrate:
  assumes inv: "heap_inv s" and g: "getComponentId k s = (cid, s0)"
    and loc: "entityToArchetype s e = Some r"
    and a: "archetypes s r = Some a" "entityToIndex s e = Some i"
    and nocol: "map_of (componentArrays a) cid = None"
    and s1: "s1 = ensured (extendSignature (signature a) cid) s0"
    and key: "key = createSignature (extendSignature (signature a) cid)"
  obtains b where "archetypes s1 key = Some b" "signature b = extendSignature (signature a) cid"
    "key \<noteq> r" "archetypes s1 r = Some a"
    "addComponent e k c s =
       Some (scheduleQueryCacheInvalidation
         (inserted e key b ((row_at a i)(cid \<mapsto> c)) (detached e r i a s1)))"
    "heap_inv (inserted e key b ((row_at a i)(cid \<mapsto> c)) (detached e r i a s1))"
proof -
  let ?sig = "extendSignature (signature a) cid"
  have inv0: "heap_inv s0" using getComponentId_inv [OF inv g] .
  have fr: "archetypes s0 = archetypes s" "entityToArchetype s0 = entityToArchetype s"
    "entityToIndex s0 = entityToIndex s"
    using getComponentId_frame [OF g] by simp_all
  obtain a' i' where l: "archetypes s r = Some a'" "entityToIndex s e = Some i'"
    "i' < length (entities a')" "entities a' ! i' = e" "archetype_ok r a'"
    using heap_located [OF inv loc] by blast
  then have eq: "a' = a" "i' = i" using a by auto
  have oka: "archetype_ok r a" and il: "i < length (entities a)" and ie: "entities a ! i = e"
    using l eq by simp_all
  have cs: "cid \<notin> set (signature a)" using column_of_signature(1) [OF oka, of cid] nocol by simp
  have reg: "cid < componentIdCounter s0"
    using inv0 getComponentId_frame(8) [OF g] by (auto simp: heap_inv_def registry_ok_def)
  have "\<forall>c \<in> set (signature a). c < componentIdCounter s"
    using inv a unfolding heap_inv_def index_complete_def by blast
  then have regs: "\<forall>c \<in> set ?sig. c < componentIdCounter s0"
    using reg getComponentId_frame(7) [OF g] by (auto simp: extendSignature_props)
  have dist: "distinct ?sig" "sorted ?sig"
    using oka cs by (simp_all add: extendSignature_props archetype_ok_def)
  note en = ensured_inv [OF inv0 dist regs]
  have ge: "getOrCreateArchetype ?sig s0 = Some (key, s1)" using en(1) s1 key by simp
  have inv1: "heap_inv s1" using en(2) s1 by simp
  obtain b where b: "archetypes s1 key = Some b" "signature b = ?sig"
    using en(3) s1 key by auto
  have okb: "archetype_ok key b" using inv1 b by (simp add: heap_inv_def archetypes_ok_def)
  have "?sig \<noteq> signature a" using cs extendSignature_props(3) [of "signature a" cid] by auto
  moreover have "createSignature (signature a) = r" using oka by (simp add: archetype_ok_def)
  ultimately have ne: "key \<noteq> r"
    using createSignature_inj [of ?sig "signature a"] key by auto
  have a1: "archetypes s1 r = Some a" using a fr s1 by (simp add: ensured_old)
  have loc1: "entityToArchetype s1 e = Some r" "entityToIndex s1 e = Some i"
    using loc a fr s1 by simp_all
  have db: "distinct (map fst (componentArrays b))"
    using okb by (simp add: archetype_ok_def)
  have mv: "moveEntity e r key s1 = Some (inserted e key b (row_at a i) (detached e r i a s1))"
    using moveEntity_closed [OF loc1 a1 il ie oka b(1) db ne] .
  let ?s2 = "inserted e key b (row_at a i) (detached e r i a s1)"
  have b2: "archetypes ?s2 key =
      Some (b\<lparr>entities := entities b @ [e], componentArrays := push_row (row_at a i) (componentArrays b)\<rparr>)"
    by simp
  have "cid \<in> set (signature b)" using b by (simp add: extendSignature_props)
  then obtain col0 where col0: "map_of (componentArrays b) cid = Some col0"
    using column_of_signature(1) [OF okb, of cid] by auto
  have len0: "length col0 = length (entities b)" using column_of_signature(2) [OF okb col0] .
  have rn: "row_at a i cid = None" using row_at_none [OF nocol] .
  have mp: "map_of (push_row (row_at a i) (componentArrays b)) cid = Some col0"
    using col0 rn by (simp add: map_of_push_row)
  have up: "AList.update cid (col0 @ [c]) (push_row (row_at a i) (componentArrays b))
      = push_row ((row_at a i)(cid \<mapsto> c)) (componentArrays b)"
    using update_push_row [of "componentArrays b" cid col0 "row_at a i" c] db col0 rn by simp
  have fin: "addComponent e k c s =
       Some (scheduleQueryCacheInvalidation
         (inserted e key b ((row_at a i)(cid \<mapsto> c)) (detached e r i a s1)))"
    unfolding addComponent_def
    using g loc a fr nocol ge mv b2 mp len0 up
    by (cases s1) (simp add: Let_def array_set_def inserted_def detached_def)
  have invd: "heap_inv (detached e r i a s1)"
    using detached_inv [OF inv1 loc1 a1] .
  have bd: "archetypes (detached e r i a s1) key = Some b" using b ne by simp
  have rows: "\<forall>c' \<in> set (signature b). ((row_at a i)(cid \<mapsto> c)) c' \<noteq> None"
    using b row_at_some [OF oka] by (auto simp: extendSignature_props)
  have le: "entityToArchetype (detached e r i a s1) e = None" by simp
  have hi: "heap_inv (inserted e key b ((row_at a i)(cid \<mapsto> c)) (detached e r i a s1))"
    using inserted_inv [OF invd le bd rows] .
  show ?thesis by (rule that [OF b ne a1 fin hi])
qed

lemma removeComponent_none:
  "entityToArchetype s e = None \<Longrightarrow> removeComponent e k s = Some (False, s)"
  by (simp add: removeComponent_def)

lemma removeComponent_absent:
  assumes "entityToArchetype s e = Some r" "archetypes s r = Some a"
    "getComponentId k s = (cid, s0)" "map_of (componentArrays a) cid = None"
  shows "removeComponent e k s = Some (False, s0)"
  using assms by (simp add: removeComponent_def)

lemma removeComponent_last:
  assumes inv: "heap_inv s" and g: "getComponentId k s = (cid, s0)"
    and loc: "entityToArchetype s e = Some r"
    and a: "archetypes s r = Some a" "entityToIndex s e = Some i"
    and col: "map_of (componentArrays a) cid \<noteq> None"
    and emp: "filter (\<lambda>c. c \<noteq> cid) (signature a) = []"
  shows "removeComponent e k s =
     Some (True, scheduleQueryCacheInvalidation
                   (scheduleQueryCacheInvalidation (detached e r i a s)))"
    and "heap_inv (detached e r i a s)"
proof -
  obtain a' i' where l: "archetypes s r = Some a'" "entityToIndex s e = Some i'"
    "i' < length (entities a')" "entities a' ! i' = e" "archetype_ok r a'"
    using heap_located [OF inv loc] by blast
  then have oka: "archetype_ok r a" using a by auto
  have cs: "cid \<in> set (signature a)" using column_of_signature(1) [OF oka, of cid] col by simp
  have s0: "s0 = s" using getComponentId_held [OF inv g a(1) cs] by simp
  note ra = removeAll_some [OF inv loc a]
  show "heap_inv (detached e r i a s)" using ra(2) .
  show "removeComponent e k s =
     Some (True, scheduleQueryCacheInvalidation
                   (scheduleQueryCacheInvalidation (detached e r i a s)))"
    unfolding removeComponent_def using g s0 loc a col emp ra(1) by (auto simp: Let_def)
qed

lemma removeComponent_migrate:
  assumes inv: "heap_inv s" and g: "getComponentId k s = (cid, s0)"
    and loc: "entityToArchetype s e = Some r"
    and a: "archetypes s r = Some a" "entityToIndex s e = Some i"
    and col: "map_of (componentArrays a) cid \<noteq> None"
    and nemp: "filter (\<lambda>c. c \<noteq> cid) (signature a) \<noteq> []"
    and s1: "s1 = ensured (filter (\<lambda>c. c \<noteq> cid) (signature a)) s"
    and key: "key = createSignature (filter (\<lambda>c. c \<noteq> cid) (signature a))"
  obtains b where "archetypes s1 key = Some b"
    "signature b = filter (\<lambda>c. c \<noteq> cid) (signature a)"
    "key \<noteq> r" "archetypes s1 r = Some a" "s0 = s"
    "removeComponent e k s =
       Some (True, scheduleQueryCacheInvalidation
         (inserted e key b (row_at a i) (detached e r i a s1)))"
    "heap_inv (inserted e key b (row_at a i) (detached e r i a s1))"
proof -
  let ?sig = "filter (\<lambda>c. c \<noteq> cid) (signature a)"
  obtain a' i' where l: "archetypes s r = Some a'" "entityToIndex s e = Some i'"
    "i' < length (entities a')" "entities a' ! i' = e" "archetype_ok r a'"
    using heap_located [OF inv loc] by blast
  then have eq: "a' = a" "i' = i" using a by auto
  have oka: "archetype_ok r a" and il: "i < length (entities a)" and ie: "entities a ! i = e"
    using l eq by simp_all
  have cs: "cid \<in> set (signature a)" using column_of_signature(1) [OF oka, of cid] col by simp
  have s0: "s0 = s" using getComponentId_held [OF inv g a(1) cs] by simp
  have "\<forall>c \<in> set (signature a). c < componentIdCounter s"
    using inv a unfolding heap_inv_def index_complete_def by blast
  then have regs: "\<forall>c \<in> set ?sig. c < componentIdCounter s" by simp
  have dist: "distinct ?sig" "sorted ?sig"
    using oka by (simp_all add: archetype_ok_def sorted_wrt_filter)
  note en = ensured_inv [OF inv dist regs]
  have ge: "getOrCreateArchetype ?sig s = Some (key, s1)" using en(1) s1 key by simp
  have inv1: "heap_inv s1" using en(2) s1 by simp
  obtain b where b: "archetypes s1 key = Some b" "signature b = ?sig"
    using en(3) s1 key by auto
  have okb: "archetype_ok key b" using inv1 b by (simp add: heap_inv_def archetypes_ok_def)
  have "cid \<notin> set ?sig" by simp
  then have "?sig \<noteq> signature a" using cs by metis
  moreover have "createSignature (signature a) = r" using oka by (simp add: archetype_ok_def)
  ultimately have ne: "key \<noteq> r"
    using createSignature_inj [of ?sig "signature a"] key by auto
  have a1: "archetypes s1 r = Some a" using a s1 by (simp add: ensured_old)
  have loc1: "entityToArchetype s1 e = Some r" "entityToIndex s1 e = Some i"
    using loc a s1 by simp_all
  have db: "distinct (map fst (componentArrays b))"
    using okb by (simp add: archetype_ok_def)
  have mv: "moveEntity e r key s1 = Some (inserted e key b (row_at a i) (detached e r i a s1))"
    using moveEntity_closed [OF loc1 a1 il ie oka b(1) db ne] .
  have fin: "removeComponent e k s =
       Some (True, scheduleQueryCacheInvalidation
         (inserted e key b (row_at a i) (detached e r i a s1)))"
    unfolding removeComponent_def
    using g s0 loc a col nemp ge mv by (auto simp: Let_def)
  have invd: "heap_inv (detached e r i a s1)"
    using detached_inv [OF inv1 loc1 a1] .
  have bd: "archetypes (detached e r i a s1) key = Some b" using b ne by simp
  have rows: "\<forall>c' \<in> set (signature b). row_at a i c' \<noteq> None"
    using b row_at_some [OF oka] by auto
  have le: "entityToArchetype (detached e r i a s1) e = None" by simp
  have hi: "heap_inv (inserted e key b (row_at a i) (detached e r i a s1))"
    using inserted_inv [OF invd le bd rows] .
  show ?thesis by (rule that [OF b ne a1 s0 fin hi])
qed

section \<open>Queries\<close>

lemma getComponentIds_inv:
  assumes "heap_inv s" "getComponentIds ks s = (ids, s1)"
  shows "heap_inv s1 \<and> archetypes s1 = archetypes s \<and> entityToArchetype s1 = entityToArchetype s \<and>
    entityToIndex s1 = entityToIndex s \<and> queryCache s1 = queryCache s \<and>
    batchInvalidation s1 = batchInvalidation s \<and>
    pendingCacheInvalidation s1 = pendingCacheInvalidation s \<and>
    componentIdCounter s \<le> componentIdCounter s1 \<and>
    (\<forall>cid \<in> set ids. cid < componentIdCounter s1) \<and>
    length ids = length ks"
  using assms
proof (induction ks arbitrary: s ids s1)
  case Nil
  then show ?case by auto
next
  case (Cons k ks)
  obtain cid s0 where g: "getComponentId k s = (cid, s0)" by (cases "getComponentId k s")
  obtain ids' s' where r: "getComponentIds ks s0 = (ids', s')" by (cases "getComponentIds ks s0")
  have inv0: "heap_inv s0" using getComponentId_inv [OF Cons.prems(1) g] .
  have eq: "ids = cid # ids'" "s1 = s'" using Cons.prems(2) g r by simp_all
  note f = getComponentId_frame [OF g]
  note ih = Cons.IH [OF inv0 r]
  have c0: "cid < componentIdCounter s0"
    using inv0 f(8) by (auto simp: heap_inv_def registry_ok_def)
  then have "cid < componentIdCounter s'" using ih by simp
  then show ?case using ih f eq by simp
qed

lemma collectEntities_total:
  assumes "\<forall>r \<in> set refs. heap r \<noteq> None"
  shows "collectEntities heap refs = Some (concat (map (\<lambda>r. entities (the (heap r))) refs))"
  using assms by (induction refs) auto

lemma scanCandidates_total:
  assumes "\<forall>r \<in> set refs. heap r \<noteq> None"
  shows "\<exists>res. scanCandidates heap sig refs acc = Some res"
  using assms
proof (induction refs arbitrary: acc)
  case Nil
  then show ?case by simp
next
  case (Cons r refs)
  obtain ents archs where acc: "acc = (ents, archs)" by (cases acc)
  obtain a where a: "heap r = Some a" using Cons.prems by auto
  show ?case using Cons.IH Cons.prems a unfolding acc by simp
qed

lemma index_derefs:
  assumes "heap_inv s" "archetypesByComponentId s cid = Some refs"
  shows "\<forall>r \<in> set refs. archetypes s r \<noteq> None"
  using assms unfolding heap_inv_def index_sound_def by fastforce

lemma updateQueryCache_total:
  assumes "heap_inv s"
  shows "\<exists>c'. updateQueryCacheOptimized c s = Some c'"
proof (cases "case cache_signature c of [] \<Rightarrow> None | f # _ \<Rightarrow> archetypesByComponentId s f")
  case None
  then show ?thesis by (simp add: updateQueryCacheOptimized_def)
next
  case (Some refs)
  then have "archetypesByComponentId s (hd (cache_signature c)) = Some refs"
    by (cases "cache_signature c") auto
  then have "\<forall>r \<in> set refs. archetypes s r \<noteq> None"
    using index_derefs [OF assms] by blast
  then obtain res where "scanCandidates (archetypes s) (cache_signature c) refs ([], []) = Some res"
    using scanCandidates_total by blast
  then show ?thesis using Some by (cases res) (simp add: updateQueryCacheOptimized_def)
qed

lemma update_arrayCounter [simp]:
  "updateQueryCacheOptimized c (s\<lparr>arrayCounter := n\<rparr>) = updateQueryCacheOptimized c s"
  by (simp add: updateQueryCacheOptimized_def split: option.splits list.splits)

lemma getEntitiesWithComponents_total:
  assumes "heap_inv s"
  shows "\<exists>res s'. getEntitiesWithComponents ks s = Some (res, s') \<and> heap_inv s'"
proof (cases "ks = []")
  case True
  then show ?thesis using assms by (simp add: getEntitiesWithComponents_def)
next
  case False
  obtain ids s1 where g: "getComponentIds ks s = (ids, s1)" by (cases "getComponentIds ks s")
  have inv1: "heap_inv s1" using getComponentIds_inv [OF assms g] by simp
  have tot: "\<And>c. \<exists>c'. updateQueryCacheOptimized c s1 = Some c'"
    using updateQueryCache_total [OF inv1] by blast
  show ?thesis
  proof (cases "queryCache s1 (createSignature (querySignature ids))")
    case None
    obtain c' where "updateQueryCacheOptimized
        \<lparr>cache_signature = querySignature ids, cache_entities = [],
         cache_entities_addr = arrayCounter s1, cache_archetypes = [], needsUpdate = True\<rparr> s1
        = Some c'"
      using tot by blast
    then show ?thesis
      using False g inv1 None by (simp add: getEntitiesWithComponents_def Let_def)
  next
    case (Some c)
    obtain c' where "updateQueryCacheOptimized c s1 = Some c'" using tot by blast
    then show ?thesis
      using False g inv1 Some by (simp add: getEntitiesWithComponents_def Let_def)
  qed
qed

lemma getEntitiesWithComponent_total:
  assumes "heap_inv s"
  shows "\<exists>res s'. getEntitiesWithComponent k s = Some (res, s') \<and> heap_inv s'"
proof -
  obtain cid s1 where g: "getComponentId k s = (cid, s1)" by (cases "getComponentId k s")
  have inv1: "heap_inv s1" using getComponentId_inv [OF assms g] .
  show ?thesis
  proof (cases "archetypesByComponentId s1 cid")
    case None
    then show ?thesis using g inv1 by (simp add: getEntitiesWithComponent_def)
  next
    case (Some refs)
    then have "\<forall>r \<in> set refs. archetypes s1 r \<noteq> None"
      using index_derefs [OF inv1] by blast
    then show ?thesis
      using g inv1 Some collectEntities_total [of refs "archetypes s1"]
      by (simp add: getEntitiesWithComponent_def)
  qed
qed

section \<open>Every operation runs and keeps the invariant\<close>

lemma getComponent_closed:
  assumes inv: "heap_inv s"
  shows "\<exists>s'. getComponent e k s = Some (component_at s e (fst (getComponentId k s)), s') \<and>
           (s' = s \<or> s' = snd (getComponentId k s))"
proof (cases "entityToArchetype s e")
  case None
  then show ?thesis by (simp add: getComponent_def component_at_def)
next
  case (Some r)
  obtain a i where l: "archetypes s r = Some a" "entityToIndex s e = Some i"
    using heap_located [OF inv Some] by blast
  obtain cid s0 where g: "getComponentId k s = (cid, s0)" by (cases "getComponentId k s")
  show ?thesis
    using Some l g getComponentId_frame(3) [OF g]
    by (auto simp: getComponent_def component_at_def split: option.splits)
qed

lemma hasComponent_closed:
  assumes inv: "heap_inv s"
  shows "\<exists>s'. hasComponent e k s = Some (component_at s e (fst (getComponentId k s)) \<noteq> None, s') \<and>
           (s' = s \<or> s' = snd (getComponentId k s))"
proof (cases "entityToArchetype s e")
  case None
  then show ?thesis by (simp add: hasComponent_def component_at_def)
next
  case (Some r)
  obtain a i where l: "archetypes s r = Some a" "entityToIndex s e = Some i"
    "i < length (entities a)" "archetype_ok r a"
    using heap_located [OF inv Some] by blast
  obtain cid s0 where g: "getComponentId k s = (cid, s0)" by (cases "getComponentId k s")
  have "\<And>col. map_of (componentArrays a) cid = Some col \<Longrightarrow> array_get col i \<noteq> None"
    using column_of_signature(2) [OF l(4)] l(3) by (simp add: array_get_def)
  then show ?thesis
    using Some l g
    by (auto simp: hasComponent_def component_at_def split: option.splits)
qed

lemma addComponent_total:
  assumes inv: "heap_inv s"
  shows "\<exists>s'. addComponent e k c s = Some s' \<and> heap_inv s'"
proof -
  obtain cid s0 where g: "getComponentId k s = (cid, s0)" by (cases "getComponentId k s")
  show ?thesis
  proof (cases "entityToArchetype s e")
    case None
    show ?thesis
      using addComponent_first [OF inv g None refl, where c = c] by (metis heap_inv_schedule)
  next
    case (Some r)
    obtain a i where l: "archetypes s r = Some a" "entityToIndex s e = Some i"
      using heap_located [OF inv Some] by blast
    show ?thesis
    proof (cases "map_of (componentArrays a) cid")
      case None
      show ?thesis
        using addComponent_migrate [OF inv g Some l None refl refl, where c = c]
        by (metis heap_inv_schedule)
    next
      case col: (Some col)
      show ?thesis
        using addComponent_overwrite(1,2) [OF inv g Some l col, where c = c] by blast
    qed
  qed
qed

lemma removeAllComponents_total:
  assumes inv: "heap_inv s"
  shows "\<exists>s'. removeAllComponents e s = Some s' \<and> heap_inv s'"
proof (cases "entityToArchetype s e")
  case None
  then show ?thesis using inv by (simp add: removeAll_none)
next
  case (Some r)
  obtain a i where l: "archetypes s r = Some a" "entityToIndex s e = Some i"
    using heap_located [OF inv Some] by blast
  show ?thesis using removeAll_some [OF inv Some l] by simp
qed

lemma removeComponent_total:
  assumes inv: "heap_inv s"
  shows "\<exists>res s'. removeComponent e k s = Some (res, s') \<and> heap_inv s'"
proof (cases "entityToArchetype s e")
  case None
  then show ?thesis using inv removeComponent_none [of s e k] by blast
next
  case (Some r)
  obtain a i where l: "archetypes s r = Some a" "entityToIndex s e = Some i"
    using heap_located [OF inv Some] by blast
  obtain cid s0 where g: "getComponentId k s = (cid, s0)" by (cases "getComponentId k s")
  have inv0: "heap_inv s0" using getComponentId_inv [OF inv g] .
  show ?thesis
  proof (cases "map_of (componentArrays a) cid")
    case None
    then show ?thesis using removeComponent_absent [OF Some l(1) g] inv0 by blast
  next
    case col: (Some col)
    then have c: "map_of (componentArrays a) cid \<noteq> None" by simp
    show ?thesis
    proof (cases "filter (\<lambda>c. c \<noteq> cid) (signature a) = []")
      case True
      show ?thesis using removeComponent_last [OF inv g Some l c True] by (metis heap_inv_schedule)
    next
      case False
      show ?thesis
        using removeComponent_migrate [OF inv g Some l c False refl refl]
        by (metis heap_inv_schedule)
    qed
  qed
qed

lemma endBatch_heap_inv [simp]: "heap_inv (endBatch s) = heap_inv s"
  by (simp add: endBatch_def Let_def invalidateQueryCaches_def)

lemma step_heap_inv:
  assumes "heap_inv s"
  shows "\<exists>s'. step x s = Some s' \<and> heap_inv s'"
proof (cases x)
  case (AddComponent e k c)
  then show ?thesis using addComponent_total [OF assms] by simp
next
  case (GetComponent e k)
  obtain cid s0 where g: "getComponentId k s = (cid, s0)" by (cases "getComponentId k s")
  have "heap_inv s0" using getComponentId_inv [OF assms g] .
  then show ?thesis using GetComponent getComponent_closed [OF assms, of e k] g assms by auto
next
  case (HasComponent e k)
  obtain cid s0 where g: "getComponentId k s = (cid, s0)" by (cases "getComponentId k s")
  have "heap_inv s0" using getComponentId_inv [OF assms g] .
  then show ?thesis using HasComponent hasComponent_closed [OF assms, of e k] g assms by auto
next
  case (RemoveComponent e k)
  then show ?thesis using removeComponent_total [OF assms, of e k] by auto
next
  case (RemoveAllComponents e)
  then show ?thesis using removeAllComponents_total [OF assms] by simp
next
  case (GetEntitiesWithComponent k)
  then show ?thesis using getEntitiesWithComponent_total [OF assms, of k] by auto
next
  case (GetEntitiesWithComponents ks)
  then show ?thesis using getEntitiesWithComponents_total [OF assms, of ks] by auto
next
  case StartBatch
  then show ?thesis using assms by (simp add: startBatch_def)
next
  case EndBatch
  then show ?thesis using assms by simp
next
  case ClearQueryCache
  then show ?thesis using assms by (simp add: clearQueryCache_def)
qed

lemma heap_inv_new: "heap_inv newComponentManager"
  by (simp add: heap_inv_def archetypes_ok_def index_complete_def index_sound_def located_def
      members_located_def registry_ok_def newComponentManager_def)

lemma run_append: "run (xs @ ys) s = (case run xs s of None \<Rightarrow> None | Some s' \<Rightarrow> run ys s')"
  by (induction xs arbitrary: s) (auto split: option.splits)

lemma run_heap_inv:
  assumes "heap_inv s"
  shows "\<exists>s'. run xs s = Some s' \<and> heap_inv s'"
  using assms
proof (induction xs arbitrary: s)
  case Nil
  then show ?case by simp
next
  case (Cons x xs)
  obtain s1 where "step x s = Some s1" "heap_inv s1" using step_heap_inv [OF Cons.prems] by blast
  then show ?case using Cons.IH by simp
qed

lemma reachable_heap_inv:
  assumes "reachable s"
  shows "heap_inv s"
proof -
  obtain xs where r: "run xs newComponentManager = Some s"
    using assms unfolding reachable_def by blast
  obtain s' where "run xs newComponentManager = Some s'" "heap_inv s'"
    using run_heap_inv [OF heap_inv_new] by blast
  then show ?thesis using r by simp
qed

section \<open>Component values across the operations\<close>

lemma component_at_cong:
  assumes "entityToArchetype s' e = entityToArchetype s e"
    and "\<And>r. entityToArchetype s e = Some r \<Longrightarrow> archetypes s' r = archetypes s r"
    and "entityToIndex s' e = entityToIndex s e"
  shows "component_at s' e cid = component_at s e cid"
  using assms by (auto simp: component_at_def split: option.splits)

lemma component_at_schedule [simp]:
  "component_at (scheduleQueryCacheInvalidation s) e cid = component_at s e cid"
  by (rule component_at_cong) simp_all

lemma signature_of_schedule [simp]:
  "signature_of (scheduleQueryCacheInvalidation s) e = signature_of s e"
  by (simp add: signature_of_def split: option.splits)

lemma component_at_eq:
  assumes "entityToArchetype s e = Some r" "archetypes s r = Some a" "entityToIndex s e = Some i"
  shows "component_at s e cid =
     (case map_of (componentArrays a) cid of None \<Rightarrow> None | Some col \<Rightarrow> array_get col i)"
  using assms by (simp add: component_at_def split: option.splits)

lemma component_at_located:
  assumes "entityToArchetype s e = Some r" "archetypes s r = Some a" "entityToIndex s e = Some i"
    "i < length (entities a)" "archetype_ok r a"
  shows "component_at s e cid = row_at a i cid"
proof (cases "map_of (componentArrays a) cid")
  case None
  then show ?thesis using assms by (simp add: component_at_def row_at_def)
next
  case (Some col)
  then have "length col = length (entities a)" using column_of_signature(2) [OF assms(5)] by simp
  then show ?thesis using assms Some by (simp add: component_at_def row_at_def array_get_def)
qed

lemma component_at_inserted_self:
  assumes "archetype_ok key b" "cid \<in> set (signature b)" "row cid = Some v"
  shows "component_at (inserted e key b row s) e cid = Some v"
proof -
  obtain col where col: "map_of (componentArrays b) cid = Some col"
    using column_of_signature(1) [OF assms(1), of cid] assms(2) by auto
  then have "length col = length (entities b)" using column_of_signature(2) [OF assms(1)] by simp
  then have "array_get (col @ [v]) (length (entities b)) = Some v"
    by (simp add: array_get_def nth_append)
  moreover have "component_at (inserted e key b row s) e cid =
     (case map_of (push_row row (componentArrays b)) cid of None \<Rightarrow> None
      | Some c \<Rightarrow> array_get c (length (entities b)))"
    using component_at_eq [of "inserted e key b row s" e key
        "b\<lparr>entities := entities b @ [e], componentArrays := push_row row (componentArrays b)\<rparr>"
        "length (entities b)" cid]
    by simp
  ultimately show ?thesis
    using col assms(3) by (simp add: map_of_push_row)
qed

lemma component_at_inserted_other:
  assumes inv: "heap_inv s" and b: "archetypes s key = Some b" and ne: "e' \<noteq> e"
  shows "component_at (inserted e key b row s) e' cid = component_at s e' cid"
proof (cases "entityToArchetype s e'")
  case None
  then show ?thesis using ne by (simp add: component_at_def)
next
  case (Some r)
  obtain a i where l: "archetypes s r = Some a" "entityToIndex s e' = Some i"
    "i < length (entities a)" "entities a ! i = e'" "archetype_ok r a"
    using heap_located [OF inv Some] by blast
  show ?thesis
  proof (cases "r = key")
    case False
    show ?thesis
      by (rule component_at_cong) (use Some ne False in simp_all)
  next
    case True
    then have ab: "a = b" using l b by simp
    have new: "component_at (inserted e key b row s) e' cid =
       (case map_of (push_row row (componentArrays b)) cid of None \<Rightarrow> None
        | Some c \<Rightarrow> array_get c i)"
      using component_at_eq [of "inserted e key b row s" e' key
        "b\<lparr>entities := entities b @ [e], componentArrays := push_row row (componentArrays b)\<rparr>"
        i cid] Some True ne l
      by simp
    have old: "component_at s e' cid =
       (case map_of (componentArrays b) cid of None \<Rightarrow> None | Some c \<Rightarrow> array_get c i)"
      using component_at_eq [of s e' key b i cid] Some True l ab by simp
    show ?thesis
    proof (cases "map_of (componentArrays b) cid")
      case None
      then show ?thesis using new old by (simp add: map_of_push_row)
    next
      case col: (Some col)
      then have "length col = length (entities b)"
        using column_of_signature(2) [of key b] l ab True by simp
      then have "i < length col" using l ab by simp
      then show ?thesis
        using new old col
        by (auto simp: map_of_push_row array_get_def nth_append split: option.splits)
    qed
  qed
qed

lemma map_of_columns:
  "map_of (map (\<lambda>(cid, col). (cid, f col)) cols) cid = map_option f (map_of cols cid)"
  by (induction cols) auto

lemma component_at_detached_other:
  assumes inv: "heap_inv s"
    and loc: "entityToArchetype s e = Some r" "entityToIndex s e = Some i"
    and a: "archetypes s r = Some a" and ne: "e' \<noteq> e"
  shows "component_at (detached e r i a s) e' cid = component_at s e' cid"
proof (cases "entityToArchetype s e'")
  case None
  then show ?thesis using ne by (simp add: component_at_def)
next
  case (Some r')
  let ?n = "length (entities a)"
  from inv have lo: "located s" and ml: "members_located s" by (simp_all add: heap_inv_def)
  have i: "i < ?n" "entities a ! i = e" using located_unique [OF lo loc a] by auto
  have dist: "distinct (entities a)" using members_distinct [OF ml a] .
  have nemp: "entities a \<noteq> []" using i by auto
  have lastn: "last (entities a) = entities a ! (?n - 1)" using nemp by (simp add: last_conv_nth)
  have lastloc: "entityToArchetype s (last (entities a)) = Some r"
    "entityToIndex s (last (entities a)) = Some (?n - 1)"
    using ml a nemp unfolding members_located_def lastn by auto
  obtain a' j where l: "archetypes s r' = Some a'" "entityToIndex s e' = Some j"
    "j < length (entities a')" "entities a' ! j = e'" "archetype_ok r' a'"
    using heap_located [OF inv Some] by blast
  show ?thesis
  proof (cases "r' = r")
    case False
    then have "e' \<noteq> last (entities a)" using lastloc Some by auto
    then show ?thesis
      by (intro component_at_cong) (use Some ne False in simp_all)
  next
    case True
    then have aa: "a' = a" using l a by simp
    have ji: "j \<noteq> i" using l i ne aa by auto
    let ?a' = "a\<lparr>entities := swap_remove i (entities a),
            componentArrays := map (\<lambda>(cid, col). (cid, swap_remove i col)) (componentArrays a)\<rparr>"
    have old: "component_at s e' cid =
       (case map_of (componentArrays a) cid of None \<Rightarrow> None | Some c \<Rightarrow> array_get c j)"
      using component_at_eq [of s e' r a j cid] Some True l aa by simp
    show ?thesis
    proof (cases "j = ?n - 1")
      case t: True
      then have el: "e' = last (entities a)" using l aa lastn by simp
      have ilt: "i < ?n - 1" using i ji t by simp
      have new: "component_at (detached e r i a s) e' cid =
         (case map_of (map (\<lambda>(cid, col). (cid, swap_remove i col)) (componentArrays a)) cid of
            None \<Rightarrow> None | Some c \<Rightarrow> array_get c i)"
        using component_at_eq [of "detached e r i a s" e' r ?a' i cid] Some True ne el by simp
      show ?thesis
      proof (cases "map_of (componentArrays a) cid")
        case None
        then show ?thesis using new old by (simp add: map_of_columns)
      next
        case col: (Some col)
        have len: "length col = ?n" using column_of_signature(2) [of r a] l aa True col by simp
        have "col \<noteq> []" using len nemp by auto
        then have lc: "last col = col ! (?n - 1)" using len by (simp add: last_conv_nth)
        have "array_get (swap_remove i col) i = array_get col j"
          using len lc t ilt by (simp add: array_get_def swap_remove_length swap_remove_nth)
        then show ?thesis using new old col by (simp add: map_of_columns)
      qed
    next
      case f: False
      then have lt: "j < ?n - 1" using l aa by simp
      have nl: "e' \<noteq> last (entities a)"
        using dist l aa f lastn nemp
        by (metis diff_less length_greater_0_conv less_one nth_eq_iff_index_eq)
      have new: "component_at (detached e r i a s) e' cid =
         (case map_of (map (\<lambda>(cid, col). (cid, swap_remove i col)) (componentArrays a)) cid of
            None \<Rightarrow> None | Some c \<Rightarrow> array_get c j)"
        using component_at_eq [of "detached e r i a s" e' r ?a' j cid] Some True ne nl l by simp
      show ?thesis
      proof (cases "map_of (componentArrays a) cid")
        case None
        then show ?thesis using new old by (simp add: map_of_columns)
      next
        case col: (Some col)
        have len: "length col = ?n" using column_of_signature(2) [of r a] l aa True col by simp
        have "array_get (swap_remove i col) j = array_get col j"
          using len lt ji by (simp add: array_get_def swap_remove_length swap_remove_nth)
        then show ?thesis using new old col by (simp add: map_of_columns)
      qed
    qed
  qed
qed

lemma component_at_ensured:
  assumes inv: "heap_inv s"
  shows "component_at (ensured ids s) e cid = component_at s e cid"
proof (cases "entityToArchetype s e")
  case None
  then show ?thesis by (simp add: component_at_def)
next
  case (Some r)
  obtain a i where l: "archetypes s r = Some a"
    using heap_located [OF inv Some] by blast
  show ?thesis
    by (rule component_at_cong) (use Some ensured_old [OF l, of ids] l in simp_all)
qed

lemma component_at_getComponentId:
  assumes "getComponentId k s = (cid, s0)"
  shows "component_at s0 e c = component_at s e c"
  by (rule component_at_cong) (use getComponentId_frame [OF assms] in simp_all)

lemma getComponent_registered:
  assumes inv: "heap_inv s" and reg: "componentClassToId s k = Some cid"
  shows "\<exists>s'. getComponent e k s = Some (component_at s e cid, s')"
  using getComponent_closed [OF inv, of e k] getComponentId_registered [OF reg] by auto

lemma component_at_inserted_row:
  assumes ok: "archetype_ok key b" and rows: "\<forall>c \<in> set (signature b). row c \<noteq> None"
  shows "component_at (inserted e key b row s) e cid =
     (if cid \<in> set (signature b) then row cid else None)"
proof (cases "cid \<in> set (signature b)")
  case True
  then obtain v where "row cid = Some v" using rows by auto
  then show ?thesis using component_at_inserted_self [OF ok True] True by simp
next
  case False
  then have "map_of (componentArrays b) cid = None"
    using column_of_signature(1) [OF ok, of cid] by simp
  moreover have "component_at (inserted e key b row s) e cid =
     (case map_of (push_row row (componentArrays b)) cid of None \<Rightarrow> None
      | Some c \<Rightarrow> array_get c (length (entities b)))"
    using component_at_eq [of "inserted e key b row s" e key
        "b\<lparr>entities := entities b @ [e], componentArrays := push_row row (componentArrays b)\<rparr>"
        "length (entities b)" cid]
    by simp
  ultimately show ?thesis using False by (simp add: map_of_push_row)
qed

lemma signature_of_inserted [simp]:
  "signature_of (inserted e key b row s) e = Some (signature b)"
  by (simp add: signature_of_def)

lemma component_at_none_unlocated:
  "entityToArchetype s e = None \<Longrightarrow> component_at s e cid = None"
  by (simp add: component_at_def)

lemma map_of_update_other:
  "c \<noteq> cid \<Longrightarrow> map_of (AList.update cid v al) c = map_of al c"
  by (simp add: update_conv')

lemma map_of_update_same: "map_of (AList.update cid v al) cid = Some v"
  by (simp add: update_conv')

text \<open>What \<open>addComponent\<close> does to the values that \<open>getComponent\<close> reads.\<close>

lemma addComponent_effect:
  assumes inv: "heap_inv s" and g: "getComponentId k s = (cid, s0)"
  shows "\<exists>s'. addComponent e k v s = Some s' \<and> heap_inv s' \<and>
     componentClassToId s' k = Some cid \<and>
     (\<forall>k' c. componentClassToId s k' = Some c \<longrightarrow> componentClassToId s' k' = Some c) \<and>
     component_at s' e cid = Some v \<and>
     (\<forall>c. c \<noteq> cid \<longrightarrow> component_at s' e c = component_at s e c) \<and>
     (\<forall>e' c. e' \<noteq> e \<longrightarrow> component_at s' e' c = component_at s e' c) \<and>
     signature_of s' e =
       (if component_at s e cid = None
        then Some (extendSignature (case signature_of s e of None \<Rightarrow> [] | Some sig \<Rightarrow> sig) cid)
        else signature_of s e)"
proof -
  have inv0: "heap_inv s0" using getComponentId_inv [OF inv g] .
  have reg0: "componentClassToId s0 k = Some cid" using getComponentId_frame(8) [OF g] .
  have rg: "registry_ok s" using inv by (simp add: heap_inv_def)
  have keep: "\<And>k' c. componentClassToId s k' = Some c \<Longrightarrow> componentClassToId s0 k' = Some c"
    using getComponentId_keeps(1) [OF g rg] by blast
  have c0: "\<And>e' c. component_at s0 e' c = component_at s e' c"
    using component_at_getComponentId [OF g] by blast
  show ?thesis
  proof (cases "entityToArchetype s e")
    case None
    let ?key = "createSignature [cid]"
    let ?s1 = "ensured [cid] s0"
    obtain b where b: "archetypes ?s1 ?key = Some b" "signature b = [cid]"
      and add: "addComponent e k v s =
         Some (scheduleQueryCacheInvalidation (inserted e ?key b [cid \<mapsto> v] ?s1))"
      and hi: "heap_inv (inserted e ?key b [cid \<mapsto> v] ?s1)"
      using addComponent_first [OF inv g None refl, where c = v] by blast
    let ?s' = "scheduleQueryCacheInvalidation (inserted e ?key b [cid \<mapsto> v] ?s1)"
    have inv1: "heap_inv ?s1"
      using ensured_inv(2) [OF inv0, of "[cid]"] inv0 reg0
      by (auto simp: heap_inv_def registry_ok_def)
    have okb: "archetype_ok ?key b" using inv1 b by (simp add: heap_inv_def archetypes_ok_def)
    have self: "\<And>c. component_at ?s' e c = (if c = cid then Some v else None)"
      using component_at_inserted_row [OF okb, of "[cid \<mapsto> v]" e ?s1] b by simp
    have other: "\<And>e' c. e' \<noteq> e \<Longrightarrow> component_at ?s' e' c = component_at s e' c"
      using component_at_inserted_other [OF inv1 b(1)] component_at_ensured [OF inv0] c0 by simp
    have none: "\<And>c. component_at s e c = None" using None by (simp add: component_at_none_unlocated)
    have sg: "signature_of s e = None" using None by (simp add: signature_of_def)
    have ext: "extendSignature [] cid = [cid]" by (simp add: extendSignature_def array_sort_def)
    show ?thesis
      using add hi reg0 keep self other none sg ext b by (intro exI [of _ ?s']) simp
  next
    case (Some r)
    obtain a i where l: "archetypes s r = Some a" "entityToIndex s e = Some i"
      "i < length (entities a)" "entities a ! i = e" "archetype_ok r a"
      using heap_located [OF inv Some] by blast
    have sg: "signature_of s e = Some (signature a)" using Some l by (simp add: signature_of_def)
    have cur: "\<And>c. component_at s e c = row_at a i c"
      using component_at_located [OF Some l(1,2,3,5)] by blast
    show ?thesis
    proof (cases "map_of (componentArrays a) cid")
      case col: (Some col)
      let ?a' = "a\<lparr>componentArrays := AList.update cid (col[i := v]) (componentArrays a)\<rparr>"
      let ?s' = "s\<lparr>archetypes := (archetypes s)(r \<mapsto> ?a')\<rparr>"
      note ow = addComponent_overwrite(1,2) [OF inv g Some l(1,2) col, where c = v]
      note ow3 = addComponent_overwrite(3) [OF inv g Some l(1,2) col]
      have cs: "cid \<in> set (signature a)" using column_of_signature(1) [OF l(5), of cid] col by simp
      have reg: "componentClassToId s k = Some cid"
        using getComponentId_held [OF inv g l(1) cs] by simp
      have self: "\<And>c. component_at ?s' e c =
          (case map_of (AList.update cid (col[i := v]) (componentArrays a)) c of
             None \<Rightarrow> None | Some x \<Rightarrow> array_get x i)"
        using component_at_eq [of ?s' e r ?a' i] Some l by simp
      have olds: "\<And>c. component_at s e c =
          (case map_of (componentArrays a) c of None \<Rightarrow> None | Some x \<Rightarrow> array_get x i)"
        using component_at_eq [of s e r a i] Some l by simp
      have 1: "component_at ?s' e cid = Some v"
        using self [of cid] ow3 by (simp add: map_of_update_same array_get_def)
      have 2: "\<And>c. c \<noteq> cid \<Longrightarrow> component_at ?s' e c = component_at s e c"
        using self olds by (simp add: map_of_update_other)
      have 3: "\<And>e' c. e' \<noteq> e \<Longrightarrow> component_at ?s' e' c = component_at s e' c"
      proof -
        fix e' c assume ne: "e' \<noteq> e"
        show "component_at ?s' e' c = component_at s e' c"
        proof (cases "entityToArchetype s e' = Some r")
          case False
          show ?thesis by (rule component_at_cong) (use False in auto)
        next
          case True
          obtain a2 j where l2: "archetypes s r = Some a2" "entityToIndex s e' = Some j"
            "j < length (entities a2)" "entities a2 ! j = e'"
            using heap_located [OF inv True] by blast
          then have "a2 = a" using l by simp
          then have ji: "j \<noteq> i" using l l2 ne by auto
          have n: "component_at ?s' e' c =
            (case map_of (AList.update cid (col[i := v]) (componentArrays a)) c of
               None \<Rightarrow> None | Some x \<Rightarrow> array_get x j)"
            using component_at_eq [of ?s' e' r ?a' j] True l2 by simp
          have o: "component_at s e' c =
            (case map_of (componentArrays a) c of None \<Rightarrow> None | Some x \<Rightarrow> array_get x j)"
            using component_at_eq [of s e' r a j] True l l2 by simp
          show ?thesis
          proof (cases "c = cid")
            case True
            then show ?thesis using n o col ji by (simp add: map_of_update_same array_get_def)
          next
            case False
            then show ?thesis using n o by (simp add: map_of_update_other)
          qed
        qed
      qed
      have nn: "component_at s e cid \<noteq> None"
        using olds [of cid] col ow3 by (simp add: array_get_def)
      have 4: "signature_of ?s' e = signature_of s e"
        using Some l by (simp add: signature_of_def)
      show ?thesis
        using ow reg 1 2 3 4 nn by (intro exI [of _ ?s']) auto
    next
      case None
      let ?sig = "extendSignature (signature a) cid"
      let ?key = "createSignature ?sig"
      let ?s1 = "ensured ?sig s0"
      obtain b where b: "archetypes ?s1 ?key = Some b" "signature b = ?sig"
        and ne: "?key \<noteq> r" and a1: "archetypes ?s1 r = Some a"
        and add: "addComponent e k v s =
         Some (scheduleQueryCacheInvalidation
           (inserted e ?key b ((row_at a i)(cid \<mapsto> v)) (detached e r i a ?s1)))"
        and hi: "heap_inv (inserted e ?key b ((row_at a i)(cid \<mapsto> v)) (detached e r i a ?s1))"
        using addComponent_migrate [OF inv g Some l(1,2) None refl refl, where c = v] by blast
      let ?d = "detached e r i a ?s1"
      let ?s' = "scheduleQueryCacheInvalidation (inserted e ?key b ((row_at a i)(cid \<mapsto> v)) ?d)"
      have cs: "cid \<notin> set (signature a)" using column_of_signature(1) [OF l(5), of cid] None by simp
      have fr: "archetypes s0 = archetypes s" "entityToArchetype s0 = entityToArchetype s"
        "entityToIndex s0 = entityToIndex s"
        using getComponentId_frame [OF g] by simp_all
      have reg: "cid < componentIdCounter s0"
        using inv0 reg0 by (auto simp: heap_inv_def registry_ok_def)
      have "\<forall>c \<in> set (signature a). c < componentIdCounter s"
        using inv l unfolding heap_inv_def index_complete_def by blast
      then have regs: "\<forall>c \<in> set ?sig. c < componentIdCounter s0"
        using reg getComponentId_frame(7) [OF g] by (auto simp: extendSignature_props)
      have dist: "distinct ?sig" "sorted ?sig"
        using l(5) cs by (simp_all add: extendSignature_props archetype_ok_def)
      have inv1: "heap_inv ?s1" using ensured_inv(2) [OF inv0 dist regs] .
      have loc1: "entityToArchetype ?s1 e = Some r" "entityToIndex ?s1 e = Some i"
        using Some l fr by simp_all
      have invd: "heap_inv ?d" using detached_inv [OF inv1 loc1 a1] .
      have bd: "archetypes ?d ?key = Some b" using b ne by simp
      have okb: "archetype_ok ?key b" using inv1 b by (simp add: heap_inv_def archetypes_ok_def)
      have rows: "\<forall>c \<in> set (signature b). ((row_at a i)(cid \<mapsto> v)) c \<noteq> None"
        using b row_at_some [OF l(5)] by (auto simp: extendSignature_props)
      have self: "\<And>c. component_at ?s' e c =
          (if c \<in> set (signature b) then ((row_at a i)(cid \<mapsto> v)) c else None)"
        unfolding component_at_schedule by (rule component_at_inserted_row [OF okb rows])
      have 1: "component_at ?s' e cid = Some v"
        using self [of cid] b by (simp add: extendSignature_props)
      have 2: "\<And>c. c \<noteq> cid \<Longrightarrow> component_at ?s' e c = component_at s e c"
      proof -
        fix c assume c: "c \<noteq> cid"
        have "c \<notin> set (signature a) \<Longrightarrow> row_at a i c = None"
          using column_of_signature(1) [OF l(5), of c] by (simp add: row_at_def)
        then show "component_at ?s' e c = component_at s e c"
          using self [of c] cur [of c] b c by (auto simp: extendSignature_props)
      qed
      have 3: "\<And>e' c. e' \<noteq> e \<Longrightarrow> component_at ?s' e' c = component_at s e' c"
        using component_at_inserted_other [OF invd bd]
          component_at_detached_other [OF inv1 loc1 a1]
          component_at_ensured [OF inv0] c0 by simp
      have nn: "component_at s e cid = None" using cur [of cid] None by (simp add: row_at_def)
      show ?thesis
        using add hi reg0 keep 1 2 3 nn sg b by (intro exI [of _ ?s']) simp
    qed
  qed
qed

section \<open>Adding components\<close>

lemma run_reachable:
  "\<exists>s. run xs newComponentManager = Some s \<and> reachable s"
  using run_heap_inv [OF heap_inv_new, of xs] unfolding reachable_def by blast

lemma held_registered:
  assumes inv: "heap_inv s" and h: "component_at s e (fst (getComponentId k s)) \<noteq> None"
  shows "componentClassToId s k = Some (fst (getComponentId k s))"
proof -
  obtain cid s0 where g: "getComponentId k s = (cid, s0)" by (cases "getComponentId k s")
  from h obtain r where r: "entityToArchetype s e = Some r"
    by (auto simp: component_at_def split: option.splits)
  obtain a i where l: "archetypes s r = Some a" "archetype_ok r a"
    using heap_located [OF inv r] by blast
  have "map_of (componentArrays a) cid \<noteq> None"
    using h g r l by (auto simp: component_at_def split: option.splits)
  then have "cid \<in> set (signature a)" using column_of_signature(1) [OF l(2)] by simp
  then show ?thesis using getComponentId_held [OF inv g l(1)] g by simp
qed

lemma getComponent_value:
  assumes inv: "heap_inv s"
  shows "map_option fst (getComponent e k s) = Some (component_at s e (fst (getComponentId k s)))"
  using getComponent_closed [OF inv, of e k] by auto

lemma hasComponent_value:
  assumes inv: "heap_inv s"
  shows "map_option fst (hasComponent e k s) = Some (component_at s e (fst (getComponentId k s)) \<noteq> None)"
  using hasComponent_closed [OF inv, of e k] by auto

text \<open>
  C6. In every reachable store, for every entity, component class and instance,
  \<open>addComponent(e, T, v)\<close> returns and \<open>getComponent(e, T)\<close> on the store it leaves returns
  \<open>v\<close>: whether the entity had no component, had the class already or had other classes.
\<close>

theorem add_get_roundtrip:
  assumes "reachable s"
  shows "\<exists>s' s''. addComponent e k v s = Some s' \<and> getComponent e k s' = Some (Some v, s'')"
proof -
  have inv: "heap_inv s" using reachable_heap_inv [OF assms] .
  obtain cid s0 where g: "getComponentId k s = (cid, s0)" by (cases "getComponentId k s")
  obtain s' where s': "addComponent e k v s = Some s'" "heap_inv s'"
    "componentClassToId s' k = Some cid" "component_at s' e cid = Some v"
    using addComponent_effect [OF inv g, of e v] by blast
  then show ?thesis using getComponent_registered [OF s'(2,3), of e] by auto
qed

theorem add_get_roundtrip_witness:
  "\<exists>s s' s''. run [AddComponent 1 0 10, AddComponent 2 0 20, AddComponent 2 1 21]
        (newComponentManager :: (nat, nat) ComponentManager) = Some s \<and> reachable s \<and>
      addComponent 3 1 31 s = Some s' \<and> getComponent 3 1 s' = Some (Some 31, s'') \<and>
      map_option fst (getComponent 2 1 s') = Some (Some 21)"
proof -
  let ?ops = "[AddComponent 1 0 10, AddComponent 2 0 20, AddComponent 2 1 21] :: (nat, nat) operation list"
  obtain s where s: "run ?ops newComponentManager = Some s" "reachable s"
    using run_reachable by blast
  obtain s' s'' where a: "addComponent 3 1 31 s = Some s'" "getComponent 3 1 s' = Some (Some 31, s'')"
    using add_get_roundtrip [OF s(2), of 3 1 31] by blast
  have "Option.bind (Option.bind (run ?ops newComponentManager) (addComponent 3 1 31))
          (\<lambda>s. map_option fst (getComponent 2 1 s)) = Some (Some 21)"
    by code_simp
  then have "map_option fst (getComponent 2 1 s') = Some (Some 21)" using s a by simp
  then show ?thesis using s a by blast
qed

text \<open>
  C3. In every reachable store, let entity \<open>e\<close> hold \<open>A:a\<close> and \<open>B:b\<close> and no component of
  class \<open>C\<close>. Then \<open>addComponent(e, C, c)\<close> returns, and afterwards \<open>getComponent\<close> gives
  \<open>a\<close> for \<open>A\<close>, \<open>b\<close> for \<open>B\<close> and \<open>c\<close> for \<open>C\<close>; the signature of the entity's archetype
  is sorted ascending, without duplicates, and holds exactly the ids of the old signature
  and the id of \<open>C\<close> (so exactly \<open>{A, B, C}\<close> when the entity held exactly \<open>A\<close> and \<open>B\<close>).
\<close>

theorem migration_preserves_siblings:
  assumes "reachable s"
    and "map_option fst (getComponent e A s) = Some (Some a)"
    and "map_option fst (getComponent e B s) = Some (Some b)"
    and "map_option fst (hasComponent e C s) = Some False"
  shows "\<exists>s' sig sig' idA idB idC.
      addComponent e C c s = Some s' \<and>
      map_option fst (getComponent e A s') = Some (Some a) \<and>
      map_option fst (getComponent e B s') = Some (Some b) \<and>
      map_option fst (getComponent e C s') = Some (Some c) \<and>
      signature_of s e = Some sig \<and> signature_of s' e = Some sig' \<and>
      componentClassToId s' A = Some idA \<and> componentClassToId s' B = Some idB \<and>
      componentClassToId s' C = Some idC \<and>
      sorted sig' \<and> distinct sig' \<and> set sig' = insert idC (set sig) \<and>
      idA \<in> set sig \<and> idB \<in> set sig \<and> idC \<notin> set sig"
proof -
  have inv: "heap_inv s" using reachable_heap_inv [OF assms(1)] .
  obtain idC s0 where g: "getComponentId C s = (idC, s0)" by (cases "getComponentId C s")
  let ?idA = "fst (getComponentId A s)" and ?idB = "fst (getComponentId B s)"
  have va: "component_at s e ?idA = Some a" using assms(2) getComponent_value [OF inv, of e A] by simp
  have vb: "component_at s e ?idB = Some b" using assms(3) getComponent_value [OF inv, of e B] by simp
  have vc: "component_at s e idC = None"
    using assms(4) hasComponent_value [OF inv, of e C] g by simp
  have ra: "componentClassToId s A = Some ?idA" using held_registered [OF inv, of e A] va by simp
  have rb: "componentClassToId s B = Some ?idB" using held_registered [OF inv, of e B] vb by simp
  have nac: "?idA \<noteq> idC" "?idB \<noteq> idC" using va vb vc by auto
  obtain r where r: "entityToArchetype s e = Some r"
    using va by (auto simp: component_at_def split: option.splits)
  obtain ar i where l: "archetypes s r = Some ar" "entityToIndex s e = Some i"
    "i < length (entities ar)" "archetype_ok r ar"
    using heap_located [OF inv r] by blast
  have sg: "signature_of s e = Some (signature ar)" using r l by (simp add: signature_of_def)
  have cur: "\<And>x. component_at s e x = row_at ar i x"
    using component_at_located [OF r l] by blast
  have mem: "\<And>x. (x \<in> set (signature ar)) = (component_at s e x \<noteq> None)"
    using cur column_of_signature(1) [OF l(4)] by (simp add: row_at_def)
  obtain s' where s': "addComponent e C c s = Some s'" "heap_inv s'"
    "componentClassToId s' C = Some idC"
    "\<forall>k' x. componentClassToId s k' = Some x \<longrightarrow> componentClassToId s' k' = Some x"
    "component_at s' e idC = Some c"
    "\<forall>x. x \<noteq> idC \<longrightarrow> component_at s' e x = component_at s e x"
    "signature_of s' e = Some (extendSignature (signature ar) idC)"
    using addComponent_effect [OF inv g, of e c] vc sg by auto
  have ra': "componentClassToId s' A = Some ?idA" and rb': "componentClassToId s' B = Some ?idB"
    using s'(4) ra rb by auto
  have ga: "map_option fst (getComponent e A s') = Some (Some a)"
    using getComponent_registered [OF s'(2) ra', of e] s'(6) nac va by auto
  have gb: "map_option fst (getComponent e B s') = Some (Some b)"
    using getComponent_registered [OF s'(2) rb', of e] s'(6) nac vb by auto
  have gc: "map_option fst (getComponent e C s') = Some (Some c)"
    using getComponent_registered [OF s'(2) s'(3), of e] s'(5) by auto
  have nin: "idC \<notin> set (signature ar)" using mem vc by simp
  have props: "sorted (extendSignature (signature ar) idC)"
    "distinct (extendSignature (signature ar) idC)"
    "set (extendSignature (signature ar) idC) = insert idC (set (signature ar))"
    using extendSignature_props [of "signature ar" idC] l(4) nin by (simp_all add: archetype_ok_def)
  have ina: "?idA \<in> set (signature ar)" "?idB \<in> set (signature ar)"
    using mem va vb by simp_all
  show ?thesis
    using s'(1) ga gb gc sg s'(7) ra' rb' s'(3) props ina nin by blast
qed

theorem migration_preserves_siblings_witness:
  "\<exists>s s'. run [AddComponent 1 0 10, AddComponent 1 1 11, AddComponent 2 0 20]
        (newComponentManager :: (nat, nat) ComponentManager) = Some s \<and> reachable s \<and>
      map_option fst (getComponent 1 0 s) = Some (Some 10) \<and>
      map_option fst (getComponent 1 1 s) = Some (Some 11) \<and>
      map_option fst (hasComponent 1 2 s) = Some False \<and>
      addComponent 1 2 12 s = Some s' \<and>
      map_option fst (getComponent 1 0 s') = Some (Some 10) \<and>
      map_option fst (getComponent 1 1 s') = Some (Some 11) \<and>
      map_option fst (getComponent 1 2 s') = Some (Some 12) \<and>
      signature_of s 1 = Some [0, 1] \<and> signature_of s' 1 = Some [0, 1, 2]"
proof -
  let ?ops = "[AddComponent 1 0 10, AddComponent 1 1 11, AddComponent 2 0 20] :: (nat, nat) operation list"
  obtain s where s: "run ?ops newComponentManager = Some s" "reachable s"
    using run_reachable by blast
  have "Option.bind (run ?ops newComponentManager) (\<lambda>s. map_option fst (getComponent 1 0 s)) = Some (Some 10)"
    by code_simp
  then have h1: "map_option fst (getComponent 1 0 s) = Some (Some 10)" using s by simp
  have "Option.bind (run ?ops newComponentManager) (\<lambda>s. map_option fst (getComponent 1 1 s)) = Some (Some 11)"
    by code_simp
  then have h2: "map_option fst (getComponent 1 1 s) = Some (Some 11)" using s by simp
  have "Option.bind (run ?ops newComponentManager) (\<lambda>s. map_option fst (hasComponent 1 2 s)) = Some False"
    by code_simp
  then have h3: "map_option fst (hasComponent 1 2 s) = Some False" using s by simp
  have "Option.bind (run ?ops newComponentManager) (\<lambda>s. signature_of s 1) = Some [0, 1]"
    by code_simp
  then have h4: "signature_of s 1 = Some [0, 1]" using s by simp
  obtain s' where a: "addComponent 1 2 12 s = Some s'"
      "map_option fst (getComponent 1 0 s') = Some (Some 10)"
      "map_option fst (getComponent 1 1 s') = Some (Some 11)"
      "map_option fst (getComponent 1 2 s') = Some (Some 12)"
    using migration_preserves_siblings [OF s(2) h1 h2 h3, of 12] by blast
  have "Option.bind (Option.bind (run ?ops newComponentManager) (addComponent 1 2 12))
          (\<lambda>s. signature_of s 1) = Some [0, 1, 2]"
    by code_simp
  then have h5: "signature_of s' 1 = Some [0, 1, 2]" using s a by simp
  show ?thesis using s h1 h2 h3 h4 h5 a by blast
qed

section \<open>Removing components\<close>

lemma getComponentId_same_registry:
  assumes "componentClassToId s' = componentClassToId s" "componentIdCounter s' = componentIdCounter s"
  shows "fst (getComponentId k s') = fst (getComponentId k s)"
  using assms by (simp add: getComponentId_def Let_def split: option.splits)

lemma getComponent_same:
  assumes "heap_inv s" "heap_inv s'"
    and "componentClassToId s' = componentClassToId s" "componentIdCounter s' = componentIdCounter s"
    and "\<And>c. component_at s' e c = component_at s e c"
  shows "map_option fst (getComponent e k s') = map_option fst (getComponent e k s)"
proof -
  have "map_option fst (getComponent e k s') = Some (component_at s' e (fst (getComponentId k s')))"
    by (rule getComponent_value [OF assms(2)])
  also have "\<dots> = Some (component_at s e (fst (getComponentId k s)))"
    using getComponentId_same_registry [OF assms(3,4), of k] assms(5) by simp
  also have "\<dots> = map_option fst (getComponent e k s)"
    by (rule getComponent_value [OF assms(1), symmetric])
  finally show ?thesis .
qed

lemma swap_remove_set:
  assumes "distinct xs" "i < length xs"
  shows "set (swap_remove i xs) = set xs - {xs ! i}"
proof -
  have ne: "xs \<noteq> []" using assms by auto
  have split: "butlast xs @ [last xs] = xs" using ne by simp
  have "distinct (butlast xs @ [last xs])" using assms(1) by (simp only: split)
  then have d: "distinct (butlast xs)" "last xs \<notin> set (butlast xs)" by simp_all
  have "set (butlast xs @ [last xs]) = set xs" by (simp only: split)
  then have sx: "set xs = insert (last xs) (set (butlast xs))" by simp
  show ?thesis
  proof (cases "i = length xs - 1")
    case True
    then have "xs ! i = last xs" using ne by (simp add: last_conv_nth)
    moreover from this have "swap_remove i xs = butlast xs"
      unfolding swap_remove_def by (metis list_update_id)
    ultimately show ?thesis using sx d by auto
  next
    case False
    then have lt: "i < length (butlast xs)" using assms by simp
    have bl: "swap_remove i xs = (butlast xs)[i := last xs]"
      unfolding swap_remove_def using False by (simp add: butlast_list_update)
    have xi: "xs ! i = butlast xs ! i" using lt by (simp add: nth_butlast)
    have "set ((butlast xs)[i := last xs]) = insert (last xs) (set (butlast xs) - {butlast xs ! i})"
      using d(1) lt by (rule set_update_distinct)
    moreover have "butlast xs ! i \<in> set (butlast xs)" using lt by simp
    ultimately show ?thesis using bl xi sx d(2) by auto
  qed
qed

text \<open>What a removal of the entity's row does, whichever operation performs it.\<close>

lemma removal_effect:
  assumes inv: "heap_inv s"
    and loc: "entityToArchetype s e = Some r" "archetypes s r = Some a" "entityToIndex s e = Some i"
    and x: "x = RemoveAllComponents e \<or>
            (x = RemoveComponent e k \<and> component_at s e (fst (getComponentId k s)) \<noteq> None)"
  shows "\<exists>s'. step x s = Some s' \<and> heap_inv s' \<and>
     archetypes s' r = Some (a\<lparr>entities := swap_remove i (entities a),
         componentArrays := map (\<lambda>(cid, col). (cid, swap_remove i col)) (componentArrays a)\<rparr>) \<and>
     componentClassToId s' = componentClassToId s \<and> componentIdCounter s' = componentIdCounter s \<and>
     recycledComponents s' = snd (popColumns (componentArrays a) (recycledComponents s)) \<and>
     (i \<noteq> length (entities a) - 1 \<longrightarrow> entityToIndex s' (last (entities a)) = Some i) \<and>
     (\<forall>e' c. e' \<noteq> e \<longrightarrow> component_at s' e' c = component_at s e' c)"
proof -
  let ?a' = "a\<lparr>entities := swap_remove i (entities a),
         componentArrays := map (\<lambda>(cid, col). (cid, swap_remove i col)) (componentArrays a)\<rparr>"
  obtain a0 i0 where l0: "archetypes s r = Some a0" "entityToIndex s e = Some i0"
    "i0 < length (entities a0)" "entities a0 ! i0 = e" "archetype_ok r a0"
    using heap_located [OF inv loc(1)] by blast
  then have l: "i < length (entities a)" "entities a ! i = e" "archetype_ok r a"
    using loc by auto
  have dist: "distinct (entities a)"
    using members_distinct [of s r a] inv loc by (simp add: heap_inv_def)
  have lastne: "i \<noteq> length (entities a) - 1 \<Longrightarrow> last (entities a) \<noteq> e"
    using dist l by (metis diff_less last_conv_nth length_greater_0_conv less_one
        list.size(3) not_less_zero nth_eq_iff_index_eq)
  let ?d = "detached e r i a s"
  have invd: "heap_inv ?d" using detached_inv [OF inv loc(1,3,2)] .
  have dother: "\<And>e' c. e' \<noteq> e \<Longrightarrow> component_at ?d e' c = component_at s e' c"
    using component_at_detached_other [OF inv loc(1,3,2)] by blast
  have via_detached: "\<exists>s'. step x s = Some s' \<and> heap_inv s' \<and> archetypes s' r = Some ?a' \<and>
     componentClassToId s' = componentClassToId s \<and> componentIdCounter s' = componentIdCounter s \<and>
     recycledComponents s' = snd (popColumns (componentArrays a) (recycledComponents s)) \<and>
     (i \<noteq> length (entities a) - 1 \<longrightarrow> entityToIndex s' (last (entities a)) = Some i) \<and>
     (\<forall>e' c. e' \<noteq> e \<longrightarrow> component_at s' e' c = component_at s e' c)"
    if st: "step x s = Some (scheduleQueryCacheInvalidation ?d) \<or>
            step x s = Some (scheduleQueryCacheInvalidation (scheduleQueryCacheInvalidation ?d))"
  proof -
    from st obtain s' where s': "step x s = Some s'"
      "s' = scheduleQueryCacheInvalidation ?d \<or>
       s' = scheduleQueryCacheInvalidation (scheduleQueryCacheInvalidation ?d)" by auto
    have "heap_inv s'" using s'(2) invd by auto
    moreover have "archetypes s' r = Some ?a'" using s'(2) by auto
    moreover have "componentClassToId s' = componentClassToId s"
      "componentIdCounter s' = componentIdCounter s"
      "recycledComponents s' = snd (popColumns (componentArrays a) (recycledComponents s))"
      using s'(2) by auto
    moreover have "i \<noteq> length (entities a) - 1 \<longrightarrow> entityToIndex s' (last (entities a)) = Some i"
      using s'(2) lastne by auto
    moreover have "\<forall>e' c. e' \<noteq> e \<longrightarrow> component_at s' e' c = component_at s e' c"
      using s'(2) dother by auto
    ultimately show ?thesis using s'(1) by blast
  qed
  from x show ?thesis
  proof
    assume xa: "x = RemoveAllComponents e"
    show ?thesis
      using via_detached removeAll_some(1) [OF inv loc] xa by simp
  next
    assume xr: "x = RemoveComponent e k \<and> component_at s e (fst (getComponentId k s)) \<noteq> None"
    obtain cid s0 where g: "getComponentId k s = (cid, s0)" by (cases "getComponentId k s")
    have col: "map_of (componentArrays a) cid \<noteq> None"
      using xr g loc by (auto simp: component_at_def split: option.splits)
    show ?thesis
    proof (cases "filter (\<lambda>c. c \<noteq> cid) (signature a) = []")
      case True
      show ?thesis
        using via_detached removeComponent_last(1) [OF inv g loc col True] xr by simp
    next
      case False
      let ?sig = "filter (\<lambda>c. c \<noteq> cid) (signature a)"
      let ?key = "createSignature ?sig"
      let ?s1 = "ensured ?sig s"
      obtain b where b: "archetypes ?s1 ?key = Some b" "signature b = ?sig"
        and ne: "?key \<noteq> r" and a1: "archetypes ?s1 r = Some a" and s0: "s0 = s"
        and rm: "removeComponent e k s =
           Some (True, scheduleQueryCacheInvalidation
             (inserted e ?key b (row_at a i) (detached e r i a ?s1)))"
        and hi: "heap_inv (inserted e ?key b (row_at a i) (detached e r i a ?s1))"
        using removeComponent_migrate [OF inv g loc col False refl refl] by blast
      let ?d1 = "detached e r i a ?s1"
      let ?s' = "scheduleQueryCacheInvalidation (inserted e ?key b (row_at a i) ?d1)"
      have "\<forall>c \<in> set (signature a). c < componentIdCounter s"
        using inv loc unfolding heap_inv_def index_complete_def by blast
      then have regs: "\<forall>c \<in> set ?sig. c < componentIdCounter s" by simp
      have dst: "distinct ?sig" "sorted ?sig"
        using l(3) by (simp_all add: archetype_ok_def sorted_wrt_filter)
      have inv1: "heap_inv ?s1" using ensured_inv(2) [OF inv dst regs] .
      have loc1: "entityToArchetype ?s1 e = Some r" "entityToIndex ?s1 e = Some i"
        using loc by simp_all
      have invd1: "heap_inv ?d1" using detached_inv [OF inv1 loc1 a1] .
      have bd: "archetypes ?d1 ?key = Some b" using b ne by simp
      have oth: "\<forall>e' c. e' \<noteq> e \<longrightarrow> component_at ?s' e' c = component_at s e' c"
        using component_at_inserted_other [OF invd1 bd]
          component_at_detached_other [OF inv1 loc1 a1]
          component_at_ensured [OF inv] by simp
      have st: "step x s = Some ?s'" using xr rm by simp
      have ar: "archetypes ?s' r = Some ?a'" using ne by simp
      have ix: "i \<noteq> length (entities a) - 1 \<longrightarrow> entityToIndex ?s' (last (entities a)) = Some i"
        using lastne by simp
      show ?thesis
        using st hi ar ix oth by (intro exI [of _ ?s']) simp
    qed
  qed
qed

lemma reachable_step:
  assumes "reachable s" "step x s = Some s'"
  shows "reachable s'"
proof -
  obtain xs where "run xs newComponentManager = Some s" using assms(1) unfolding reachable_def by blast
  then have "run (xs @ [x]) newComponentManager = Some s'" using assms(2) by (simp add: run_append)
  then show ?thesis unfolding reachable_def by blast
qed

text \<open>
  C4. In every reachable store, let entity \<open>e\<close> be at row \<open>i\<close> of archetype \<open>a\<close> and be
  removed from it by \<open>removeAllComponents\<close>, or by \<open>removeComponent\<close> of a class it
  holds. The operation returns; afterwards the archetype's members are the old ones
  without \<open>e\<close>, the entity list and every column are the old array with the last element
  written to slot \<open>i\<close> and the end dropped, the entity moved from the last row (if \<open>e\<close> was
  not in it) is recorded at row \<open>i\<close>, and \<open>getComponent\<close> gives for every other entity
  and every class what it gave before.
\<close>

theorem swap_compaction:
  assumes "reachable s"
    and "entityToArchetype s e = Some r" "archetypes s r = Some a" "entityToIndex s e = Some i"
    and "x = RemoveAllComponents e \<or>
         (x = RemoveComponent e k \<and> map_option fst (hasComponent e k s) = Some True)"
  shows "\<exists>s' a'. step x s = Some s' \<and> archetypes s' r = Some a' \<and>
      signature a' = signature a \<and>
      entities a' = butlast ((entities a)[i := last (entities a)]) \<and>
      componentArrays a' =
        map (\<lambda>(cid, col). (cid, butlast (col[i := last col]))) (componentArrays a) \<and>
      set (entities a') = set (entities a) - {e} \<and>
      (i \<noteq> length (entities a) - 1 \<longrightarrow>
         entities a' ! i = last (entities a) \<and>
         entityToIndex s' (last (entities a)) = Some i) \<and>
      (\<forall>e' k'. e' \<noteq> e \<longrightarrow>
         map_option fst (getComponent e' k' s') = map_option fst (getComponent e' k' s))"
proof -
  have inv: "heap_inv s" using reachable_heap_inv [OF assms(1)] .
  have x: "x = RemoveAllComponents e \<or>
        (x = RemoveComponent e k \<and> component_at s e (fst (getComponentId k s)) \<noteq> None)"
    using assms(5) hasComponent_value [OF inv, of e k] by auto
  let ?a' = "a\<lparr>entities := swap_remove i (entities a),
         componentArrays := map (\<lambda>(cid, col). (cid, swap_remove i col)) (componentArrays a)\<rparr>"
  obtain s' where s': "step x s = Some s'" "heap_inv s'" "archetypes s' r = Some ?a'"
    "componentClassToId s' = componentClassToId s" "componentIdCounter s' = componentIdCounter s"
    "i \<noteq> length (entities a) - 1 \<longrightarrow> entityToIndex s' (last (entities a)) = Some i"
    "\<forall>e' c. e' \<noteq> e \<longrightarrow> component_at s' e' c = component_at s e' c"
    using removal_effect [OF inv assms(2,3,4) x] by blast
  obtain a0 i0 where "archetypes s r = Some a0" "entityToIndex s e = Some i0"
    "i0 < length (entities a0)" "entities a0 ! i0 = e"
    using heap_located [OF inv assms(2)] by blast
  then have l: "i < length (entities a)" "entities a ! i = e" using assms(3,4) by auto
  have dist: "distinct (entities a)"
    using members_distinct [of s r a] inv assms(3) by (simp add: heap_inv_def)
  have 1: "set (entities ?a') = set (entities a) - {e}"
    using swap_remove_set [OF dist l(1)] l(2) by simp
  have 2: "i \<noteq> length (entities a) - 1 \<longrightarrow> entities ?a' ! i = last (entities a)"
    using l(1) by (simp add: swap_remove_nth)
  have 3: "\<forall>e' k'. e' \<noteq> e \<longrightarrow>
         map_option fst (getComponent e' k' s') = map_option fst (getComponent e' k' s)"
    using getComponent_same [OF inv s'(2,4,5)] s'(7) by blast
  have 4: "entities ?a' = butlast ((entities a)[i := last (entities a)])"
    "componentArrays ?a' =
        map (\<lambda>(cid, col). (cid, butlast (col[i := last col]))) (componentArrays a)"
    by (simp_all add: swap_remove_def)
  have 5: "signature ?a' = signature a" by simp
  show ?thesis
    using s'(1,3,6) 1 2 3 4 5 by blast
qed

theorem swap_compaction_witness:
  "\<exists>s s'. run [AddComponent 1 0 10, AddComponent 1 1 11, AddComponent 2 0 20, AddComponent 2 1 21,
             AddComponent 3 0 30, AddComponent 3 1 31]
        (newComponentManager :: (nat, nat) ComponentManager) = Some s \<and> reachable s \<and>
      entityToArchetype s 1 = Some ''0,1'' \<and> entityToIndex s 1 = Some 0 \<and>
      archetypes s ''0,1'' =
        Some \<lparr>signature = [0, 1], entities = [1, 2, 3],
               componentArrays = [(0, [10, 20, 30]), (1, [11, 21, 31])]\<rparr> \<and>
      map_option fst (hasComponent 1 1 s) = Some True \<and>
      step (RemoveComponent 1 1) s = Some s' \<and>
      archetypes s' ''0,1'' =
        Some \<lparr>signature = [0, 1], entities = [3, 2],
               componentArrays = [(0, [30, 20]), (1, [31, 21])]\<rparr> \<and>
      entityToIndex s' 3 = Some 0 \<and>
      map_option fst (getComponent 3 1 s') = map_option fst (getComponent 3 1 s) \<and>
      map_option fst (getComponent 3 1 s) = Some (Some 31)"
proof -
  let ?ops = "[AddComponent 1 0 10, AddComponent 1 1 11, AddComponent 2 0 20, AddComponent 2 1 21,
             AddComponent 3 0 30, AddComponent 3 1 31] :: (nat, nat) operation list"
  let ?a = "\<lparr>signature = [0, 1], entities = [1, 2, 3],
               componentArrays = [(0, [10, 20, 30]), (1, [11, 21, 31])]\<rparr> :: nat Archetype"
  obtain s where s: "run ?ops newComponentManager = Some s" "reachable s"
    using run_reachable by blast
  have "Option.bind (run ?ops newComponentManager) (\<lambda>s. entityToArchetype s 1) = Some ''0,1''"
    by code_simp
  then have h1: "entityToArchetype s 1 = Some ''0,1''" using s by simp
  have "Option.bind (run ?ops newComponentManager) (\<lambda>s. entityToIndex s 1) = Some 0"
    by code_simp
  then have h2: "entityToIndex s 1 = Some 0" using s by simp
  have "Option.bind (run ?ops newComponentManager) (\<lambda>s. archetypes s ''0,1'') = Some ?a"
    by code_simp
  then have h3: "archetypes s ''0,1'' = Some ?a" using s by simp
  have "Option.bind (run ?ops newComponentManager) (\<lambda>s. map_option fst (hasComponent 1 1 s)) = Some True"
    by code_simp
  then have h4: "map_option fst (hasComponent 1 1 s) = Some True" using s by simp
  have "Option.bind (run ?ops newComponentManager) (\<lambda>s. map_option fst (getComponent 3 1 s)) = Some (Some 31)"
    by code_simp
  then have h5: "map_option fst (getComponent 3 1 s) = Some (Some 31)" using s by simp
  obtain s' a' where r: "step (RemoveComponent 1 1) s = Some s'" "archetypes s' ''0,1'' = Some a'"
    "signature a' = signature ?a"
    "entities a' = butlast ((entities ?a)[0 := last (entities ?a)])"
    "componentArrays a' =
        map (\<lambda>(cid, col). (cid, butlast (col[0 := last col]))) (componentArrays ?a)"
    "0 \<noteq> length (entities ?a) - 1 \<longrightarrow> entityToIndex s' (last (entities ?a)) = Some 0"
    "\<forall>e' k'. e' \<noteq> 1 \<longrightarrow>
         map_option fst (getComponent e' k' s') = map_option fst (getComponent e' k' s)"
    using swap_compaction [OF s(2) h1 h3 h2, of "RemoveComponent 1 1" 1] h4 by blast
  have a': "a' = \<lparr>signature = [0, 1], entities = [3, 2],
               componentArrays = [(0, [30, 20]), (1, [31, 21])]\<rparr>"
    using r(3,4,5) by (cases a') simp
  have i3: "entityToIndex s' 3 = Some 0" using r(6) by simp
  have g3: "map_option fst (getComponent 3 1 s') = map_option fst (getComponent 3 1 s)"
    using r(7) by simp
  show ?thesis using s h1 h2 h3 h4 h5 r(1,2) a' i3 g3 by blast
qed

section \<open>Pools and invalidation\<close>

lemma recycle_at:
  "recycleComponent cid v pools cid =
     map_option (\<lambda>r. if length r < 1000 then r @ [v] else r) (pools cid)"
  by (simp add: recycleComponent_def split: option.splits)

lemma recycle_other: "c \<noteq> cid \<Longrightarrow> recycleComponent c v pools cid = pools cid"
  by (simp add: recycleComponent_def split: option.splits)

lemma popColumns_pools:
  assumes "distinct (map fst cols)"
  shows "snd (popColumns cols pools) cid =
     (case map_of cols cid of
        None \<Rightarrow> pools cid
      | Some col \<Rightarrow>
          if col = [] then pools cid
          else map_option (\<lambda>r. if length r < 1000 then r @ [last col] else r) (pools cid))"
  using assms
proof (induction cols arbitrary: pools)
  case Nil
  then show ?case by simp
next
  case (Cons p cols)
  obtain c col where p: "p = (c, col)" by (cases p)
  let ?pools1 = "case col of [] \<Rightarrow> pools | _ # _ \<Rightarrow> recycleComponent c (last col) pools"
  have p1: "?pools1 = (if col = [] then pools else recycleComponent c (last col) pools)"
    by (cases col) simp_all
  have st: "snd (popColumns (p # cols) pools) = snd (popColumns cols ?pools1)"
    unfolding p by (simp add: Let_def case_prod_beta)
  have ih: "snd (popColumns cols ?pools1) cid =
     (case map_of cols cid of
        None \<Rightarrow> ?pools1 cid
      | Some col \<Rightarrow>
          if col = [] then ?pools1 cid
          else map_option (\<lambda>r. if length r < 1000 then r @ [last col] else r) (?pools1 cid))"
    using Cons.IH [of ?pools1] Cons.prems by simp
  show ?case
  proof (cases "cid = c")
    case True
    then have "map_of cols cid = None"
      using Cons.prems p by (simp add: map_of_eq_None_iff)
    then show ?thesis
      unfolding st using ih True p p1 by (simp add: recycle_at)
  next
    case False
    then have "?pools1 cid = pools cid" using p1 by (simp add: recycle_other)
    then show ?thesis
      unfolding st using ih False p by (auto split: option.splits)
  qed
qed

lemma invalidate_fields [simp]:
  "queryCache (invalidateQueryCaches s) =
     (\<lambda>key. map_option (\<lambda>c. c\<lparr>needsUpdate := True\<rparr>) (queryCache s key))"
  "pendingCacheInvalidation (invalidateQueryCaches s) = pendingCacheInvalidation s"
  "batchInvalidation (invalidateQueryCaches s) = batchInvalidation s"
  by (simp_all add: invalidateQueryCaches_def)

lemma schedule_cache:
  "batchInvalidation s \<Longrightarrow> queryCache (scheduleQueryCacheInvalidation s) = queryCache s"
  "batchInvalidation s \<Longrightarrow> pendingCacheInvalidation (scheduleQueryCacheInvalidation s)"
  "\<not> batchInvalidation s \<Longrightarrow>
     queryCache (scheduleQueryCacheInvalidation s) = queryCache (invalidateQueryCaches s)"
  "\<not> batchInvalidation s \<Longrightarrow>
     pendingCacheInvalidation (scheduleQueryCacheInvalidation s) = pendingCacheInvalidation s"
  by (simp_all add: scheduleQueryCacheInvalidation_def)

lemma invalidate_twice:
  "(\<lambda>key. map_option (\<lambda>c. c\<lparr>needsUpdate := True\<rparr>)
      (map_option (\<lambda>c. c\<lparr>needsUpdate := True\<rparr>) (q key)))
   = (\<lambda>key. map_option (\<lambda>c. c\<lparr>needsUpdate := True\<rparr>) (q key))"
  by (auto simp: fun_eq_iff option.map_comp comp_def)

lemma ensured_cache:
  "batchInvalidation s \<Longrightarrow> queryCache (ensured ids s) = queryCache s"
  "\<not> batchInvalidation s \<Longrightarrow>
     pendingCacheInvalidation (ensured ids s) = pendingCacheInvalidation s"
  "\<not> batchInvalidation s \<Longrightarrow>
     queryCache (invalidateQueryCaches (ensured ids s)) = queryCache (invalidateQueryCaches s)"
  "pendingCacheInvalidation s \<Longrightarrow> pendingCacheInvalidation (ensured ids s)"
  by (auto simp: ensured_def scheduleQueryCacheInvalidation_def invalidate_twice
      split: option.splits)

lemma lacking_column:
  assumes inv: "heap_inv s" and r: "entityToArchetype s e = Some r"
    and a: "archetypes s r = Some a"
  shows "(component_at s e cid = None) = (map_of (componentArrays a) cid = None)"
proof -
  obtain a0 i where l: "archetypes s r = Some a0" "entityToIndex s e = Some i"
    "i < length (entities a0)" "archetype_ok r a0"
    using heap_located [OF inv r] by blast
  then have aa: "a0 = a" using a by simp
  have "component_at s e cid = row_at a i cid"
    using component_at_located [OF r a] l aa by simp
  then show ?thesis by (simp add: row_at_def)
qed




lemma detached_pools:
  assumes inv: "heap_inv s" and loc: "entityToArchetype s e = Some r" "entityToIndex s e = Some i"
    and a: "archetypes s r = Some a" and col: "map_of (componentArrays a) cid = Some col"
  shows "col \<noteq> []"
    and "recycledComponents (detached e r i a s) cid =
           map_option (\<lambda>p. if length p < 1000 then p @ [last col] else p) (recycledComponents s cid)"
    and "i = length (entities a) - 1 \<Longrightarrow> component_at s e cid = Some (last col)"
    and "i \<noteq> length (entities a) - 1 \<Longrightarrow>
           last (entities a) \<noteq> e \<and>
           component_at (detached e r i a s) (last (entities a)) cid = Some (last col)"
proof -
  let ?n = "length (entities a)"
  obtain a0 i0 where "archetypes s r = Some a0" "entityToIndex s e = Some i0"
    "i0 < length (entities a0)" "entities a0 ! i0 = e" "archetype_ok r a0"
    using heap_located [OF inv loc(1)] by blast
  then have l: "i < ?n" "entities a ! i = e" "archetype_ok r a" using loc a by auto
  have len: "length col = ?n" using column_of_signature(2) [OF l(3) col] .
  then show ne: "col \<noteq> []" using l(1) by auto
  have lc: "last col = col ! (?n - 1)" using ne len by (simp add: last_conv_nth)
  have dk: "distinct (map fst (componentArrays a))" using l(3) by (simp add: archetype_ok_def)
  show "recycledComponents (detached e r i a s) cid =
           map_option (\<lambda>p. if length p < 1000 then p @ [last col] else p) (recycledComponents s cid)"
    using popColumns_pools [OF dk, of "recycledComponents s" cid] col ne by simp
  have cur: "\<And>e' j. entityToArchetype s e' = Some r \<Longrightarrow> entityToIndex s e' = Some j \<Longrightarrow>
      j < ?n \<Longrightarrow> component_at s e' cid = Some (col ! j)"
    using component_at_eq [of s _ r a _ cid] a col len by (simp add: array_get_def)
  show "i = ?n - 1 \<Longrightarrow> component_at s e cid = Some (last col)"
    using cur [OF loc l(1)] lc by simp
  assume nl: "i \<noteq> ?n - 1"
  have nemp: "entities a \<noteq> []" using l(1) by auto
  have ml: "members_located s" using inv by (simp add: heap_inv_def)
  have lastloc: "entityToArchetype s (last (entities a)) = Some r"
    "entityToIndex s (last (entities a)) = Some (?n - 1)"
    using ml a nemp unfolding members_located_def by (auto simp: last_conv_nth)
  have le: "last (entities a) \<noteq> e" using lastloc(2) loc(2) nl by auto
  have "component_at s (last (entities a)) cid = Some (last col)"
    using cur [OF lastloc] l(1) lc by simp
  then show "last (entities a) \<noteq> e \<and>
           component_at (detached e r i a s) (last (entities a)) cid = Some (last col)"
    using component_at_detached_other [OF inv loc a le] le by simp
qed

lemma filter_nonempty:
  assumes "distinct sig" "1 < length sig"
  shows "filter (\<lambda>c. c \<noteq> (ck::nat)) sig \<noteq> []"
proof
  assume "filter (\<lambda>c. c \<noteq> ck) sig = []"
  then have "\<forall>c \<in> set sig. c = ck" by (simp add: filter_empty_conv)
  then have "set sig \<subseteq> {ck}" by auto
  then have "card (set sig) \<le> 1" by (metis card.empty card_insert_if card_mono finite.emptyI
        finite.insertI le_numeral_extra(4) nat_le_linear One_nat_def card_1_singleton_iff
        is_singletonI is_singleton_altdef)
  then show False using assms by (simp add: distinct_card)
qed

text \<open>
  What a migration recycles, as the code has it. In every reachable store, let entity \<open>e\<close>
  be at row \<open>i\<close> of archetype \<open>a\<close> and migrate (by \<open>addComponent\<close> of a class it lacks,
  or by \<open>removeComponent\<close> of a class it holds while it holds another). For every column
  of \<open>a\<close>, the instance popped from the end of that column is pushed onto the pool of
  the column's id when the pool holds fewer than 1000 entries, and is dropped otherwise.
  The popped instances are those of the last row: \<open>e\<close>'s own only when \<open>e\<close> was in the
  last row.
\<close>

lemma recycled_on_migration:
  assumes "reachable s"
    and "entityToArchetype s e = Some r" "archetypes s r = Some a" "entityToIndex s e = Some i"
    and "map_of (componentArrays a) cid = Some col"
    and "(x = AddComponent e k c \<and> map_option fst (hasComponent e k s) = Some False) \<or>
         (x = RemoveComponent e k \<and> map_option fst (hasComponent e k s) = Some True \<and>
          1 < length (signature a))"
  shows "\<exists>s' pool. step x s = Some s' \<and> recycledComponents s cid = Some pool \<and> col \<noteq> [] \<and>
      recycledComponents s' cid = Some (if length pool < 1000 then pool @ [last col] else pool) \<and>
      (i = length (entities a) - 1 \<longrightarrow>
         component_at s e cid = Some (last col) \<and>
         (componentClassToId s k \<noteq> Some cid \<longrightarrow> component_at s' e cid = Some (last col))) \<and>
      (i \<noteq> length (entities a) - 1 \<longrightarrow>
         last (entities a) \<noteq> e \<and> component_at s' (last (entities a)) cid = Some (last col))"
proof -
  have inv: "heap_inv s" using reachable_heap_inv [OF assms(1)] .
  note loc = assms(2,3,4) and col = assms(5)
  obtain a0 i0 where "archetypes s r = Some a0" "entityToIndex s e = Some i0"
    "i0 < length (entities a0)" "entities a0 ! i0 = e" "archetype_ok r a0"
    using heap_located [OF inv loc(1)] by blast
  then have l: "i < length (entities a)" "entities a ! i = e" "archetype_ok r a" using loc by auto
  have cs: "cid \<in> set (signature a)" using column_of_signature(1) [OF l(3), of cid] col by simp
  have creg: "cid < componentIdCounter s"
    using inv loc cs unfolding heap_inv_def index_complete_def by blast
  then obtain pool where pool: "recycledComponents s cid = Some pool"
    using inv by (auto simp: heap_inv_def registry_ok_def)
  obtain ck s0 where g: "getComponentId k s = (ck, s0)" by (cases "getComponentId k s")
  have hv: "map_option fst (hasComponent e k s) = Some (component_at s e ck \<noteq> None)"
    using hasComponent_value [OF inv, of e k] g by simp
  have cur: "\<And>c'. component_at s e c' = row_at a i c'"
    using component_at_located [OF loc l(1,3)] by blast
  have shape: "\<exists>s' pool. step x s = Some s' \<and> recycledComponents s cid = Some pool \<and> col \<noteq> [] \<and>
      recycledComponents s' cid = Some (if length pool < 1000 then pool @ [last col] else pool) \<and>
      (i = length (entities a) - 1 \<longrightarrow>
         component_at s e cid = Some (last col) \<and>
         (componentClassToId s k \<noteq> Some cid \<longrightarrow> component_at s' e cid = Some (last col))) \<and>
      (i \<noteq> length (entities a) - 1 \<longrightarrow>
         last (entities a) \<noteq> e \<and> component_at s' (last (entities a)) cid = Some (last col))"
    if st: "step x s = Some (scheduleQueryCacheInvalidation (inserted e key b row (detached e r i a s1)))"
      and inv1: "heap_inv s1"
      and fr: "entityToArchetype s1 = entityToArchetype s" "entityToIndex s1 = entityToIndex s"
        "archetypes s1 r = Some a" "recycledComponents s1 cid = recycledComponents s cid"
      and b: "archetypes s1 key = Some b" "key \<noteq> r"
      and rows: "\<forall>c' \<in> set (signature b). row c' \<noteq> None"
      and sib: "componentClassToId s k \<noteq> Some cid \<Longrightarrow> cid \<in> set (signature b) \<and> row cid = row_at a i cid"
      and same: "\<And>e' c'. component_at s1 e' c' = component_at s e' c'"
    for key b row s1
  proof -
    let ?d = "detached e r i a s1"
    let ?s' = "scheduleQueryCacheInvalidation (inserted e key b row ?d)"
    have loc1: "entityToArchetype s1 e = Some r" "entityToIndex s1 e = Some i"
      using loc fr by simp_all
    note dp = detached_pools [OF inv1 loc1 fr(3) col]
    have invd: "heap_inv ?d" using detached_inv [OF inv1 loc1 fr(3)] .
    have bd: "archetypes ?d key = Some b" using b by simp
    have okb: "archetype_ok key b" using inv1 b by (simp add: heap_inv_def archetypes_ok_def)
    have 1: "recycledComponents ?s' cid =
        Some (if length pool < 1000 then pool @ [last col] else pool)"
      using dp(2) fr(4) pool by simp
    have 2: "i = length (entities a) - 1 \<longrightarrow> component_at s e cid = Some (last col)"
      using dp(3) same by simp
    have 3: "i = length (entities a) - 1 \<longrightarrow> componentClassToId s k \<noteq> Some cid \<longrightarrow>
        component_at ?s' e cid = Some (last col)"
    proof (intro impI)
      assume il: "i = length (entities a) - 1" and nk: "componentClassToId s k \<noteq> Some cid"
      have "component_at ?s' e cid = (if cid \<in> set (signature b) then row cid else None)"
        unfolding component_at_schedule by (rule component_at_inserted_row [OF okb rows])
      then show "component_at ?s' e cid = Some (last col)"
        using sib [OF nk] cur [of cid] 2 il by simp
    qed
    have 4: "i \<noteq> length (entities a) - 1 \<longrightarrow>
         last (entities a) \<noteq> e \<and> component_at ?s' (last (entities a)) cid = Some (last col)"
    proof (intro impI)
      assume nl: "i \<noteq> length (entities a) - 1"
      have le: "last (entities a) \<noteq> e"
        and v: "component_at ?d (last (entities a)) cid = Some (last col)"
        using dp(4) [OF nl] by simp_all
      have "component_at ?s' (last (entities a)) cid = component_at ?d (last (entities a)) cid"
        unfolding component_at_schedule by (rule component_at_inserted_other [OF invd bd le])
      then show "last (entities a) \<noteq> e \<and> component_at ?s' (last (entities a)) cid = Some (last col)"
        using le v by simp
    qed
    show ?thesis using st pool dp(1) 1 2 3 4 by blast
  qed
  from assms(6) show ?thesis
  proof
    assume xa: "x = AddComponent e k c \<and> map_option fst (hasComponent e k s) = Some False"
    then have "component_at s e ck = None" using hv by simp
    then have nocol: "map_of (componentArrays a) ck = None"
      using lacking_column [OF inv loc(1,2)] by simp
    let ?sig = "extendSignature (signature a) ck"
    obtain b where b: "archetypes (ensured ?sig s0) (createSignature ?sig) = Some b"
        "signature b = ?sig" "createSignature ?sig \<noteq> r" "archetypes (ensured ?sig s0) r = Some a"
      and add: "addComponent e k c s =
         Some (scheduleQueryCacheInvalidation
           (inserted e (createSignature ?sig) b ((row_at a i)(ck \<mapsto> c))
              (detached e r i a (ensured ?sig s0))))"
      using addComponent_migrate [OF inv g loc nocol refl refl, where c = c] by blast
    have inv0: "heap_inv s0" using getComponentId_inv [OF inv g] .
    have ckn: "ck \<notin> set (signature a)" using column_of_signature(1) [OF l(3), of ck] nocol by simp
    have reg: "ck < componentIdCounter s0"
      using inv0 getComponentId_frame(8) [OF g] by (auto simp: heap_inv_def registry_ok_def)
    have "\<forall>c' \<in> set (signature a). c' < componentIdCounter s"
      using inv loc unfolding heap_inv_def index_complete_def by blast
    then have regs: "\<forall>c' \<in> set ?sig. c' < componentIdCounter s0"
      using reg getComponentId_frame(7) [OF g] by (auto simp: extendSignature_props)
    have dist: "distinct ?sig" "sorted ?sig"
      using l(3) ckn by (simp_all add: extendSignature_props archetype_ok_def)
    have inv1: "heap_inv (ensured ?sig s0)" using ensured_inv(2) [OF inv0 dist regs] .
    have rg: "registry_ok s" using inv by (simp add: heap_inv_def)
    have rc: "recycledComponents (ensured ?sig s0) cid = recycledComponents s cid"
      using getComponentId_keeps(3) [OF g rg creg] by simp
    have rows: "\<forall>c' \<in> set (signature b). ((row_at a i)(ck \<mapsto> c)) c' \<noteq> None"
      using b row_at_some [OF l(3)] by (auto simp: extendSignature_props)
    have sib: "cid \<in> set (signature b) \<and> ((row_at a i)(ck \<mapsto> c)) cid = row_at a i cid"
      using b cs ckn by (auto simp: extendSignature_props)
    have same: "\<And>e' c'. component_at (ensured ?sig s0) e' c' = component_at s e' c'"
      using component_at_ensured [OF inv0] component_at_getComponentId [OF g] by simp
    show ?thesis
      by (rule shape [of "createSignature ?sig" b "(row_at a i)(ck \<mapsto> c)" "ensured ?sig s0"])
         (use xa add inv1 getComponentId_frame [OF g] b rc rows sib same in simp_all)
  next
    assume xr: "x = RemoveComponent e k \<and> map_option fst (hasComponent e k s) = Some True \<and>
          1 < length (signature a)"
    then have "component_at s e ck \<noteq> None" using hv by simp
    then have hascol: "map_of (componentArrays a) ck \<noteq> None"
      using lacking_column [OF inv loc(1,2)] by simp
    let ?sig = "filter (\<lambda>c. c \<noteq> ck) (signature a)"
    have nemp: "?sig \<noteq> []"
      using filter_nonempty [of "signature a" ck] xr l(3) by (simp add: archetype_ok_def)
    obtain b where b: "archetypes (ensured ?sig s) (createSignature ?sig) = Some b"
        "signature b = ?sig" "createSignature ?sig \<noteq> r" "archetypes (ensured ?sig s) r = Some a"
        "s0 = s"
      and rm: "removeComponent e k s =
         Some (True, scheduleQueryCacheInvalidation
           (inserted e (createSignature ?sig) b (row_at a i) (detached e r i a (ensured ?sig s))))"
      using removeComponent_migrate [OF inv g loc hascol nemp refl refl] by blast
    have "\<forall>c' \<in> set (signature a). c' < componentIdCounter s"
      using inv loc unfolding heap_inv_def index_complete_def by blast
    then have regs: "\<forall>c' \<in> set ?sig. c' < componentIdCounter s" by simp
    have dist: "distinct ?sig" "sorted ?sig"
      using l(3) by (simp_all add: archetype_ok_def sorted_wrt_filter)
    have inv1: "heap_inv (ensured ?sig s)" using ensured_inv(2) [OF inv dist regs] .
    have rows: "\<forall>c' \<in> set (signature b). row_at a i c' \<noteq> None"
      using b row_at_some [OF l(3)] by auto
    have ckr: "componentClassToId s k = Some ck"
      using getComponentId_frame(8) [OF g] b(5) by simp
    have sib: "componentClassToId s k \<noteq> Some cid \<Longrightarrow> cid \<in> set (signature b)"
      using b cs ckr by auto
    have same: "\<And>e' c'. component_at (ensured ?sig s) e' c' = component_at s e' c'"
      using component_at_ensured [OF inv] by simp
    show ?thesis
      by (rule shape [of "createSignature ?sig" b "row_at a i" "ensured ?sig s"])
         (use xr rm inv1 b rows sib same in simp_all)
  qed
qed

lemma recycled_on_migration_example:
  "\<exists>s s'. run [AddComponent 1 0 10, AddComponent 1 1 11]
        (newComponentManager :: (nat, nat) ComponentManager) = Some s \<and> reachable s \<and>
      entityToArchetype s 1 = Some ''0,1'' \<and> entityToIndex s 1 = Some 0 \<and>
      archetypes s ''0,1'' =
        Some \<lparr>signature = [0, 1], entities = [1], componentArrays = [(0, [10]), (1, [11])]\<rparr> \<and>
      map_option fst (hasComponent 1 1 s) = Some True \<and>
      step (RemoveComponent 1 1) s = Some s' \<and>
      recycledComponents s 0 = Some [10] \<and> recycledComponents s' 0 = Some [10, 10] \<and>
      component_at s 1 0 = Some 10 \<and> component_at s' 1 0 = Some 10"
proof -
  let ?ops = "[AddComponent 1 0 10, AddComponent 1 1 11] :: (nat, nat) operation list"
  let ?a = "\<lparr>signature = [0, 1], entities = [1], componentArrays = [(0, [10]), (1, [11])]\<rparr> :: nat Archetype"
  obtain s where s: "run ?ops newComponentManager = Some s" "reachable s"
    using run_reachable by blast
  have "Option.bind (run ?ops newComponentManager) (\<lambda>s. entityToArchetype s 1) = Some ''0,1''"
    by code_simp
  then have h1: "entityToArchetype s 1 = Some ''0,1''" using s by simp
  have "Option.bind (run ?ops newComponentManager) (\<lambda>s. entityToIndex s 1) = Some 0"
    by code_simp
  then have h2: "entityToIndex s 1 = Some 0" using s by simp
  have "Option.bind (run ?ops newComponentManager) (\<lambda>s. archetypes s ''0,1'') = Some ?a"
    by code_simp
  then have h3: "archetypes s ''0,1'' = Some ?a" using s by simp
  have "Option.bind (run ?ops newComponentManager) (\<lambda>s. map_option fst (hasComponent 1 1 s)) = Some True"
    by code_simp
  then have h4: "map_option fst (hasComponent 1 1 s) = Some True" using s by simp
  have "Option.bind (run ?ops newComponentManager) (\<lambda>s. componentClassToId s 1) = Some 1"
    by code_simp
  then have h5: "componentClassToId s 1 \<noteq> Some 0" using s by simp
  have h6: "map_of (componentArrays ?a) 0 = Some [10]" by simp
  have h7: "RemoveComponent 1 1 = AddComponent 1 1 0 \<and> map_option fst (hasComponent 1 1 s) = Some False \<or>
      RemoveComponent 1 1 = RemoveComponent 1 1 \<and> map_option fst (hasComponent 1 1 s) = Some True \<and>
      1 < length (signature ?a)"
    using h4 by simp
  obtain s' pool where r: "step (RemoveComponent 1 1) s = Some s'"
    "recycledComponents s 0 = Some pool"
    "recycledComponents s' 0 = Some (if length pool < 1000 then pool @ [last [10]] else pool)"
    "0 = length (entities ?a) - 1 \<longrightarrow>
         component_at s 1 0 = Some (last [10]) \<and>
         (componentClassToId s 1 \<noteq> Some 0 \<longrightarrow> component_at s' 1 0 = Some (last [10]))"
    using recycled_on_migration [OF s(2) h1 h3 h2 h6 h7] by blast
  have "Option.bind (run ?ops newComponentManager) (\<lambda>s. recycledComponents s 0) = Some [10]"
    by code_simp
  then have p: "recycledComponents s 0 = Some [10]" using s by simp
  then have "pool = [10]" using r(2) by simp
  then have p': "recycledComponents s' 0 = Some [10, 10]" using r(3) by simp
  have v: "component_at s 1 0 = Some 10" "component_at s' 1 0 = Some 10"
    using r(4) h5 by simp_all
  show ?thesis using s h1 h2 h3 h4 r(1) p p' v by blast
qed

text \<open>
  C10 fails on the code. \<open>swapRemoveFromArchetype\<close> pops each column after it has
  written the last row over the removed row, so what it recycles as the removed component
  is the instance of the last row's entity, which that entity still holds; the instance
  of the removed row is overwritten and is not pooled. Here entity 1 migrates from row 0
  of an archetype that also holds entity 2: the pool of class 0 receives entity 2's
  instance 20, which entity 2 still reads, and not entity 1's instance 10.
\<close>

theorem migration_pools_other_entity:
  "Option.bind (run [AddComponent 1 0 10, AddComponent 2 0 20, AddComponent 1 1 11]
       (newComponentManager :: (nat, nat) ComponentManager))
     (\<lambda>s. Some (recycledComponents s 0, component_at s 1 0, component_at s 2 0,
                 map_option entities (archetypes s ''0'')))
   = Some (Some [20], Some 10, Some 20, Some [2])"
  by code_simp

text \<open>
  C8 (as amended). In every reachable store \<open>addComponent\<close> returns. When the entity
  already has the class, the slot is overwritten and nothing is invalidated: the query
  caches and the pending flag stay as they were. Otherwise invalidation is scheduled:
  inside a batch the caches stay as they were and the pending flag is set; outside a
  batch every existing cache entry is marked dirty.
\<close>

theorem addComponent_invalidation:
  assumes "reachable s"
  shows "\<exists>s'. addComponent e k c s = Some s' \<and> batchInvalidation s' = batchInvalidation s \<and>
     (if map_option fst (hasComponent e k s) = Some True
      then queryCache s' = queryCache s \<and>
           pendingCacheInvalidation s' = pendingCacheInvalidation s
      else if batchInvalidation s
      then queryCache s' = queryCache s \<and> pendingCacheInvalidation s'
      else (\<forall>key. queryCache s' key =
                    map_option (\<lambda>q. q\<lparr>needsUpdate := True\<rparr>) (queryCache s key)) \<and>
           pendingCacheInvalidation s' = pendingCacheInvalidation s)"
proof -
  have inv: "heap_inv s" using reachable_heap_inv [OF assms] .
  obtain cid s0 where g: "getComponentId k s = (cid, s0)" by (cases "getComponentId k s")
  have hv: "map_option fst (hasComponent e k s) = Some (component_at s e cid \<noteq> None)"
    using hasComponent_value [OF inv, of e k] g by simp
  note fr = getComponentId_frame [OF g]
  have scheduled: "batchInvalidation s' = batchInvalidation s \<and>
      (if batchInvalidation s
       then queryCache s' = queryCache s \<and> pendingCacheInvalidation s'
       else (\<forall>key. queryCache s' key =
                    map_option (\<lambda>q. q\<lparr>needsUpdate := True\<rparr>) (queryCache s key)) \<and>
            pendingCacheInvalidation s' = pendingCacheInvalidation s)"
    if s': "s' = scheduleQueryCacheInvalidation X"
      and X: "queryCache X = queryCache (ensured ids s0)"
        "pendingCacheInvalidation X = pendingCacheInvalidation (ensured ids s0)"
        "batchInvalidation X = batchInvalidation s0"
    for s' X ids
  proof (cases "batchInvalidation s")
    case True
    then have bx: "batchInvalidation X" using X fr by simp
    show ?thesis
      using True s' schedule_cache(1,2) [OF bx] X ensured_cache(1) [of s0 ids] fr by simp
  next
    case False
    then have bx: "\<not> batchInvalidation X" and b0: "\<not> batchInvalidation s0" using X fr by simp_all
    have "queryCache s' = queryCache (invalidateQueryCaches X)"
      using s' schedule_cache(3) [OF bx] by simp
    also have "\<dots> = queryCache (invalidateQueryCaches (ensured ids s0))"
      using X by simp
    also have "\<dots> = queryCache (invalidateQueryCaches s0)"
      using ensured_cache(3) [OF b0] .
    finally have q: "queryCache s' = (\<lambda>key. map_option (\<lambda>q. q\<lparr>needsUpdate := True\<rparr>) (queryCache s key))"
      using fr by simp
    have p: "pendingCacheInvalidation s' = pendingCacheInvalidation s"
      using s' schedule_cache(4) [OF bx] X ensured_cache(2) [OF b0] fr by simp
    show ?thesis using False q p s' X fr by simp
  qed
  show ?thesis
  proof (cases "entityToArchetype s e")
    case None
    let ?X = "\<lambda>b. inserted e (createSignature [cid]) b [cid \<mapsto> c] (ensured [cid] s0)"
    obtain b where add: "addComponent e k c s = Some (scheduleQueryCacheInvalidation (?X b))"
      using addComponent_first [OF inv g None refl, where c = c] by blast
    have "component_at s e cid = None" using None by (simp add: component_at_none_unlocated)
    then have hf: "map_option fst (hasComponent e k s) = Some False" unfolding hv by simp
    have nh: "(map_option fst (hasComponent e k s) = Some True) = False" by (simp only: hf) simp
    have sc: "batchInvalidation (scheduleQueryCacheInvalidation (?X b)) = batchInvalidation s \<and>
      (if batchInvalidation s
       then queryCache (scheduleQueryCacheInvalidation (?X b)) = queryCache s \<and>
            pendingCacheInvalidation (scheduleQueryCacheInvalidation (?X b))
       else (\<forall>key. queryCache (scheduleQueryCacheInvalidation (?X b)) key =
                    map_option (\<lambda>q. q\<lparr>needsUpdate := True\<rparr>) (queryCache s key)) \<and>
            pendingCacheInvalidation (scheduleQueryCacheInvalidation (?X b)) =
              pendingCacheInvalidation s)"
      by (rule scheduled [OF refl, of "?X b" "[cid]"]) simp_all
    show ?thesis
    proof (intro exI [of _ "scheduleQueryCacheInvalidation (?X b)"] conjI)
      show "addComponent e k c s = Some (scheduleQueryCacheInvalidation (?X b))" by (rule add)
      show "batchInvalidation (scheduleQueryCacheInvalidation (?X b)) = batchInvalidation s"
        using sc by (rule conjunct1)
      show "if map_option fst (hasComponent e k s) = Some True
        then queryCache (scheduleQueryCacheInvalidation (?X b)) = queryCache s \<and>
             pendingCacheInvalidation (scheduleQueryCacheInvalidation (?X b)) =
               pendingCacheInvalidation s
        else if batchInvalidation s
        then queryCache (scheduleQueryCacheInvalidation (?X b)) = queryCache s \<and>
             pendingCacheInvalidation (scheduleQueryCacheInvalidation (?X b))
        else (\<forall>key. queryCache (scheduleQueryCacheInvalidation (?X b)) key =
                    map_option (\<lambda>q. q\<lparr>needsUpdate := True\<rparr>) (queryCache s key)) \<and>
             pendingCacheInvalidation (scheduleQueryCacheInvalidation (?X b)) =
               pendingCacheInvalidation s"
        unfolding nh if_False using sc by (rule conjunct2)
    qed
  next
    case (Some r)
    obtain a i where l: "archetypes s r = Some a" "entityToIndex s e = Some i"
      using heap_located [OF inv Some] by blast
    show ?thesis
    proof (cases "map_of (componentArrays a) cid")
      case col: (Some col)
      then have "component_at s e cid \<noteq> None" using lacking_column [OF inv Some l(1), of cid] by simp
      then have h: "map_option fst (hasComponent e k s) = Some True" unfolding hv by simp
      let ?s' = "s\<lparr>archetypes := (archetypes s)(r \<mapsto>
        a\<lparr>componentArrays := AList.update cid (col[i := c]) (componentArrays a)\<rparr>)\<rparr>"
      have add: "addComponent e k c s = Some ?s'"
        by (rule addComponent_overwrite(1) [OF inv g Some l col])
      show ?thesis
      proof (intro exI [of _ ?s'] conjI)
        show "addComponent e k c s = Some ?s'" by (rule add)
        show "batchInvalidation ?s' = batchInvalidation s" by simp
        show "if map_option fst (hasComponent e k s) = Some True
          then queryCache ?s' = queryCache s \<and>
               pendingCacheInvalidation ?s' = pendingCacheInvalidation s
          else if batchInvalidation s
          then queryCache ?s' = queryCache s \<and> pendingCacheInvalidation ?s'
          else (\<forall>key. queryCache ?s' key =
                    map_option (\<lambda>q. q\<lparr>needsUpdate := True\<rparr>) (queryCache s key)) \<and>
               pendingCacheInvalidation ?s' = pendingCacheInvalidation s"
          unfolding h by simp
      qed
    next
      case None
      then have "component_at s e cid = None" using lacking_column [OF inv Some l(1), of cid] by simp
      then have hf: "map_option fst (hasComponent e k s) = Some False" unfolding hv by simp
      have nh: "(map_option fst (hasComponent e k s) = Some True) = False" by (simp only: hf) simp
      let ?sig = "extendSignature (signature a) cid"
      let ?X = "\<lambda>b. inserted e (createSignature ?sig) b ((row_at a i)(cid \<mapsto> c))
              (detached e r i a (ensured ?sig s0))"
      obtain b where add: "addComponent e k c s = Some (scheduleQueryCacheInvalidation (?X b))"
        using addComponent_migrate [OF inv g Some l None refl refl, where c = c] by blast
      have sc: "batchInvalidation (scheduleQueryCacheInvalidation (?X b)) = batchInvalidation s \<and>
        (if batchInvalidation s
         then queryCache (scheduleQueryCacheInvalidation (?X b)) = queryCache s \<and>
              pendingCacheInvalidation (scheduleQueryCacheInvalidation (?X b))
         else (\<forall>key. queryCache (scheduleQueryCacheInvalidation (?X b)) key =
                      map_option (\<lambda>q. q\<lparr>needsUpdate := True\<rparr>) (queryCache s key)) \<and>
              pendingCacheInvalidation (scheduleQueryCacheInvalidation (?X b)) =
                pendingCacheInvalidation s)"
        by (rule scheduled [OF refl, of "?X b" ?sig]) simp_all
      show ?thesis
      proof (intro exI [of _ "scheduleQueryCacheInvalidation (?X b)"] conjI)
        show "addComponent e k c s = Some (scheduleQueryCacheInvalidation (?X b))" by (rule add)
        show "batchInvalidation (scheduleQueryCacheInvalidation (?X b)) = batchInvalidation s"
          using sc by (rule conjunct1)
        show "if map_option fst (hasComponent e k s) = Some True
          then queryCache (scheduleQueryCacheInvalidation (?X b)) = queryCache s \<and>
               pendingCacheInvalidation (scheduleQueryCacheInvalidation (?X b)) =
                 pendingCacheInvalidation s
          else if batchInvalidation s
          then queryCache (scheduleQueryCacheInvalidation (?X b)) = queryCache s \<and>
               pendingCacheInvalidation (scheduleQueryCacheInvalidation (?X b))
          else (\<forall>key. queryCache (scheduleQueryCacheInvalidation (?X b)) key =
                      map_option (\<lambda>q. q\<lparr>needsUpdate := True\<rparr>) (queryCache s key)) \<and>
               pendingCacheInvalidation (scheduleQueryCacheInvalidation (?X b)) =
                 pendingCacheInvalidation s"
          unfolding nh if_False using sc by (rule conjunct2)
      qed
    qed
  qed
qed

theorem addComponent_invalidation_witness:
  "\<exists>s s'. run [AddComponent 1 0 10, GetEntitiesWithComponents [0]]
        (newComponentManager :: (nat, nat) ComponentManager) = Some s \<and> reachable s \<and>
      \<not> batchInvalidation s \<and> map_option fst (hasComponent 2 0 s) = Some False \<and>
      map_option needsUpdate (queryCache s ''0'') = Some False \<and>
      addComponent 2 0 20 s = Some s' \<and>
      map_option needsUpdate (queryCache s' ''0'') = Some True"
proof -
  let ?ops = "[AddComponent 1 0 10, GetEntitiesWithComponents [0]] :: (nat, nat) operation list"
  obtain s where s: "run ?ops newComponentManager = Some s" "reachable s"
    using run_reachable by blast
  have "Option.bind (run ?ops newComponentManager) (\<lambda>s. Some (batchInvalidation s)) = Some False"
    by code_simp
  then have h1: "\<not> batchInvalidation s" using s by simp
  have "Option.bind (run ?ops newComponentManager) (\<lambda>s. map_option fst (hasComponent 2 0 s)) = Some False"
    by code_simp
  then have h2: "map_option fst (hasComponent 2 0 s) = Some False" using s by simp
  have "Option.bind (run ?ops newComponentManager) (\<lambda>s. map_option needsUpdate (queryCache s ''0''))
      = Some False"
    by code_simp
  then have h3: "map_option needsUpdate (queryCache s ''0'') = Some False" using s by simp
  obtain s' where a: "addComponent 2 0 20 s = Some s'"
    "\<forall>key. queryCache s' key = map_option (\<lambda>q. q\<lparr>needsUpdate := True\<rparr>) (queryCache s key)"
    using addComponent_invalidation [OF s(2), of 2 0 20] h1 h2 by auto
  have "map_option needsUpdate (queryCache s' ''0'') = Some True"
    using a(2) h3 by (cases "queryCache s ''0''") simp_all
  then show ?thesis using s h1 h2 h3 a(1) by blast
qed

text \<open>
  C8 as stated fails: outside a batch, an \<open>addComponent\<close> that overwrites the slot of a
  class the entity already has leaves a clean cache entry clean.
\<close>

theorem addComponent_overwrite_counterexample:
  "Option.bind (run [AddComponent 1 0 10, GetEntitiesWithComponents [0], AddComponent 1 0 11]
       (newComponentManager :: (nat, nat) ComponentManager))
     (\<lambda>s. Some (batchInvalidation s, map_option needsUpdate (queryCache s ''0''),
                 component_at s 1 0))
   = Some (False, Some False, Some 11)"
  by code_simp

section \<open>Query caches\<close>

lemma update_signature_only:
  assumes "cache_signature c1 = cache_signature c2"
    and "cache_entities_addr c1 = cache_entities_addr c2"
  shows "updateQueryCacheOptimized c1 s = updateQueryCacheOptimized c2 s"
proof -
  have r: "\<And>x y z. c1\<lparr>cache_entities := x, cache_archetypes := y, needsUpdate := z\<rparr>
      = c2\<lparr>cache_entities := x, cache_archetypes := y, needsUpdate := z\<rparr>"
    using assms by (cases c1, cases c2) simp
  show ?thesis
    unfolding updateQueryCacheOptimized_def assms(1) r ..
qed

lemma update_result_signature:
  assumes "updateQueryCacheOptimized c s = Some c'"
  shows "cache_signature c' = cache_signature c" "\<not> needsUpdate c'"
    "cache_entities_addr c' = cache_entities_addr c"
  using assms
  by (auto simp: updateQueryCacheOptimized_def split: option.splits list.splits prod.splits
      elim!: bind_eq_Some_conv [THEN iffD1, elim_format])

lemma update_idem:
  assumes "updateQueryCacheOptimized c s = Some c'"
  shows "updateQueryCacheOptimized c' s = Some c'"
  using update_signature_only [OF update_result_signature(1,3) [OF assms], of s] assms by simp

lemma scanCandidates_cong:
  assumes "\<forall>r \<in> set refs.
      map_option (\<lambda>a. (entities a, map fst (componentArrays a))) (heap' r)
      = map_option (\<lambda>a. (entities a, map fst (componentArrays a))) (heap r)"
  shows "scanCandidates heap' sig refs acc = scanCandidates heap sig refs acc"
  using assms
proof (induction refs arbitrary: acc)
  case Nil
  then show ?case by simp
next
  case (Cons r refs)
  obtain ents archs where acc: "acc = (ents, archs)" by (cases acc)
  have v: "map_option (\<lambda>a. (entities a, map fst (componentArrays a))) (heap' r)
      = map_option (\<lambda>a. (entities a, map fst (componentArrays a))) (heap r)"
    using Cons.prems by simp
  have ih: "\<And>acc. scanCandidates heap' sig refs acc = scanCandidates heap sig refs acc"
    using Cons.IH Cons.prems by simp
  show ?case
  proof (cases "heap r")
    case None
    then have "heap' r = None" using v by simp
    then show ?thesis using None acc by simp
  next
    case (Some a)
    then obtain a' where a': "heap' r = Some a'" "entities a' = entities a"
      "map fst (componentArrays a') = map fst (componentArrays a)"
      using v by auto
    have "\<And>cid. (map_of (componentArrays a') cid \<noteq> None) = (map_of (componentArrays a) cid \<noteq> None)"
      using a'(3) by (metis map_of_eq_None_iff set_map)
    then have "list_all (\<lambda>cid. map_of (componentArrays a') cid \<noteq> None) sig
        = list_all (\<lambda>cid. map_of (componentArrays a) cid \<noteq> None) sig"
      by simp
    then show ?thesis using Some a' acc ih by simp
  qed
qed

lemma update_state_cong:
  assumes "\<And>cid. cid \<in> set (cache_signature c) \<Longrightarrow>
      archetypesByComponentId s' cid = archetypesByComponentId s cid"
    and "\<And>r. map_option (\<lambda>a. (entities a, map fst (componentArrays a))) (archetypes s' r)
      = map_option (\<lambda>a. (entities a, map fst (componentArrays a))) (archetypes s r)"
  shows "updateQueryCacheOptimized c s' = updateQueryCacheOptimized c s"
proof (cases "cache_signature c")
  case Nil
  then show ?thesis by (simp add: updateQueryCacheOptimized_def)
next
  case (Cons f rest)
  then have i: "archetypesByComponentId s' f = archetypesByComponentId s f"
    using assms(1) by simp
  have sc: "\<And>refs acc. scanCandidates (archetypes s') (cache_signature c) refs acc
      = scanCandidates (archetypes s) (cache_signature c) refs acc"
    using scanCandidates_cong assms(2) by blast
  show ?thesis
    unfolding updateQueryCacheOptimized_def Cons list.case i
    using sc [unfolded Cons] by (simp split: option.splits)
qed

lemma scanCandidates_closed:
  assumes "\<forall>r \<in> set refs. heap r \<noteq> None"
  shows "\<exists>archs'. scanCandidates heap sig refs (ents, archs) =
     Some (ents @ concat (map (\<lambda>r. entities (the (heap r)))
             (filter (\<lambda>r. list_all (\<lambda>cid. map_of (componentArrays (the (heap r))) cid \<noteq> None) sig)
                refs)),
           archs')"
  using assms
proof (induction refs arbitrary: ents archs)
  case Nil
  then show ?case by simp
next
  case (Cons r refs)
  obtain a where a: "heap r = Some a" using Cons.prems by auto
  have rest: "\<forall>r \<in> set refs. heap r \<noteq> None" using Cons.prems by simp
  show ?case
  proof (cases "list_all (\<lambda>cid. map_of (componentArrays a) cid \<noteq> None) sig")
    case True
    obtain archs' where "scanCandidates heap sig refs (ents @ entities a, set_add r archs) =
       Some ((ents @ entities a) @ concat (map (\<lambda>r. entities (the (heap r)))
             (filter (\<lambda>r. list_all (\<lambda>cid. map_of (componentArrays (the (heap r))) cid \<noteq> None) sig)
                refs)), archs')"
      using Cons.IH [OF rest] by blast
    then show ?thesis using a True by simp
  next
    case False
    obtain archs' where "scanCandidates heap sig refs (ents, archs) =
       Some (ents @ concat (map (\<lambda>r. entities (the (heap r)))
             (filter (\<lambda>r. list_all (\<lambda>cid. map_of (componentArrays (the (heap r))) cid \<noteq> None) sig)
                refs)), archs')"
      using Cons.IH [OF rest] by blast
    then show ?thesis using a False by simp
  qed
qed

lemma mset_concat_map:
  "mset (concat (map f xs)) = sum_mset (image_mset (\<lambda>x. mset (f x)) (mset xs))"
  by (induction xs) simp_all

text \<open>
  The order in which the candidate set is iterated does not matter to what a scan lists:
  any two orders give the same entities, each the same number of times.
\<close>

lemma scanCandidates_any_order:
  assumes "\<forall>r \<in> set refs. heap r \<noteq> None" and "mset refs' = mset refs"
  shows "\<exists>ents archs ents' archs'.
     scanCandidates heap sig refs ([], []) = Some (ents, archs) \<and>
     scanCandidates heap sig refs' ([], []) = Some (ents', archs') \<and>
     mset ents' = mset ents"
proof -
  let ?m = "\<lambda>r. list_all (\<lambda>cid. map_of (componentArrays (the (heap r))) cid \<noteq> None) sig"
  let ?f = "\<lambda>r. entities (the (heap r))"
  have "set refs' = set refs" using assms(2) by (rule mset_eq_setD)
  then have d': "\<forall>r \<in> set refs'. heap r \<noteq> None" using assms(1) by simp
  obtain archs where a: "scanCandidates heap sig refs ([], []) =
      Some ([] @ concat (map ?f (filter ?m refs)), archs)"
    using scanCandidates_closed [OF assms(1), of sig "[]" "[]"] by blast
  obtain archs' where a': "scanCandidates heap sig refs' ([], []) =
      Some ([] @ concat (map ?f (filter ?m refs')), archs')"
    using scanCandidates_closed [OF d', of sig "[]" "[]"] by blast
  have "mset (filter ?m refs') = mset (filter ?m refs)" using assms(2) by simp
  then have "mset (concat (map ?f (filter ?m refs'))) = mset (concat (map ?f (filter ?m refs)))"
    unfolding mset_concat_map by simp
  then show ?thesis using a a' by simp
qed

lemma distinct_concat_map:
  assumes "distinct refs" "\<forall>r \<in> set refs. distinct (f r)"
    and "\<forall>r \<in> set refs. \<forall>r' \<in> set refs. r \<noteq> r' \<longrightarrow> set (f r) \<inter> set (f r') = {}"
  shows "distinct (concat (map f refs))"
  using assms
proof (induction refs)
  case Nil
  then show ?case by simp
next
  case (Cons r refs)
  have "distinct (concat (map f refs))" using Cons by simp
  moreover have "distinct (f r)" using Cons.prems by simp
  moreover have "set (f r) \<inter> set (concat (map f refs)) = {}"
  proof -
    have "\<forall>r' \<in> set refs. set (f r) \<inter> set (f r') = {}"
      using Cons.prems by auto
    then show ?thesis by auto
  qed
  ultimately show ?case by simp
qed

text \<open>A recomputed cache entry lists exactly the members of the matching archetypes, once each.\<close>

lemma update_correct:
  assumes inv: "heap_inv s" and sig: "cache_signature c \<noteq> []"
    and reg: "\<forall>cid \<in> set (cache_signature c). cid < componentIdCounter s"
    and u: "updateQueryCacheOptimized c s = Some c'"
  shows "set (cache_entities c') = members s (cache_signature c)"
    and "distinct (cache_entities c')"
proof -
  obtain f rest where fr: "cache_signature c = f # rest" using sig by (cases "cache_signature c") auto
  have "f < componentIdCounter s" using reg fr by simp
  then obtain refs where refs: "archetypesByComponentId s f = Some refs"
    using inv by (auto simp: heap_inv_def registry_ok_def)
  have isd: "index_sound s" and ic: "index_complete s" and ml: "members_located s"
    and ok: "archetypes_ok s"
    using inv by (simp_all add: heap_inv_def)
  have der: "\<forall>r \<in> set refs. archetypes s r \<noteq> None" using index_derefs [OF inv refs] .
  have dr: "distinct refs" using isd refs unfolding index_sound_def by blast
  let ?m = "\<lambda>r. list_all (\<lambda>cid. map_of (componentArrays (the (archetypes s r))) cid \<noteq> None)
                    (cache_signature c)"
  let ?f = "\<lambda>r. entities (the (archetypes s r))"
  obtain archs' where sc: "scanCandidates (archetypes s) (cache_signature c) refs ([], []) =
      Some ([] @ concat (map ?f (filter ?m refs)), archs')"
    using scanCandidates_closed [OF der, of "cache_signature c" "[]" "[]"] by blast
  have ce: "cache_entities c' = concat (map ?f (filter ?m refs))"
    using u refs sc unfolding updateQueryCacheOptimized_def fr by (auto simp: fr)
  have match: "\<And>r a. archetypes s r = Some a \<Longrightarrow>
      ?m r = (set (cache_signature c) \<subseteq> set (signature a))"
  proof -
    fix r a assume a: "archetypes s r = Some a"
    then have "archetype_ok r a" using ok by (simp add: archetypes_ok_def)
    then have "\<And>cid. (map_of (componentArrays a) cid \<noteq> None) = (cid \<in> set (signature a))"
      using column_of_signature(1) by blast
    then show "?m r = (set (cache_signature c) \<subseteq> set (signature a))"
      using a by (auto simp: list_all_iff)
  qed
  show "set (cache_entities c') = members s (cache_signature c)"
  proof (intro set_eqI iffI)
    fix e assume "e \<in> set (cache_entities c')"
    then obtain r where r: "r \<in> set refs" "?m r" "e \<in> set (?f r)" using ce by auto
    then obtain a where a: "archetypes s r = Some a" using der by auto
    then show "e \<in> members s (cache_signature c)"
      using r match [OF a] unfolding members_def by auto
  next
    fix e assume "e \<in> members s (cache_signature c)"
    then obtain key a where a: "archetypes s key = Some a"
      "set (cache_signature c) \<subseteq> set (signature a)" "e \<in> set (entities a)"
      unfolding members_def by blast
    then have "f \<in> set (signature a)" using fr by auto
    then have "key \<in> set refs" using ic a(1) refs unfolding index_complete_def by fastforce
    moreover have "?m key" using match [OF a(1)] a(2) by simp
    ultimately show "e \<in> set (cache_entities c')" using ce a by auto
  qed
  have d1: "\<forall>r \<in> set (filter ?m refs). distinct (?f r)"
  proof
    fix r assume "r \<in> set (filter ?m refs)"
    then obtain a where "archetypes s r = Some a" using der by auto
    then show "distinct (?f r)" using members_distinct [OF ml] by simp
  qed
  have d2: "\<forall>r \<in> set (filter ?m refs). \<forall>r' \<in> set (filter ?m refs).
      r \<noteq> r' \<longrightarrow> set (?f r) \<inter> set (?f r') = {}"
  proof (intro ballI impI)
    fix r r' assume rr: "r \<in> set (filter ?m refs)" "r' \<in> set (filter ?m refs)" "r \<noteq> r'"
    then have "r \<in> set refs" "r' \<in> set refs" by simp_all
    then obtain a a' where a: "archetypes s r = Some a" "archetypes s r' = Some a'"
      using der by blast
    show "set (?f r) \<inter> set (?f r') = {}"
    proof (rule ccontr)
      assume "set (?f r) \<inter> set (?f r') \<noteq> {}"
      then obtain e where "e \<in> set (entities a)" "e \<in> set (entities a')" using a by auto
      then obtain i j where ij: "i < length (entities a)" "entities a ! i = e"
        "j < length (entities a')" "entities a' ! j = e"
        by (metis in_set_conv_nth)
      have "entityToArchetype s (entities a ! i) = Some r"
        using ml a(1) ij(1) unfolding members_located_def by blast
      moreover have "entityToArchetype s (entities a' ! j) = Some r'"
        using ml a(2) ij(3) unfolding members_located_def by blast
      ultimately show False using rr(3) ij by simp
    qed
  qed
  show "distinct (cache_entities c')"
    unfolding ce using distinct_concat_map [of "filter ?m refs" ?f] dr d1 d2 by simp
qed

section \<open>The cache invariant is kept by every operation\<close>

lemma arrayCounter_fields [simp]:
  "arrayCounter (detached e r i a s) = arrayCounter s"
  "arrayCounter (inserted e r b row s) = arrayCounter s"
  "arrayCounter (created ids s) = arrayCounter s"
  "arrayCounter (invalidateQueryCaches s) = arrayCounter s"
  "arrayCounter (scheduleQueryCacheInvalidation s) = arrayCounter s"
  by (simp_all add: detached_def inserted_def created_def invalidateQueryCaches_def
      scheduleQueryCacheInvalidation_def Let_def)

lemma arrayCounter_ensured [simp]: "arrayCounter (ensured ids s) = arrayCounter s"
  by (simp add: ensured_def split: option.splits)

lemma getComponentId_arrayCounter:
  assumes "getComponentId k s = (cid, s0)"
  shows "arrayCounter s0 = arrayCounter s"
  using assms by (auto simp: getComponentId_def Let_def split: option.splits)

lemma getComponentIds_arrayCounter:
  assumes "getComponentIds ks s = (ids, s1)"
  shows "arrayCounter s1 = arrayCounter s"
  using assms
proof (induction ks arbitrary: s ids s1)
  case Nil
  then show ?case by simp
next
  case (Cons k ks)
  obtain cid s0 where g: "getComponentId k s = (cid, s0)" by (cases "getComponentId k s")
  obtain ids' s2 where g2: "getComponentIds ks s0 = (ids', s2)" by (cases "getComponentIds ks s0")
  have "s1 = s2" using Cons.prems g g2 by simp
  then show ?case using Cons.IH [OF g2] getComponentId_arrayCounter [OF g] by simp
qed

lemma cache_struct_frame:
  assumes "queryCache s' = queryCache s" "componentIdCounter s \<le> componentIdCounter s'"
    "pendingCacheInvalidation s' = pendingCacheInvalidation s"
    "batchInvalidation s' = batchInvalidation s" "cache_struct s"
    "arrayCounter s \<le> arrayCounter s'"
  shows "cache_struct s'"
  using assms unfolding cache_struct_def by fastforce

lemma cache_struct_schedule:
  assumes "cache_struct s"
  shows "cache_struct (scheduleQueryCacheInvalidation s)"
  using assms unfolding cache_struct_def scheduleQueryCacheInvalidation_def invalidateQueryCaches_def
  by auto

lemma cache_fresh_schedule:
  assumes "cache_struct s"
  shows "cache_fresh (scheduleQueryCacheInvalidation s)"
  using assms unfolding cache_struct_def cache_fresh_def scheduleQueryCacheInvalidation_def
    invalidateQueryCaches_def
  by auto

lemma store_inv_schedule:
  assumes "heap_inv s" "cache_struct s"
  shows "store_inv (scheduleQueryCacheInvalidation s)"
  using assms cache_struct_schedule cache_fresh_schedule heap_inv_schedule
  unfolding store_inv_def by blast

lemma cache_struct_ensured:
  assumes "cache_struct s"
  shows "cache_struct (ensured ids s)"
proof (cases "archetypes s (createSignature ids)")
  case None
  have "cache_struct (created ids s)"
    using cache_struct_frame [OF _ _ _ _ assms, of "created ids s"] by simp
  then show ?thesis using None cache_struct_schedule by (simp add: ensured_def)
next
  case (Some a)
  then show ?thesis using assms by (simp add: ensured_def)
qed

lemma cache_struct_detached:
  "cache_struct s \<Longrightarrow> cache_struct (detached e r i a s)"
  using cache_struct_frame [of "detached e r i a s" s] by simp

lemma cache_struct_inserted:
  "cache_struct s \<Longrightarrow> cache_struct (inserted e r b row s)"
  using cache_struct_frame [of "inserted e r b row s" s] by simp

text \<open>A change that leaves member lists, column keys and the index of registered ids alone.\<close>

lemma store_inv_frame:
  assumes inv: "store_inv s" and h: "heap_inv s'"
    and a: "\<And>r. map_option (\<lambda>a. (entities a, map fst (componentArrays a))) (archetypes s' r)
      = map_option (\<lambda>a. (entities a, map fst (componentArrays a))) (archetypes s r)"
    and q: "queryCache s' = queryCache s"
    and b: "batchInvalidation s' = batchInvalidation s"
    and p: "pendingCacheInvalidation s' = pendingCacheInvalidation s"
    and n: "componentIdCounter s \<le> componentIdCounter s'"
    and i: "\<And>c. c < componentIdCounter s \<Longrightarrow>
      archetypesByComponentId s' c = archetypesByComponentId s c"
    and ac: "arrayCounter s \<le> arrayCounter s'"
  shows "store_inv s'"
proof -
  have cs: "cache_struct s" and cf: "cache_fresh s" using inv by (simp_all add: store_inv_def)
  have cs': "cache_struct s'" using cache_struct_frame [OF q n p b cs ac] .
  have "cache_fresh s'"
    unfolding cache_fresh_def
  proof (intro allI impI)
    fix key c
    assume c: "queryCache s' key = Some c" "\<not> needsUpdate c" "\<not> pendingCacheInvalidation s'"
    have c0: "queryCache s key = Some c" using c(1) q by simp
    have reg: "\<forall>cid \<in> set (cache_signature c). cid < componentIdCounter s"
      using cs c0 unfolding cache_struct_def by blast
    have "updateQueryCacheOptimized c s = Some c"
      using cf c0 c(2,3) p unfolding cache_fresh_def by simp
    moreover have "updateQueryCacheOptimized c s' = updateQueryCacheOptimized c s"
      using update_state_cong [of c s' s] i reg a by blast
    ultimately show "updateQueryCacheOptimized c s' = Some c" by simp
  qed
  then show ?thesis using h cs' by (simp add: store_inv_def)
qed

lemma getComponentId_store_inv:
  assumes inv: "store_inv s" and g: "getComponentId k s = (cid, s0)"
  shows "store_inv s0"
proof -
  have h: "heap_inv s" using inv by (simp add: store_inv_def)
  then have r: "registry_ok s" by (simp add: heap_inv_def)
  show ?thesis
    using store_inv_frame [OF inv getComponentId_inv [OF h g]]
      getComponentId_frame [OF g] getComponentId_keeps(2) [OF g r]
      getComponentId_arrayCounter [OF g]
    by simp
qed

lemma getComponentIds_store_inv:
  assumes "store_inv s" "getComponentIds ks s = (ids, s1)"
  shows "store_inv s1"
  using assms
proof (induction ks arbitrary: s ids s1)
  case Nil
  then show ?case by simp
next
  case (Cons k ks)
  obtain cid s0 where g: "getComponentId k s = (cid, s0)" by (cases "getComponentId k s")
  obtain ids' s2 where g2: "getComponentIds ks s0 = (ids', s2)" by (cases "getComponentIds ks s0")
  have "s1 = s2" using Cons.prems(2) g g2 by simp
  then show ?case using Cons.IH [OF getComponentId_store_inv [OF Cons.prems(1) g] g2] by simp
qed

lemma overwrite_store_inv:
  assumes inv: "store_inv s" and a: "archetypes s r = Some a"
    and col: "map_of (componentArrays a) cid = Some col"
    and h: "heap_inv (s\<lparr>archetypes := (archetypes s)(r \<mapsto>
        a\<lparr>componentArrays := AList.update cid col' (componentArrays a)\<rparr>)\<rparr>)"
  shows "store_inv (s\<lparr>archetypes := (archetypes s)(r \<mapsto>
        a\<lparr>componentArrays := AList.update cid col' (componentArrays a)\<rparr>)\<rparr>)"
proof -
  have "(cid, col) \<in> set (componentArrays a)" using col by (rule map_of_SomeD)
  then have "cid \<in> fst ` set (componentArrays a)" by force
  then have k: "map fst (AList.update cid col' (componentArrays a)) = map fst (componentArrays a)"
    by (simp add: update_keys)
  show ?thesis
    using store_inv_frame [OF inv h] a k by simp
qed

lemma startBatch_store_inv:
  assumes "store_inv s"
  shows "store_inv (startBatch s)"
proof -
  have cs: "cache_struct s" and cf: "cache_fresh s" and h: "heap_inv s"
    using assms by (simp_all add: store_inv_def)
  have u: "\<And>c. updateQueryCacheOptimized c (startBatch s) = updateQueryCacheOptimized c s"
    using update_state_cong [of _ "startBatch s" s] by (simp add: startBatch_def)
  have "cache_struct (startBatch s)" using cs by (simp add: cache_struct_def startBatch_def)
  moreover have "cache_fresh (startBatch s)"
    using cf unfolding cache_fresh_def u by (simp add: startBatch_def)
  ultimately show ?thesis using h by (simp add: store_inv_def startBatch_def)
qed

lemma endBatch_fields:
  "\<not> pendingCacheInvalidation (endBatch s)" "\<not> batchInvalidation (endBatch s)"
  "archetypes (endBatch s) = archetypes s"
  "archetypesByComponentId (endBatch s) = archetypesByComponentId s"
  "componentIdCounter (endBatch s) = componentIdCounter s"
  by (simp_all add: endBatch_def Let_def invalidateQueryCaches_def)

lemma endBatch_store_inv:
  assumes "store_inv s"
  shows "store_inv (endBatch s)"
proof -
  have cs: "cache_struct s" and cf: "cache_fresh s" and h: "heap_inv s"
    using assms by (simp_all add: store_inv_def)
  have u: "\<And>c. updateQueryCacheOptimized c (endBatch s) = updateQueryCacheOptimized c s"
    using update_state_cong [of _ "endBatch s" s] by (simp add: endBatch_fields)
  have "cache_struct (endBatch s)"
    using cs unfolding cache_struct_def endBatch_def Let_def invalidateQueryCaches_def by auto
  moreover have "cache_fresh (endBatch s)"
    using cf unfolding cache_fresh_def u
    unfolding endBatch_def Let_def invalidateQueryCaches_def by auto
  ultimately show ?thesis using h by (simp add: store_inv_def)
qed

lemma allocate_store_inv:
  assumes "store_inv s"
  shows "store_inv (s\<lparr>arrayCounter := arrayCounter s + 1\<rparr>)"
proof -
  have "heap_inv (s\<lparr>arrayCounter := arrayCounter s + 1\<rparr>)"
    using assms by (simp add: store_inv_def)
  then show ?thesis using store_inv_frame [OF assms, of "s\<lparr>arrayCounter := arrayCounter s + 1\<rparr>"]
    by simp
qed

lemma clearQueryCache_store_inv:
  assumes "store_inv s"
  shows "store_inv (clearQueryCache s)"
  using assms
  by (simp add: store_inv_def cache_struct_def cache_fresh_def clearQueryCache_def)

lemma querySignature_set: "set (querySignature ids) = set ids" "length (querySignature ids) = length ids"
  by (simp_all add: querySignature_def array_sort_sort)

text \<open>
  The closed form of a query: the entry under the key is replaced by its recomputation
  when it is missing or dirty, and kept otherwise; a missing entry gets a new array, and
  the result is a new array.
\<close>

lemma query_closed:
  assumes h: "heap_inv s" and ks: "ks \<noteq> []" and g: "getComponentIds ks s = (ids, s1)"
  obtains c n c' where
    "(c, n) = (case queryCache s1 (createSignature (querySignature ids)) of
            Some c \<Rightarrow> (c, arrayCounter s1)
          | None \<Rightarrow> (\<lparr>cache_signature = querySignature ids, cache_entities = [],
                       cache_entities_addr = arrayCounter s1, cache_archetypes = [],
                       needsUpdate = True\<rparr>, arrayCounter s1 + 1))"
    "needsUpdate c \<longrightarrow> updateQueryCacheOptimized c s1 = Some c'"
    "\<not> needsUpdate c \<longrightarrow> c' = c"
    "getEntitiesWithComponents ks s =
       Some ((n, cache_entities c'),
             s1\<lparr>queryCache := (queryCache s1)(createSignature (querySignature ids) \<mapsto> c'),
                arrayCounter := n + 1\<rparr>)"
proof -
  let ?key = "createSignature (querySignature ids)"
  have h1: "heap_inv s1" using getComponentIds_inv [OF h g] by simp
  have tot: "\<And>c. \<exists>c'. updateQueryCacheOptimized c s1 = Some c'"
    using updateQueryCache_total [OF h1] by blast
  show thesis
  proof (cases "queryCache s1 ?key")
    case None
    let ?c = "\<lparr>cache_signature = querySignature ids, cache_entities = [],
               cache_entities_addr = arrayCounter s1, cache_archetypes = [],
               needsUpdate = True\<rparr>"
    obtain u where u: "updateQueryCacheOptimized ?c s1 = Some u" using tot by blast
    have "getEntitiesWithComponents ks s =
       Some ((arrayCounter s1 + 1, cache_entities u),
             s1\<lparr>queryCache := (queryCache s1)(?key \<mapsto> u),
                arrayCounter := arrayCounter s1 + 1 + 1\<rparr>)"
      using ks g u None by (simp add: getEntitiesWithComponents_def Let_def)
    then show thesis using that [of ?c "arrayCounter s1 + 1" u] u None by simp
  next
    case (Some c)
    obtain u where u: "updateQueryCacheOptimized c s1 = Some u" using tot by blast
    let ?c' = "if needsUpdate c then u else c"
    have "getEntitiesWithComponents ks s =
       Some ((arrayCounter s1, cache_entities ?c'),
             s1\<lparr>queryCache := (queryCache s1)(?key \<mapsto> ?c'),
                arrayCounter := arrayCounter s1 + 1\<rparr>)"
      using ks g u Some by (simp add: getEntitiesWithComponents_def Let_def)
    then show thesis using that [of c "arrayCounter s1" ?c'] u Some by simp
  qed
qed

lemma query_store_inv:
  assumes inv: "store_inv s" and ks: "ks \<noteq> []"
  shows "\<exists>r res s'. getEntitiesWithComponents ks s = Some ((r, res), s') \<and> store_inv s' \<and>
     batchInvalidation s' = batchInvalidation s \<and>
     pendingCacheInvalidation s' = pendingCacheInvalidation s \<and>
     archetypes s' = archetypes s \<and>
     (\<exists>c'. queryCache s' (createSignature (querySignature (fst (getComponentIds ks s)))) = Some c' \<and>
           cache_entities c' = res \<and>
           cache_signature c' = querySignature (fst (getComponentIds ks s))) \<and>
     (\<forall>key c. queryCache s' key = Some c \<longrightarrow> cache_entities_addr c < r) \<and>
     (\<forall>c. queryCache s (createSignature (querySignature (fst (getComponentIds ks s)))) = Some c \<longrightarrow>
          \<not> needsUpdate c \<longrightarrow> res = cache_entities c) \<and>
     ((\<forall>c. queryCache s (createSignature (querySignature (fst (getComponentIds ks s)))) = Some c \<longrightarrow>
           \<not> needsUpdate c \<longrightarrow> \<not> pendingCacheInvalidation s) \<longrightarrow>
        distinct res \<and> set res = members s (fst (getComponentIds ks s)))"
proof -
  have h: "heap_inv s" using inv by (simp add: store_inv_def)
  obtain ids s1 where g: "getComponentIds ks s = (ids, s1)" by (cases "getComponentIds ks s")
  have f: "heap_inv s1" "archetypes s1 = archetypes s" "queryCache s1 = queryCache s"
    "batchInvalidation s1 = batchInvalidation s"
    "pendingCacheInvalidation s1 = pendingCacheInvalidation s"
    "\<forall>cid \<in> set ids. cid < componentIdCounter s1" "length ids = length ks"
    using getComponentIds_inv [OF h g] by simp_all
  have inv1: "store_inv s1" using getComponentIds_store_inv [OF inv g] .
  then have cs1: "cache_struct s1" and cf1: "cache_fresh s1" by (simp_all add: store_inv_def)
  let ?key = "createSignature (querySignature ids)"
  obtain c n c' where c: "(c, n) = (case queryCache s1 ?key of
            Some c \<Rightarrow> (c, arrayCounter s1)
          | None \<Rightarrow> (\<lparr>cache_signature = querySignature ids, cache_entities = [],
                       cache_entities_addr = arrayCounter s1, cache_archetypes = [],
                       needsUpdate = True\<rparr>, arrayCounter s1 + 1))"
    and up0: "needsUpdate c \<longrightarrow> updateQueryCacheOptimized c s1 = Some c'"
    and keep0: "\<not> needsUpdate c \<longrightarrow> c' = c"
    and run: "getEntitiesWithComponents ks s =
       Some ((n, cache_entities c'),
             s1\<lparr>queryCache := (queryCache s1)(?key \<mapsto> c'), arrayCounter := n + 1\<rparr>)"
    by (rule query_closed [OF h ks g])
  have up: "needsUpdate c \<Longrightarrow> updateQueryCacheOptimized c s1 = Some c'" using up0 by simp
  have keep: "\<not> needsUpdate c \<Longrightarrow> c' = c" using keep0 by simp
  let ?s' = "s1\<lparr>queryCache := (queryCache s1)(?key \<mapsto> c'), arrayCounter := n + 1\<rparr>"
  have ne: "querySignature ids \<noteq> []" using f(7) ks querySignature_set(2) [of ids] by auto
  have old: "\<And>d. queryCache s1 ?key = Some d \<Longrightarrow> c = d \<and> n = arrayCounter s1"
    using c by simp
  have new: "queryCache s1 ?key = None \<Longrightarrow> needsUpdate c \<and> cache_signature c = querySignature ids \<and>
      cache_entities_addr c = arrayCounter s1 \<and> n = arrayCounter s1 + 1"
    using c by simp
  have csig: "cache_signature c = querySignature ids \<and>
      (\<forall>cid \<in> set (cache_signature c). cid < componentIdCounter s1) \<and>
      cache_entities_addr c < n \<and> arrayCounter s1 \<le> n"
  proof (cases "queryCache s1 ?key")
    case None
    then show ?thesis using new f(6) by (simp add: querySignature_set)
  next
    case (Some d)
    have "createSignature (cache_signature d) = createSignature (querySignature ids)"
      using Some cs1 unfolding cache_struct_def by blast
    then have "cache_signature d = querySignature ids" by (rule createSignature_inj)
    then show ?thesis using old [OF Some] Some cs1 unfolding cache_struct_def by auto
  qed
  have sig': "cache_signature c' = cache_signature c"
    "cache_entities_addr c' = cache_entities_addr c"
  proof -
    show "cache_signature c' = cache_signature c"
      using up keep update_result_signature(1) [of c s1 c'] by (cases "needsUpdate c") simp_all
    show "cache_entities_addr c' = cache_entities_addr c"
      using up keep update_result_signature(3) [of c s1 c'] by (cases "needsUpdate c") simp_all
  qed
  have u': "\<And>d. updateQueryCacheOptimized d ?s' = updateQueryCacheOptimized d s1"
    using update_state_cong [of _ ?s' s1] by simp
  have fresh': "needsUpdate c \<or> \<not> pendingCacheInvalidation s1 \<Longrightarrow>
      updateQueryCacheOptimized c' s1 = Some c'"
  proof (cases "needsUpdate c")
    case True
    then show ?thesis using up update_idem by blast
  next
    case False
    assume "needsUpdate c \<or> \<not> pendingCacheInvalidation s1"
    then have np: "\<not> pendingCacheInvalidation s1" using False by simp
    obtain d where d: "queryCache s1 ?key = Some d" using False new by (cases "queryCache s1 ?key") auto
    then have "c = d" using old by simp
    then show ?thesis using cf1 d False np keep unfolding cache_fresh_def by auto
  qed
  have "cache_struct ?s'"
    unfolding cache_struct_def
  proof (intro conjI allI impI)
    fix key d assume d: "queryCache ?s' key = Some d"
    have "createSignature (cache_signature d) = key \<and> cache_signature d \<noteq> [] \<and>
        (\<forall>cid \<in> set (cache_signature d). cid < componentIdCounter s1) \<and>
        cache_entities_addr d < n + 1"
    proof (cases "key = ?key")
      case True
      then have "d = c'" using d by simp
      then show ?thesis using True csig sig' ne by simp
    next
      case False
      then have q: "queryCache s1 key = Some d" using d by simp
      have "cache_entities_addr d < arrayCounter s1" using q cs1 unfolding cache_struct_def by blast
      then have "cache_entities_addr d < n + 1" using csig by simp
      then show ?thesis using q cs1 unfolding cache_struct_def by blast
    qed
    then show "createSignature (cache_signature d) = key" "cache_signature d \<noteq> []"
      "\<forall>cid \<in> set (cache_signature d). cid < componentIdCounter ?s'"
      "cache_entities_addr d < arrayCounter ?s'"
      by simp_all
  next
    assume "pendingCacheInvalidation ?s'"
    then show "batchInvalidation ?s'" using cs1 unfolding cache_struct_def by simp
  qed
  moreover have "cache_fresh ?s'"
    unfolding cache_fresh_def u'
  proof (intro allI impI)
    fix key d
    assume d: "queryCache ?s' key = Some d" "\<not> needsUpdate d" "\<not> pendingCacheInvalidation ?s'"
    show "updateQueryCacheOptimized d s1 = Some d"
    proof (cases "key = ?key")
      case True
      then have "d = c'" using d(1) by simp
      then show ?thesis using fresh' d(3) by simp
    next
      case False
      then have "queryCache s1 key = Some d" using d(1) by simp
      then show ?thesis using cf1 d(2,3) unfolding cache_fresh_def by simp
    qed
  qed
  ultimately have inv': "store_inv ?s'" using f(1) by (simp add: store_inv_def)
  have addr: "\<forall>key d. queryCache ?s' key = Some d \<longrightarrow> cache_entities_addr d < n"
  proof (intro allI impI)
    fix key d assume d: "queryCache ?s' key = Some d"
    show "cache_entities_addr d < n"
    proof (cases "key = ?key")
      case True
      then show ?thesis using d csig sig' by simp
    next
      case False
      then have "queryCache s1 key = Some d" using d by simp
      then have "cache_entities_addr d < arrayCounter s1" using cs1 unfolding cache_struct_def by blast
      then show ?thesis using csig by simp
    qed
  qed
  have cached: "\<forall>d. queryCache s ?key = Some d \<longrightarrow> \<not> needsUpdate d \<longrightarrow> cache_entities c' = cache_entities d"
    using old keep f(3) by auto
  have exact: "distinct (cache_entities c') \<and> set (cache_entities c') = members s ids"
    if "\<forall>d. queryCache s ?key = Some d \<longrightarrow> \<not> needsUpdate d \<longrightarrow> \<not> pendingCacheInvalidation s"
  proof -
    have "needsUpdate c \<or> \<not> pendingCacheInvalidation s1"
    proof (cases "queryCache s1 ?key")
      case None
      then show ?thesis using new by simp
    next
      case (Some d)
      then show ?thesis using old [OF Some] that f(3,5) by auto
    qed
    then have "updateQueryCacheOptimized c' s1 = Some c'" using fresh' by simp
    moreover have "cache_signature c' \<noteq> []"
      "\<forall>cid \<in> set (cache_signature c'). cid < componentIdCounter s1"
      using csig sig' ne by simp_all
    ultimately have "set (cache_entities c') = members s1 (cache_signature c')"
      "distinct (cache_entities c')"
      using update_correct [OF f(1), of c' c'] by blast+
    moreover have "set (cache_signature c') = set ids"
      using csig sig' by (simp add: querySignature_set)
    moreover have "members s1 (cache_signature c') = members s ids"
      using calculation(3) f(2) by (simp add: members_def)
    ultimately show ?thesis by simp
  qed
  have entry: "\<exists>d. queryCache ?s' ?key = Some d \<and> cache_entities d = cache_entities c' \<and>
      cache_signature d = querySignature ids"
    using csig sig' by simp
  show ?thesis
  proof (intro exI [of _ n] exI [of _ "cache_entities c'"] exI [of _ ?s'] conjI)
    show "getEntitiesWithComponents ks s = Some ((n, cache_entities c'), ?s')" by (rule run)
    show "store_inv ?s'" by (rule inv')
    show "batchInvalidation ?s' = batchInvalidation s" using f(4) by simp
    show "pendingCacheInvalidation ?s' = pendingCacheInvalidation s" using f(5) by simp
    show "archetypes ?s' = archetypes s" using f(2) by simp
    show "\<exists>c'a. queryCache ?s' (createSignature (querySignature (fst (getComponentIds ks s)))) = Some c'a \<and>
           cache_entities c'a = cache_entities c' \<and>
           cache_signature c'a = querySignature (fst (getComponentIds ks s))"
      using entry g by simp
    show "\<forall>key c. queryCache ?s' key = Some c \<longrightarrow> cache_entities_addr c < n" by (rule addr)
    show "\<forall>c. queryCache s (createSignature (querySignature (fst (getComponentIds ks s)))) = Some c \<longrightarrow>
          \<not> needsUpdate c \<longrightarrow> cache_entities c' = cache_entities c"
      using cached g by simp
    show "(\<forall>c. queryCache s (createSignature (querySignature (fst (getComponentIds ks s)))) = Some c \<longrightarrow>
           \<not> needsUpdate c \<longrightarrow> \<not> pendingCacheInvalidation s) \<longrightarrow>
        distinct (cache_entities c') \<and> set (cache_entities c') = members s (fst (getComponentIds ks s))"
      using exact g by simp
  qed
qed

lemma addComponent_store_inv:
  assumes inv: "store_inv s"
  shows "\<exists>s'. addComponent e k c s = Some s' \<and> store_inv s' \<and>
           batchInvalidation s' = batchInvalidation s"
proof -
  have h: "heap_inv s" using inv by (simp add: store_inv_def)
  obtain cid s0 where g: "getComponentId k s = (cid, s0)" by (cases "getComponentId k s")
  have cs0: "cache_struct s0"
    using getComponentId_store_inv [OF inv g] by (simp add: store_inv_def)
  have b0: "batchInvalidation s0 = batchInvalidation s" using getComponentId_frame(5) [OF g] .
  show ?thesis
  proof (cases "entityToArchetype s e")
    case None
    obtain b where b: "addComponent e k c s =
       Some (scheduleQueryCacheInvalidation
          (inserted e (createSignature [cid]) b [cid \<mapsto> c] (ensured [cid] s0)))"
      "heap_inv (inserted e (createSignature [cid]) b [cid \<mapsto> c] (ensured [cid] s0))"
      using addComponent_first [OF h g None refl, where c = c] by metis
    have "store_inv (scheduleQueryCacheInvalidation
          (inserted e (createSignature [cid]) b [cid \<mapsto> c] (ensured [cid] s0)))"
      using store_inv_schedule [OF b(2) cache_struct_inserted [OF cache_struct_ensured [OF cs0]]] .
    then show ?thesis using b(1) b0 by simp
  next
    case (Some r)
    obtain a i where l: "archetypes s r = Some a" "entityToIndex s e = Some i"
      using heap_located [OF h Some] by blast
    show ?thesis
    proof (cases "map_of (componentArrays a) cid")
      case None
      let ?ids = "extendSignature (signature a) cid"
      obtain b where b: "addComponent e k c s =
         Some (scheduleQueryCacheInvalidation
           (inserted e (createSignature ?ids) b ((row_at a i)(cid \<mapsto> c))
              (detached e r i a (ensured ?ids s0))))"
        "heap_inv (inserted e (createSignature ?ids) b ((row_at a i)(cid \<mapsto> c))
              (detached e r i a (ensured ?ids s0)))"
        using addComponent_migrate [OF h g Some l None refl refl, where c = c] by metis
      have "store_inv (scheduleQueryCacheInvalidation
           (inserted e (createSignature ?ids) b ((row_at a i)(cid \<mapsto> c))
              (detached e r i a (ensured ?ids s0))))"
        using store_inv_schedule [OF b(2) cache_struct_inserted
            [OF cache_struct_detached [OF cache_struct_ensured [OF cs0]]]] .
      then show ?thesis using b(1) b0 by simp
    next
      case col: (Some col)
      have o: "addComponent e k c s =
         Some (s\<lparr>archetypes := (archetypes s)(r \<mapsto>
            a\<lparr>componentArrays := AList.update cid (col[i := c]) (componentArrays a)\<rparr>)\<rparr>)"
        "heap_inv (s\<lparr>archetypes := (archetypes s)(r \<mapsto>
            a\<lparr>componentArrays := AList.update cid (col[i := c]) (componentArrays a)\<rparr>)\<rparr>)"
        using addComponent_overwrite(1,2) [OF h g Some l col, where c = c] by simp_all
      show ?thesis using o(1) overwrite_store_inv [OF inv l(1) col o(2)] by simp
    qed
  qed
qed

lemma removeAllComponents_store_inv:
  assumes inv: "store_inv s"
  shows "\<exists>s'. removeAllComponents e s = Some s' \<and> store_inv s' \<and>
           batchInvalidation s' = batchInvalidation s"
proof (cases "entityToArchetype s e")
  case None
  then show ?thesis using inv by (simp add: removeAll_none)
next
  case (Some r)
  have h: "heap_inv s" and cs: "cache_struct s" using inv by (simp_all add: store_inv_def)
  obtain a i where l: "archetypes s r = Some a" "entityToIndex s e = Some i"
    using heap_located [OF h Some] by blast
  have "store_inv (scheduleQueryCacheInvalidation (detached e r i a s))"
    using store_inv_schedule [OF removeAll_some(2) [OF h Some l] cache_struct_detached [OF cs]] .
  then show ?thesis using removeAll_some(1) [OF h Some l] by simp
qed

lemma removeComponent_store_inv:
  assumes inv: "store_inv s"
  shows "\<exists>res s'. removeComponent e k s = Some (res, s') \<and> store_inv s' \<and>
           batchInvalidation s' = batchInvalidation s"
proof (cases "entityToArchetype s e")
  case None
  then show ?thesis using inv removeComponent_none [of s e k] by blast
next
  case (Some r)
  have h: "heap_inv s" and cs: "cache_struct s" using inv by (simp_all add: store_inv_def)
  obtain a i where l: "archetypes s r = Some a" "entityToIndex s e = Some i"
    using heap_located [OF h Some] by blast
  obtain cid s0 where g: "getComponentId k s = (cid, s0)" by (cases "getComponentId k s")
  have inv0: "store_inv s0" using getComponentId_store_inv [OF inv g] .
  have b0: "batchInvalidation s0 = batchInvalidation s" using getComponentId_frame(5) [OF g] .
  show ?thesis
  proof (cases "map_of (componentArrays a) cid")
    case None
    then show ?thesis using removeComponent_absent [OF Some l(1) g] inv0 b0 by blast
  next
    case col: (Some col)
    then have c: "map_of (componentArrays a) cid \<noteq> None" by simp
    show ?thesis
    proof (cases "filter (\<lambda>c. c \<noteq> cid) (signature a) = []")
      case True
      have d: "removeComponent e k s =
         Some (True, scheduleQueryCacheInvalidation
                   (scheduleQueryCacheInvalidation (detached e r i a s)))"
        "heap_inv (detached e r i a s)"
        using removeComponent_last [OF h g Some l c True] by simp_all
      have one: "store_inv (scheduleQueryCacheInvalidation (detached e r i a s))"
        using store_inv_schedule [OF d(2) cache_struct_detached [OF cs]] .
      have "store_inv (scheduleQueryCacheInvalidation
                   (scheduleQueryCacheInvalidation (detached e r i a s)))"
      proof (rule store_inv_schedule)
        show "heap_inv (scheduleQueryCacheInvalidation (detached e r i a s))"
          using one by (simp only: store_inv_def)
        show "cache_struct (scheduleQueryCacheInvalidation (detached e r i a s))"
          using one by (simp only: store_inv_def)
      qed
      moreover have "batchInvalidation (scheduleQueryCacheInvalidation
                   (scheduleQueryCacheInvalidation (detached e r i a s))) = batchInvalidation s"
        by simp
      ultimately show ?thesis using d(1) by blast
    next
      case False
      let ?ids = "filter (\<lambda>c. c \<noteq> cid) (signature a)"
      obtain b where b: "removeComponent e k s =
         Some (True, scheduleQueryCacheInvalidation
           (inserted e (createSignature ?ids) b (row_at a i) (detached e r i a (ensured ?ids s))))"
        "heap_inv (inserted e (createSignature ?ids) b (row_at a i)
           (detached e r i a (ensured ?ids s)))"
        using removeComponent_migrate [OF h g Some l c False refl refl] by metis
      have "store_inv (scheduleQueryCacheInvalidation
           (inserted e (createSignature ?ids) b (row_at a i) (detached e r i a (ensured ?ids s))))"
        using store_inv_schedule [OF b(2) cache_struct_inserted
            [OF cache_struct_detached [OF cache_struct_ensured [OF cs]]]] .
      moreover have "batchInvalidation (scheduleQueryCacheInvalidation
           (inserted e (createSignature ?ids) b (row_at a i) (detached e r i a (ensured ?ids s))))
           = batchInvalidation s"
        by simp
      ultimately show ?thesis using b(1) by blast
    qed
  qed
qed

lemma getEntitiesWithComponent_state:
  assumes "getEntitiesWithComponent k s = Some (res, s')"
  shows "s' = snd (getComponentId k s)"
  using assms
  by (auto simp: getEntitiesWithComponent_def Let_def
      split: prod.splits option.splits if_splits
      elim!: bind_eq_Some_conv [THEN iffD1, elim_format])

lemma step_store_inv:
  assumes inv: "store_inv s"
  shows "\<exists>s'. step x s = Some s' \<and> store_inv s' \<and>
     (x \<noteq> StartBatch \<longrightarrow> x \<noteq> EndBatch \<longrightarrow> batchInvalidation s' = batchInvalidation s)"
proof -
  have h: "heap_inv s" using inv by (simp add: store_inv_def)
  have reg: "\<And>k. store_inv (snd (getComponentId k s)) \<and>
      batchInvalidation (snd (getComponentId k s)) = batchInvalidation s"
  proof -
    fix k
    obtain cid s0 where g: "getComponentId k s = (cid, s0)" by (cases "getComponentId k s")
    show "store_inv (snd (getComponentId k s)) \<and>
      batchInvalidation (snd (getComponentId k s)) = batchInvalidation s"
      using getComponentId_store_inv [OF inv g] getComponentId_frame(5) [OF g] g by simp
  qed
  show ?thesis
  proof (cases x)
    case (AddComponent e k c)
    then show ?thesis using addComponent_store_inv [OF inv, of e k c] by simp
  next
    case (GetComponent e k)
    then show ?thesis using getComponent_closed [OF h, of e k] reg [of k] inv by auto
  next
    case (HasComponent e k)
    then show ?thesis using hasComponent_closed [OF h, of e k] reg [of k] inv by auto
  next
    case (RemoveComponent e k)
    then show ?thesis using removeComponent_store_inv [OF inv, of e k] by auto
  next
    case (RemoveAllComponents e)
    then show ?thesis using removeAllComponents_store_inv [OF inv, of e] by simp
  next
    case (GetEntitiesWithComponent k)
    obtain res s' where q: "getEntitiesWithComponent k s = Some (res, s')"
      using getEntitiesWithComponent_total [OF h, of k] by blast
    then show ?thesis
      using GetEntitiesWithComponent getEntitiesWithComponent_state [OF q] reg [of k] by simp
  next
    case (GetEntitiesWithComponents ks)
    show ?thesis
    proof (cases "ks = []")
      case True
      then show ?thesis using GetEntitiesWithComponents allocate_store_inv [OF inv]
        by (simp add: getEntitiesWithComponents_def)
    next
      case False
      then show ?thesis
        using GetEntitiesWithComponents query_store_inv [OF inv False] by auto
    qed
  next
    case StartBatch
    then show ?thesis using startBatch_store_inv [OF inv] by simp
  next
    case EndBatch
    then show ?thesis using endBatch_store_inv [OF inv] by simp
  next
    case ClearQueryCache
    then show ?thesis using clearQueryCache_store_inv [OF inv]
      by (simp add: clearQueryCache_def)
  qed
qed

lemma store_inv_new: "store_inv newComponentManager"
  using heap_inv_new
  by (simp add: store_inv_def cache_struct_def cache_fresh_def newComponentManager_def)

lemma run_store_inv:
  assumes "store_inv s"
  shows "\<exists>s'. run xs s = Some s' \<and> store_inv s'"
  using assms
proof (induction xs arbitrary: s)
  case Nil
  then show ?case by simp
next
  case (Cons x xs)
  obtain s1 where "step x s = Some s1" "store_inv s1" using step_store_inv [OF Cons.prems] by blast
  then show ?case using Cons.IH by simp
qed

lemma reachable_store_inv:
  assumes "reachable s"
  shows "store_inv s"
proof -
  obtain xs where r: "run xs newComponentManager = Some s"
    using assms unfolding reachable_def by blast
  obtain s' where "run xs newComponentManager = Some s'" "store_inv s'"
    using run_store_inv [OF store_inv_new] by blast
  then show ?thesis using r by simp
qed

lemma run_closed_batch:
  assumes "store_inv s"
  shows "\<exists>s1. run (xs @ [EndBatch]) s = Some s1 \<and> store_inv s1 \<and>
           \<not> pendingCacheInvalidation s1"
proof -
  obtain s' where s': "run xs s = Some s'" "store_inv s'"
    using run_store_inv [OF assms] by blast
  have "run (xs @ [EndBatch]) s = Some (endBatch s')"
    using s'(1) by (simp add: run_append)
  then show ?thesis using endBatch_store_inv [OF s'(2)] endBatch_fields(1) by blast
qed

lemma run_unbatched:
  assumes "store_inv s" "\<not> batchInvalidation s" "StartBatch \<notin> set xs"
  shows "\<exists>s1. run xs s = Some s1 \<and> store_inv s1 \<and> \<not> batchInvalidation s1"
  using assms
proof (induction xs arbitrary: s)
  case Nil
  then show ?case by simp
next
  case (Cons x xs)
  obtain s' where s': "step x s = Some s'" "store_inv s'"
    "x \<noteq> StartBatch \<longrightarrow> x \<noteq> EndBatch \<longrightarrow> batchInvalidation s' = batchInvalidation s"
    using step_store_inv [OF Cons.prems(1)] by blast
  have "\<not> batchInvalidation s'"
  proof (cases "x = EndBatch")
    case True
    then show ?thesis using s'(1) endBatch_fields(2) by auto
  next
    case False
    have "x \<noteq> StartBatch" using Cons.prems(3) by auto
    then show ?thesis using False s'(3) Cons.prems(2) by simp
  qed
  then obtain s1 where "run xs s' = Some s1" "store_inv s1" "\<not> batchInvalidation s1"
    using Cons.IH [OF s'(2)] Cons.prems(3) by auto
  then show ?case using s'(1) by simp
qed

lemma settled_query_exact:
  assumes inv: "store_inv s" and np: "\<not> pendingCacheInvalidation s" and ks: "ks \<noteq> []"
  shows "\<exists>r res s'. getEntitiesWithComponents ks s = Some ((r, res), s') \<and> distinct res \<and>
     set res = {e. \<exists>key a. archetypes s key = Some a \<and>
                    set (fst (getComponentIds ks s)) \<subseteq> set (signature a) \<and>
                    e \<in> set (entities a)}"
proof -
  obtain r res s' where q: "getEntitiesWithComponents ks s = Some ((r, res), s')"
    "(\<forall>c. queryCache s (createSignature (querySignature (fst (getComponentIds ks s)))) = Some c \<longrightarrow>
           \<not> needsUpdate c \<longrightarrow> \<not> pendingCacheInvalidation s) \<longrightarrow>
        distinct res \<and> set res = members s (fst (getComponentIds ks s))"
    using query_store_inv [OF inv ks] by blast
  have "distinct res \<and> set res = members s (fst (getComponentIds ks s))" using q(2) np by blast
  then show ?thesis using q(1) unfolding members_def by blast
qed

text \<open>
  C1 (as amended). In every reachable store \<open>getEntitiesWithComponents\<close> on a non-empty
  list of classes returns an array. Unless the cache entry of the query exists, is not
  marked dirty, and an invalidation is pending, the array lists, once each, exactly the
  entities of the archetypes whose signature contains the id of every queried class; in
  that remaining case it lists what the entry has cached. In both cases the array is a
  copy: it has the contents of the entry's array, and it is an object other than the
  array of any cache entry.
\<close>

theorem query_superset_correct:
  assumes "reachable s" and "ks \<noteq> []"
    and "ids = fst (getComponentIds ks s)" and "key = createSignature (sort ids)"
  shows "\<exists>r res s' c'. getEntitiesWithComponents ks s = Some ((r, res), s') \<and>
     (if (\<exists>c. queryCache s key = Some c \<and> \<not> needsUpdate c) \<and> pendingCacheInvalidation s
      then res = cache_entities (the (queryCache s key))
      else distinct res \<and>
           set res = {e. \<exists>k a. archetypes s k = Some a \<and> set ids \<subseteq> set (signature a) \<and>
                          e \<in> set (entities a)}) \<and>
     queryCache s' key = Some c' \<and> cache_entities c' = res \<and>
     (\<forall>k c. queryCache s' k = Some c \<longrightarrow> cache_entities_addr c \<noteq> r)"
proof -
  have inv: "store_inv s" using reachable_store_inv [OF assms(1)] .
  have ids: "fst (getComponentIds ks s) = ids" using assms(3) by simp
  have key: "createSignature (querySignature ids) = key"
    using assms(4) by (simp add: querySignature_def array_sort_sort)
  note closed = query_store_inv [OF inv assms(2), unfolded ids key]
  obtain r res s' where q: "getEntitiesWithComponents ks s = Some ((r, res), s')"
    and entry: "\<exists>c'. queryCache s' key = Some c' \<and> cache_entities c' = res"
    and addr: "\<forall>k c. queryCache s' k = Some c \<longrightarrow> cache_entities_addr c < r"
    and cached: "\<forall>c. queryCache s key = Some c \<longrightarrow> \<not> needsUpdate c \<longrightarrow> res = cache_entities c"
    and exact: "(\<forall>c. queryCache s key = Some c \<longrightarrow> \<not> needsUpdate c \<longrightarrow>
                   \<not> pendingCacheInvalidation s) \<longrightarrow>
        distinct res \<and> set res = members s ids"
    using closed by blast
  obtain c' where c': "queryCache s' key = Some c'" "cache_entities c' = res"
    using entry by blast
  have ne: "\<forall>k c. queryCache s' k = Some c \<longrightarrow> cache_entities_addr c \<noteq> r"
    using addr by fastforce
  let ?stale = "(\<exists>c. queryCache s key = Some c \<and> \<not> needsUpdate c) \<and> pendingCacheInvalidation s"
  have res: "if ?stale then res = cache_entities (the (queryCache s key))
      else distinct res \<and>
           set res = {e. \<exists>k a. archetypes s k = Some a \<and> set ids \<subseteq> set (signature a) \<and>
                          e \<in> set (entities a)}"
  proof (cases ?stale)
    case True
    then obtain c where "queryCache s key = Some c" "\<not> needsUpdate c" by blast
    then have "res = cache_entities (the (queryCache s key))" using cached by simp
    then show ?thesis using True by simp
  next
    case False
    then have "\<forall>c. queryCache s key = Some c \<longrightarrow> \<not> needsUpdate c \<longrightarrow>
                   \<not> pendingCacheInvalidation s"
      by blast
    then have "distinct res \<and> set res = members s ids" using exact by blast
    then have "distinct res \<and>
           set res = {e. \<exists>k a. archetypes s k = Some a \<and> set ids \<subseteq> set (signature a) \<and>
                          e \<in> set (entities a)}"
      unfolding members_def by simp
    then show ?thesis by (simp only: False if_False)
  qed
  show ?thesis using q res c' ne by blast
qed

theorem query_superset_correct_witness:
  "\<exists>s r res s' c'. run [AddComponent 1 0 10, AddComponent 2 0 20, AddComponent 2 1 30]
        (newComponentManager :: (nat, nat) ComponentManager) = Some s \<and> reachable s \<and>
      fst (getComponentIds [0] s) = [0] \<and> queryCache s ''0'' = None \<and>
      getEntitiesWithComponents [0] s = Some ((r, res), s') \<and>
      set res = {1, 2} \<and> distinct res \<and>
      set res = {e. \<exists>k a. archetypes s k = Some a \<and> set [0] \<subseteq> set (signature a) \<and>
                     e \<in> set (entities a)} \<and>
      queryCache s' ''0'' = Some c' \<and> cache_entities c' = res \<and> cache_entities_addr c' \<noteq> r"
proof -
  let ?ops = "[AddComponent 1 0 10, AddComponent 2 0 20, AddComponent 2 1 30]
     :: (nat, nat) operation list"
  obtain s where s: "run ?ops newComponentManager = Some s" "reachable s"
    using run_reachable by blast
  have "Option.bind (run ?ops newComponentManager) (\<lambda>s. Some (fst (getComponentIds [0] s)))
      = Some [0]"
    by code_simp
  then have h1: "fst (getComponentIds [0] s) = [0]" using s by simp
  have "Option.bind (run ?ops newComponentManager) (\<lambda>s. Some (queryCache s ''0'')) = Some None"
    by code_simp
  then have h2: "queryCache s ''0'' = None" using s by simp
  have "Option.bind (run ?ops newComponentManager)
      (\<lambda>s. map_option (\<lambda>((r, res), s'). res) (getEntitiesWithComponents [0] s)) = Some [1, 2]"
    by code_simp
  then have h3: "map_option (\<lambda>((r, res), s'). res) (getEntitiesWithComponents [0] s) = Some [1, 2]"
    using s by simp
  have k: "createSignature (sort [0::nat]) = ''0''" by code_simp
  obtain r res s' c' where q: "getEntitiesWithComponents [0] s = Some ((r, res), s')"
    "distinct res"
    "set res = {e. \<exists>k a. archetypes s k = Some a \<and> set [0] \<subseteq> set (signature a) \<and>
                     e \<in> set (entities a)}"
    "queryCache s' ''0'' = Some c'" "cache_entities c' = res" "cache_entities_addr c' \<noteq> r"
    using query_superset_correct [OF s(2), of "[0]" "[0]" "''0''"] h1 h2 k by auto
  have "res = [1, 2]" using h3 q(1) by simp
  then have "set res = {1, 2}" by auto
  then show ?thesis using s h1 h2 q by blast
qed

text \<open>
  C1 as stated fails: inside a batch, after a mutation, a cached query still returns the
  list computed before the mutation. Entity 2 has joined archetype \<open>0\<close>, yet the query for
  class 0 returns only entity 1.
\<close>

theorem query_stale_in_batch_counterexample:
  "Option.bind (run [AddComponent 1 0 10, GetEntitiesWithComponents [0], StartBatch,
                     AddComponent 2 0 20]
       (newComponentManager :: (nat, nat) ComponentManager))
     (\<lambda>s. map_option (\<lambda>((r, res), s'). (res, map_option entities (archetypes s ''0''),
                                       map_option signature (archetypes s ''0''),
                                       fst (getComponentIds [0] s)))
            (getEntitiesWithComponents [0] s))
   = Some ([1], Some [1, 2], Some [0], [0])"
  by code_simp

text \<open>
  C2 (as amended). From any reachable store, let any operations run: a query, then
  mutations, in or out of batches. If the run ends with \<open>endBatch\<close>, however many
  \<open>startBatch\<close> calls preceded it, or if no batch was open at its start and it opens none,
  then a query issued next returns, once each, exactly the entities of the archetypes of
  the store as the mutations left it whose signature contains the id of every queried
  class.
\<close>

theorem cache_coherent_after_mutation:
  assumes "reachable s" and "ks \<noteq> []"
    and "(xs \<noteq> [] \<and> last xs = EndBatch) \<or> (\<not> batchInvalidation s \<and> StartBatch \<notin> set xs)"
  shows "\<exists>s1 r res s2. run xs s = Some s1 \<and>
     getEntitiesWithComponents ks s1 = Some ((r, res), s2) \<and> distinct res \<and>
     set res = {e. \<exists>key a. archetypes s1 key = Some a \<and>
                    set (fst (getComponentIds ks s1)) \<subseteq> set (signature a) \<and>
                    e \<in> set (entities a)}"
proof -
  have inv: "store_inv s" using reachable_store_inv [OF assms(1)] .
  have "\<exists>s1. run xs s = Some s1 \<and> store_inv s1 \<and> \<not> pendingCacheInvalidation s1"
    using assms(3)
  proof
    assume e: "xs \<noteq> [] \<and> last xs = EndBatch"
    then have "xs = butlast xs @ [EndBatch]" using append_butlast_last_id [of xs] by simp
    then show ?thesis using run_closed_batch [OF inv, of "butlast xs"] by simp
  next
    assume u: "\<not> batchInvalidation s \<and> StartBatch \<notin> set xs"
    then obtain s1 where s1: "run xs s = Some s1" "store_inv s1" "\<not> batchInvalidation s1"
      using run_unbatched [OF inv, of xs] by blast
    then have "\<not> pendingCacheInvalidation s1" by (auto simp: store_inv_def cache_struct_def)
    then show ?thesis using s1 by blast
  qed
  then obtain s1 where s1: "run xs s = Some s1" "store_inv s1" "\<not> pendingCacheInvalidation s1"
    by blast
  show ?thesis using settled_query_exact [OF s1(2,3) assms(2)] s1(1) by blast
qed

theorem cache_coherent_after_mutation_witness:
  "\<exists>s s1 r res s2. run [AddComponent 1 0 10, AddComponent 2 0 20]
        (newComponentManager :: (nat, nat) ComponentManager) = Some s \<and> reachable s \<and>
      run [GetEntitiesWithComponents [0], StartBatch, StartBatch, RemoveComponent 1 0, EndBatch] s
        = Some s1 \<and>
      map_option (\<lambda>((r, res), s'). res) (getEntitiesWithComponents [0] s) = Some [1, 2] \<and>
      getEntitiesWithComponents [0] s1 = Some ((r, res), s2) \<and> res = [2] \<and> distinct res \<and>
      set res = {e. \<exists>key a. archetypes s1 key = Some a \<and>
                    set (fst (getComponentIds [0] s1)) \<subseteq> set (signature a) \<and>
                    e \<in> set (entities a)}"
proof -
  let ?pre = "[AddComponent 1 0 10, AddComponent 2 0 20] :: (nat, nat) operation list"
  let ?xs = "[GetEntitiesWithComponents [0], StartBatch, StartBatch, RemoveComponent 1 0, EndBatch]
     :: (nat, nat) operation list"
  obtain s where s: "run ?pre newComponentManager = Some s" "reachable s"
    using run_reachable by blast
  have "Option.bind (run ?pre newComponentManager)
      (\<lambda>s. map_option (\<lambda>((r, res), s'). res) (getEntitiesWithComponents [0] s)) = Some [1, 2]"
    by code_simp
  then have h0: "map_option (\<lambda>((r, res), s'). res) (getEntitiesWithComponents [0] s) = Some [1, 2]"
    using s by simp
  obtain s1 r res s2 where q: "run ?xs s = Some s1"
    "getEntitiesWithComponents [0] s1 = Some ((r, res), s2)" "distinct res"
    "set res = {e. \<exists>key a. archetypes s1 key = Some a \<and>
                    set (fst (getComponentIds [0] s1)) \<subseteq> set (signature a) \<and>
                    e \<in> set (entities a)}"
    using cache_coherent_after_mutation [OF s(2), of "[0]" ?xs] by auto
  have "Option.bind (run ?pre newComponentManager)
      (\<lambda>s. Option.bind (run ?xs s)
         (\<lambda>s1. map_option (\<lambda>((r, res), s'). res) (getEntitiesWithComponents [0] s1)))
      = Some [2]"
    by code_simp
  then have "map_option (\<lambda>((r, res), s'). res) (getEntitiesWithComponents [0] s1) = Some [2]"
    using s(1) q(1) by (simp only: Option.bind.bind_lunit)
  then have "res = [2]" using q(2) by simp
  then show ?thesis using s h0 q by blast
qed

text \<open>
  C2 as stated fails: a mutation after a cached query is not reflected by a re-query
  issued while a batch is still open. Entity 1 has lost its only component and archetype
  \<open>0\<close> is empty, yet the query for class 0 still returns entity 1.
\<close>

theorem requery_in_open_batch_counterexample:
  "Option.bind (run [AddComponent 1 0 10, StartBatch, GetEntitiesWithComponents [0],
                     RemoveComponent 1 0]
       (newComponentManager :: (nat, nat) ComponentManager))
     (\<lambda>s. map_option (\<lambda>((r, res), s'). (res, component_at s 1 0,
                                       map_option entities (archetypes s ''0'')))
            (getEntitiesWithComponents [0] s))
   = Some ([1], None, Some [])"
  by code_simp

section \<open>The store holds what the entities own\<close>

lemma getComponentId_registry:
  assumes "getComponentId k s = (cid, s0)"
  shows "componentClassToId s k = Some c \<Longrightarrow> s0 = s \<and> cid = c"
    and "componentClassToId s k = None \<Longrightarrow>
      cid = componentIdCounter s \<and> componentIdCounter s0 = Suc cid \<and>
      componentClassToId s0 = (componentClassToId s)(k \<mapsto> cid) \<and>
      componentIdToClass s0 = (componentIdToClass s)(cid \<mapsto> k)"
  using assms by (auto simp: getComponentId_def Let_def split: option.splits)

lemma component_at_registered:
  assumes inv: "heap_inv s" and c: "component_at s e cid \<noteq> None"
  shows "cid < componentIdCounter s"
proof -
  from c obtain r where r: "entityToArchetype s e = Some r"
    by (auto simp: component_at_def split: option.splits)
  obtain a i where l: "archetypes s r = Some a" "archetype_ok r a"
    using heap_located [OF inv r] by blast
  have "map_of (componentArrays a) cid \<noteq> None"
    using c lacking_column [OF inv r l(1), of cid] by simp
  then have "cid \<in> set (signature a)" using column_of_signature(1) [OF l(2), of cid] by simp
  then show ?thesis using inv l(1) unfolding heap_inv_def index_complete_def by blast
qed

lemma owns_inv_frame:
  assumes o: "owns_inv m s" and h: "heap_inv s'"
    and r: "componentIdCounter s' = componentIdCounter s"
      "componentClassToId s' = componentClassToId s"
      "componentIdToClass s' = componentIdToClass s"
    and c: "\<And>e cid. component_at s' e cid = component_at s e cid"
  shows "owns_inv m s'"
  using assms unfolding owns_inv_def by simp

lemma owns_inv_register:
  assumes o: "owns_inv m s" and g: "getComponentId k s = (cid, s0)"
  shows "owns_inv m s0"
proof (cases "componentClassToId s k")
  case (Some c)
  then show ?thesis using getComponentId_registry(1) [OF g] o by simp
next
  case None
  have inv: "heap_inv s" using o by (simp add: owns_inv_def)
  note n = getComponentId_registry(2) [OF g None]
  have ca: "\<And>e c. component_at s0 e c = component_at s e c"
    using component_at_getComponentId [OF g] by blast
  have fresh: "\<And>e. component_at s e cid = None"
    using component_at_registered [OF inv] n by fastforce
  have own: "\<And>e. m e k = None" using o None unfolding owns_inv_def by blast
  have old: "\<And>k' c. componentClassToId s k' = Some c \<Longrightarrow> c < cid"
    using inv n unfolding heap_inv_def registry_ok_def by auto
  have "heap_inv s0" using getComponentId_inv [OF inv g] .
  moreover have "\<forall>c < componentIdCounter s0.
        \<exists>k'. componentIdToClass s0 c = Some k' \<and> componentClassToId s0 k' = Some c"
  proof (intro allI impI)
    fix c assume c: "c < componentIdCounter s0"
    show "\<exists>k'. componentIdToClass s0 c = Some k' \<and> componentClassToId s0 k' = Some c"
    proof (cases "c = cid")
      case True
      then show ?thesis using n by simp
    next
      case False
      then have "c < componentIdCounter s" using c n by simp
      then obtain k' where k': "componentIdToClass s c = Some k'" "componentClassToId s k' = Some c"
        using o unfolding owns_inv_def by blast
      then have "k' \<noteq> k" using None by auto
      then show ?thesis using k' False n by simp
    qed
  qed
  moreover have "\<forall>e k'. componentClassToId s0 k' = None \<longrightarrow> m e k' = None"
    using o n unfolding owns_inv_def by (auto split: if_splits)
  moreover have "\<forall>e k' c. componentClassToId s0 k' = Some c \<longrightarrow> component_at s0 e c = m e k'"
  proof (intro allI impI)
    fix e k' c assume c: "componentClassToId s0 k' = Some c"
    show "component_at s0 e c = m e k'"
    proof (cases "k' = k")
      case True
      then show ?thesis using n c ca fresh own by simp
    next
      case False
      then have "componentClassToId s k' = Some c" using n c by simp
      then show ?thesis using o ca unfolding owns_inv_def by simp
    qed
  qed
  ultimately show ?thesis unfolding owns_inv_def by blast
qed

lemma owns_inv_registers:
  assumes "owns_inv m s" "getComponentIds ks s = (ids, s1)"
  shows "owns_inv m s1"
  using assms
proof (induction ks arbitrary: s ids s1)
  case Nil
  then show ?case by simp
next
  case (Cons k ks)
  obtain cid s0 where g: "getComponentId k s = (cid, s0)" by (cases "getComponentId k s")
  obtain ids' s2 where g2: "getComponentIds ks s0 = (ids', s2)" by (cases "getComponentIds ks s0")
  have "s1 = s2" using Cons.prems(2) g g2 by simp
  then show ?case using Cons.IH [OF owns_inv_register [OF Cons.prems(1) g] g2] by simp
qed

lemma owns_inv_lookup:
  assumes "owns_inv m s"
  shows "componentClassToId s k = Some cid \<Longrightarrow> component_at s e cid = m e k"
    and "componentClassToId s k = None \<Longrightarrow> m e k = None"
  using assms unfolding owns_inv_def by blast+

lemma owns_invI:
  assumes "heap_inv s"
    and "\<And>cid. cid < componentIdCounter s \<Longrightarrow>
        \<exists>k. componentIdToClass s cid = Some k \<and> componentClassToId s k = Some cid"
    and "\<And>e k. componentClassToId s k = None \<Longrightarrow> m e k = None"
    and "\<And>e k cid. componentClassToId s k = Some cid \<Longrightarrow> component_at s e cid = m e k"
  shows "owns_inv m s"
  unfolding owns_inv_def using assms by blast

lemma owns_inv_onto:
  assumes "owns_inv m s" "cid < componentIdCounter s"
  shows "\<exists>k. componentIdToClass s cid = Some k \<and> componentClassToId s k = Some cid"
  using assms unfolding owns_inv_def by blast

lemma registry_inj:
  assumes "heap_inv s" "componentClassToId s k = Some cid" "componentClassToId s k' = Some cid"
  shows "k = k'"
  using assms unfolding heap_inv_def registry_ok_def by blast

lemma addComponent_registry:
  assumes inv: "heap_inv s" and g: "getComponentId k s = (cid, s0)"
    and add: "addComponent e k v s = Some s'"
  shows "componentIdCounter s' = componentIdCounter s0 \<and>
         componentClassToId s' = componentClassToId s0 \<and>
         componentIdToClass s' = componentIdToClass s0"
proof (cases "entityToArchetype s e")
  case None
  obtain b where "addComponent e k v s =
       Some (scheduleQueryCacheInvalidation
          (inserted e (createSignature [cid]) b [cid \<mapsto> v] (ensured [cid] s0)))"
    using addComponent_first [OF inv g None refl, where c = v] by metis
  then show ?thesis using add by auto
next
  case (Some r)
  obtain a i where l: "archetypes s r = Some a" "entityToIndex s e = Some i"
    "i < length (entities a)" "entities a ! i = e" "archetype_ok r a"
    using heap_located [OF inv Some] by blast
  show ?thesis
  proof (cases "map_of (componentArrays a) cid")
    case None
    let ?ids = "extendSignature (signature a) cid"
    obtain b where "addComponent e k v s =
         Some (scheduleQueryCacheInvalidation
           (inserted e (createSignature ?ids) b ((row_at a i)(cid \<mapsto> v))
              (detached e r i a (ensured ?ids s0))))"
      using addComponent_migrate [OF inv g Some l(1,2) None refl refl, where c = v] by metis
    then show ?thesis using add by auto
  next
    case col: (Some col)
    have "cid \<in> set (signature a)" using column_of_signature(1) [OF l(5), of cid] col by simp
    then have s0: "s0 = s" using getComponentId_held(1) [OF inv g l(1)] by simp
    have "addComponent e k v s =
         Some (s\<lparr>archetypes := (archetypes s)(r \<mapsto>
            a\<lparr>componentArrays := AList.update cid (col[i := v]) (componentArrays a)\<rparr>)\<rparr>)"
      using addComponent_overwrite(1) [OF inv g Some l(1,2) col, where c = v] .
    then show ?thesis using add s0 by auto
  qed
qed

lemma fun_upd_owned_none:
  assumes "m e k = None"
  shows "m(e := (m e)(k := None)) = m"
proof -
  have "(m e)(k := None) = m e" using assms by (simp add: fun_upd_idem)
  then show ?thesis by simp
qed

lemma addComponent_owns:
  assumes o: "owns_inv m s"
  shows "\<exists>s'. addComponent e k v s = Some s' \<and> owns_inv (m(e := (m e)(k \<mapsto> v))) s'"
proof -
  have inv: "heap_inv s" using o by (simp add: owns_inv_def)
  obtain cid s0 where g: "getComponentId k s = (cid, s0)" by (cases "getComponentId k s")
  have o0: "owns_inv m s0" using owns_inv_register [OF o g] .
  have inv0: "heap_inv s0" using o0 by (simp add: owns_inv_def)
  have reg0: "componentClassToId s0 k = Some cid" using getComponentId_frame(8) [OF g] .
  have c0: "\<And>e' c. component_at s0 e' c = component_at s e' c"
    using component_at_getComponentId [OF g] by blast
  obtain s' where add: "addComponent e k v s = Some s'" and h': "heap_inv s'"
    and self: "component_at s' e cid = Some v"
    and sib: "\<forall>c. c \<noteq> cid \<longrightarrow> component_at s' e c = component_at s e c"
    and oth: "\<forall>e' c. e' \<noteq> e \<longrightarrow> component_at s' e' c = component_at s e' c"
    using addComponent_effect [OF inv g, of e v] by blast
  have rg: "componentIdCounter s' = componentIdCounter s0"
    "componentClassToId s' = componentClassToId s0"
    "componentIdToClass s' = componentIdToClass s0"
    using addComponent_registry [OF inv g add] by simp_all
  have "owns_inv (m(e := (m e)(k \<mapsto> v))) s'"
  proof (rule owns_invI [OF h'])
    fix c assume "c < componentIdCounter s'"
    then show "\<exists>k. componentIdToClass s' c = Some k \<and> componentClassToId s' k = Some c"
      using owns_inv_onto [OF o0, of c] rg by simp
  next
    fix e' k' assume n: "componentClassToId s' k' = None"
    then have "k' \<noteq> k" using rg reg0 by auto
    moreover have "m e' k' = None" using owns_inv_lookup(2) [OF o0] n rg by simp
    ultimately show "(m(e := (m e)(k \<mapsto> v))) e' k' = None" by auto
  next
    fix e' k' c assume c: "componentClassToId s' k' = Some c"
    then have c0': "componentClassToId s0 k' = Some c" using rg by simp
    have old: "component_at s e' c = m e' k'"
      using owns_inv_lookup(1) [OF o0 c0', of e'] c0 by simp
    show "component_at s' e' c = (m(e := (m e)(k \<mapsto> v))) e' k'"
    proof (cases "e' = e")
      case False
      then show ?thesis using oth old by simp
    next
      case True
      show ?thesis
      proof (cases "k' = k")
        case k: True
        then have "c = cid" using c0' reg0 by simp
        then show ?thesis using True k self by simp
      next
        case k: False
        have "c \<noteq> cid" using registry_inj [OF inv0 c0' ] reg0 k by blast
        then show ?thesis using True k sib old by simp
      qed
    qed
  qed
  then show ?thesis using add by blast
qed

lemma removeComponent_present:
  assumes inv: "heap_inv s" and g: "getComponentId k s = (cid, s0)"
    and loc: "entityToArchetype s e = Some r"
    and a: "archetypes s r = Some a" "entityToIndex s e = Some i"
    and col: "map_of (componentArrays a) cid \<noteq> None"
  shows "\<exists>s'. removeComponent e k s = Some (True, s') \<and> heap_inv s' \<and>
     componentIdCounter s' = componentIdCounter s \<and>
     componentClassToId s' = componentClassToId s \<and>
     componentIdToClass s' = componentIdToClass s \<and>
     (\<forall>c. component_at s' e c = (if c = cid then None else component_at s e c)) \<and>
     (\<forall>e' c. e' \<noteq> e \<longrightarrow> component_at s' e' c = component_at s e' c)"
proof -
  obtain a2 i2 where l: "archetypes s r = Some a2" "entityToIndex s e = Some i2"
    "i2 < length (entities a2)" "entities a2 ! i2 = e" "archetype_ok r a2"
    using heap_located [OF inv loc] by blast
  then have l: "i < length (entities a)" "entities a ! i = e" "archetype_ok r a"
    using a by simp_all
  have cur: "\<And>c. component_at s e c = row_at a i c"
    using component_at_located [OF loc a l(1,3)] by blast
  have insig: "cid \<in> set (signature a)" using column_of_signature(1) [OF l(3), of cid] col by simp
  have lack: "\<And>c. c \<notin> set (signature a) \<Longrightarrow> component_at s e c = None"
    using lacking_column [OF inv loc a(1)] column_of_signature(1) [OF l(3)] by blast
  show ?thesis
  proof (cases "filter (\<lambda>c. c \<noteq> cid) (signature a) = []")
    case True
    let ?d = "detached e r i a s"
    let ?s' = "scheduleQueryCacheInvalidation (scheduleQueryCacheInvalidation ?d)"
    have d: "removeComponent e k s = Some (True, ?s')" "heap_inv ?d"
      using removeComponent_last [OF inv g loc a col True] by simp_all
    have only: "\<And>c. c \<noteq> cid \<Longrightarrow> c \<notin> set (signature a)"
    proof
      fix c assume "c \<noteq> cid" "c \<in> set (signature a)"
      then have "c \<in> set (filter (\<lambda>c. c \<noteq> cid) (signature a))" by simp
      then show False using True by simp
    qed
    have self: "\<And>c. component_at ?s' e c = None"
      by (simp add: component_at_none_unlocated)
    have oth: "\<And>e' c. e' \<noteq> e \<Longrightarrow> component_at ?s' e' c = component_at s e' c"
      using component_at_detached_other [OF inv loc a(2) a(1)] by simp
    show ?thesis
    proof (intro exI [of _ ?s'] conjI allI impI)
      show "removeComponent e k s = Some (True, ?s')" by (rule d(1))
      show "heap_inv ?s'" using d(2) by simp
      show "componentIdCounter ?s' = componentIdCounter s" by simp
      show "componentClassToId ?s' = componentClassToId s" by simp
      show "componentIdToClass ?s' = componentIdToClass s" by simp
      fix c show "component_at ?s' e c = (if c = cid then None else component_at s e c)"
        using self [of c] only [of c] lack [of c] by auto
    next
      fix e' c assume "e' \<noteq> e"
      then show "component_at ?s' e' c = component_at s e' c" by (rule oth)
    qed
  next
    case False
    let ?ids = "filter (\<lambda>c. c \<noteq> cid) (signature a)"
    let ?key = "createSignature ?ids"
    let ?s1 = "ensured ?ids s"
    let ?d = "detached e r i a ?s1"
    obtain b where b: "archetypes ?s1 ?key = Some b" "signature b = ?ids"
      and ne: "?key \<noteq> r" and a1: "archetypes ?s1 r = Some a"
      and rm: "removeComponent e k s =
         Some (True, scheduleQueryCacheInvalidation (inserted e ?key b (row_at a i) ?d))"
      and hi: "heap_inv (inserted e ?key b (row_at a i) ?d)"
      using removeComponent_migrate [OF inv g loc a col False refl refl] by metis
    let ?s' = "scheduleQueryCacheInvalidation (inserted e ?key b (row_at a i) ?d)"
    have regs: "\<forall>c \<in> set ?ids. c < componentIdCounter s"
      using inv a(1) unfolding heap_inv_def index_complete_def by auto
    have dist: "distinct ?ids" "sorted ?ids"
      using l(3) by (simp_all add: archetype_ok_def sorted_wrt_filter)
    have inv1: "heap_inv ?s1" using ensured_inv(2) [OF inv dist regs] .
    have okb: "archetype_ok ?key b" using inv1 b(1) by (simp add: heap_inv_def archetypes_ok_def)
    have loc1: "entityToArchetype ?s1 e = Some r" "entityToIndex ?s1 e = Some i"
      using loc a by simp_all
    have invd: "heap_inv ?d" using detached_inv [OF inv1 loc1 a1] .
    have bd: "archetypes ?d ?key = Some b" using b ne by simp
    have rows: "\<forall>c \<in> set (signature b). row_at a i c \<noteq> None"
      using row_at_some [OF l(3)] b(2) by simp
    have self: "\<And>c. component_at ?s' e c = (if c \<in> set ?ids then row_at a i c else None)"
      using component_at_inserted_row [OF okb rows, of e ?d] b(2) by simp
    have oth: "\<And>e' c. e' \<noteq> e \<Longrightarrow> component_at ?s' e' c = component_at s e' c"
    proof -
      fix e' c assume n: "e' \<noteq> e"
      have "component_at ?s' e' c = component_at ?d e' c"
        using component_at_inserted_other [OF invd bd n] by simp
      also have "\<dots> = component_at ?s1 e' c"
        using component_at_detached_other [OF inv1 loc1 a1 n] .
      also have "\<dots> = component_at s e' c" using component_at_ensured [OF inv] .
      finally show "component_at ?s' e' c = component_at s e' c" .
    qed
    show ?thesis
    proof (intro exI [of _ ?s'] conjI allI impI)
      show "removeComponent e k s = Some (True, ?s')" by (rule rm)
      show "heap_inv ?s'" using hi by simp
      show "componentIdCounter ?s' = componentIdCounter s" by simp
      show "componentClassToId ?s' = componentClassToId s" by simp
      show "componentIdToClass ?s' = componentIdToClass s" by simp
      fix c show "component_at ?s' e c = (if c = cid then None else component_at s e c)"
      proof (cases "c \<in> set (signature a)")
        case True
        then show ?thesis using self [of c] cur [of c] by auto
      next
        case False
        then show ?thesis using self [of c] lack [of c] insig by auto
      qed
    next
      fix e' c assume "e' \<noteq> e"
      then show "component_at ?s' e' c = component_at s e' c" by (rule oth)
    qed
  qed
qed

lemma component_at_cache_update [simp]:
  "component_at (s\<lparr>queryCache := q\<rparr>) e c = component_at s e c"
  "component_at (s\<lparr>arrayCounter := n\<rparr>) e c = component_at s e c"
  "component_at (s\<lparr>batchInvalidation := b\<rparr>) e c = component_at s e c"
  "component_at (s\<lparr>pendingCacheInvalidation := b\<rparr>) e c = component_at s e c"
  by (rule component_at_cong; simp)+

lemma owns_inv_cache_update [simp]:
  "owns_inv m (s\<lparr>queryCache := q\<rparr>) = owns_inv m s"
  "owns_inv m (s\<lparr>arrayCounter := n\<rparr>) = owns_inv m s"
  "owns_inv m (s\<lparr>batchInvalidation := b\<rparr>) = owns_inv m s"
  "owns_inv m (s\<lparr>pendingCacheInvalidation := b\<rparr>) = owns_inv m s"
  by (simp_all add: owns_inv_def)

lemma owns_inv_endBatch [simp]: "owns_inv m (endBatch s) = owns_inv m s"
  by (simp add: endBatch_def Let_def invalidateQueryCaches_def)

lemma owned_nothing:
  assumes o: "owns_inv m s" and u: "\<And>c. component_at s e c = None"
  shows "m e k = None"
proof (cases "componentClassToId s k")
  case None
  then show ?thesis using owns_inv_lookup(2) [OF o] by simp
next
  case (Some cid)
  then show ?thesis using owns_inv_lookup(1) [OF o Some, of e] u by simp
qed

lemma removeComponent_owns:
  assumes o: "owns_inv m s"
  shows "\<exists>res s'. removeComponent e k s = Some (res, s') \<and>
           owns_inv (m(e := (m e)(k := None))) s'"
proof (cases "entityToArchetype s e")
  case None
  have "m e k = None"
    using owned_nothing [OF o, of e k] None by (simp add: component_at_none_unlocated)
  then have eq: "m(e := (m e)(k := None)) = m" by (rule fun_upd_owned_none)
  show ?thesis unfolding eq using removeComponent_none [OF None, of k] o by blast
next
  case (Some r)
  have inv: "heap_inv s" using o by (simp add: owns_inv_def)
  obtain a i where l: "archetypes s r = Some a" "entityToIndex s e = Some i"
    "archetype_ok r a"
    using heap_located [OF inv Some] by blast
  obtain cid s0 where g: "getComponentId k s = (cid, s0)" by (cases "getComponentId k s")
  have o0: "owns_inv m s0" using owns_inv_register [OF o g] .
  have reg0: "componentClassToId s0 k = Some cid" using getComponentId_frame(8) [OF g] .
  show ?thesis
  proof (cases "map_of (componentArrays a) cid")
    case None
    have "component_at s e cid = None" using lacking_column [OF inv Some l(1), of cid] None by simp
    then have "component_at s0 e cid = None" using component_at_getComponentId [OF g] by simp
    then have "m e k = None" using owns_inv_lookup(1) [OF o0 reg0, of e] by simp
    then have eq: "m(e := (m e)(k := None)) = m" by (rule fun_upd_owned_none)
    show ?thesis unfolding eq using removeComponent_absent [OF Some l(1) g None] o0 by blast
  next
    case col: (Some col)
    then have c: "map_of (componentArrays a) cid \<noteq> None" by simp
    have "cid \<in> set (signature a)" using column_of_signature(1) [OF l(3), of cid] c by simp
    then have reg: "componentClassToId s k = Some cid"
      using getComponentId_held(2) [OF inv g l(1)] by simp
    obtain s' where rm: "removeComponent e k s = Some (True, s')" and h': "heap_inv s'"
      and rg: "componentIdCounter s' = componentIdCounter s"
        "componentClassToId s' = componentClassToId s"
        "componentIdToClass s' = componentIdToClass s"
      and self: "\<forall>c. component_at s' e c = (if c = cid then None else component_at s e c)"
      and oth: "\<forall>e' c. e' \<noteq> e \<longrightarrow> component_at s' e' c = component_at s e' c"
      using removeComponent_present [OF inv g Some l(1,2) c] by blast
    have "owns_inv (m(e := (m e)(k := None))) s'"
    proof (rule owns_invI [OF h'])
      fix c assume "c < componentIdCounter s'"
      then show "\<exists>k. componentIdToClass s' c = Some k \<and> componentClassToId s' k = Some c"
        using owns_inv_onto [OF o, of c] rg by simp
    next
      fix e' k' assume "componentClassToId s' k' = None"
      then have "m e' k' = None" using owns_inv_lookup(2) [OF o] rg by simp
      then show "(m(e := (m e)(k := None))) e' k' = None" by auto
    next
      fix e' k' c' assume c': "componentClassToId s' k' = Some c'"
      then have c0: "componentClassToId s k' = Some c'" using rg by simp
      have old: "component_at s e' c' = m e' k'" using owns_inv_lookup(1) [OF o c0] .
      show "component_at s' e' c' = (m(e := (m e)(k := None))) e' k'"
      proof (cases "e' = e")
        case False
        then show ?thesis using oth old by simp
      next
        case True
        show ?thesis
        proof (cases "k' = k")
          case k: True
          then have "c' = cid" using c0 reg by simp
          then show ?thesis using True k self by simp
        next
          case k: False
          have "c' \<noteq> cid" using registry_inj [OF inv c0] reg k by blast
          then show ?thesis using True k self old by simp
        qed
      qed
    qed
    then show ?thesis using rm by blast
  qed
qed

lemma removeAllComponents_owns:
  assumes o: "owns_inv m s"
  shows "\<exists>s'. removeAllComponents e s = Some s' \<and> owns_inv (m(e := Map.empty)) s'"
proof (cases "entityToArchetype s e")
  case None
  have "\<And>k. m e k = None"
    using owned_nothing [OF o, of e] None by (simp add: component_at_none_unlocated)
  then have "m e = Map.empty" by (simp add: fun_eq_iff)
  then have "m(e := Map.empty) = m" by (metis fun_upd_triv)
  then show ?thesis using removeAll_none [OF None] o by simp
next
  case (Some r)
  have inv: "heap_inv s" using o by (simp add: owns_inv_def)
  obtain a i where l: "archetypes s r = Some a" "entityToIndex s e = Some i"
    using heap_located [OF inv Some] by blast
  let ?s' = "scheduleQueryCacheInvalidation (detached e r i a s)"
  have rm: "removeAllComponents e s = Some ?s'" "heap_inv (detached e r i a s)"
    using removeAll_some [OF inv Some l] by simp_all
  have self: "\<And>c. component_at ?s' e c = None" by (simp add: component_at_none_unlocated)
  have oth: "\<And>e' c. e' \<noteq> e \<Longrightarrow> component_at ?s' e' c = component_at s e' c"
    using component_at_detached_other [OF inv Some l(2) l(1)] by simp
  have "owns_inv (m(e := Map.empty)) ?s'"
  proof (rule owns_invI)
    show "heap_inv ?s'" using rm(2) by simp
  next
    fix c assume "c < componentIdCounter ?s'"
    then show "\<exists>k. componentIdToClass ?s' c = Some k \<and> componentClassToId ?s' k = Some c"
      using owns_inv_onto [OF o, of c] by simp
  next
    fix e' k' assume "componentClassToId ?s' k' = None"
    then have "m e' k' = None" using owns_inv_lookup(2) [OF o] by simp
    then show "(m(e := Map.empty)) e' k' = None" by simp
  next
    fix e' k' c' assume "componentClassToId ?s' k' = Some c'"
    then have c0: "componentClassToId s k' = Some c'" by simp
    have old: "component_at s e' c' = m e' k'" using owns_inv_lookup(1) [OF o c0] .
    show "component_at ?s' e' c' = (m(e := Map.empty)) e' k'"
      using self [of c'] oth [of e' c'] old by (cases "e' = e") simp_all
  qed
  then show ?thesis using rm(1) by blast
qed

lemma step_owns:
  assumes o: "owns_inv m s"
  shows "\<exists>s'. step x s = Some s' \<and> owns_inv (owner_step x m) s'"
proof -
  have h: "heap_inv s" using o by (simp add: owns_inv_def)
  have reg: "\<And>k. owns_inv m (snd (getComponentId k s))"
  proof -
    fix k
    obtain cid s0 where g: "getComponentId k s = (cid, s0)" by (cases "getComponentId k s")
    show "owns_inv m (snd (getComponentId k s))" using owns_inv_register [OF o g] g by simp
  qed
  show ?thesis
  proof (cases x)
    case (AddComponent e k c)
    then show ?thesis using addComponent_owns [OF o, of e k c] by simp
  next
    case (GetComponent e k)
    then show ?thesis using getComponent_closed [OF h, of e k] reg [of k] o by auto
  next
    case (HasComponent e k)
    then show ?thesis using hasComponent_closed [OF h, of e k] reg [of k] o by auto
  next
    case (RemoveComponent e k)
    then show ?thesis using removeComponent_owns [OF o, of e k] by auto
  next
    case (RemoveAllComponents e)
    then show ?thesis using removeAllComponents_owns [OF o, of e] by simp
  next
    case (GetEntitiesWithComponent k)
    obtain res s' where q: "getEntitiesWithComponent k s = Some (res, s')"
      using getEntitiesWithComponent_total [OF h, of k] by blast
    then show ?thesis
      using GetEntitiesWithComponent getEntitiesWithComponent_state [OF q] reg [of k] by simp
  next
    case (GetEntitiesWithComponents ks)
    show ?thesis
    proof (cases "ks = []")
      case True
      then show ?thesis using GetEntitiesWithComponents o
        by (simp add: getEntitiesWithComponents_def)
    next
      case False
      obtain ids s1 where g: "getComponentIds ks s = (ids, s1)" by (cases "getComponentIds ks s")
      have o1: "owns_inv m s1" using owns_inv_registers [OF o g] .
      obtain c n c' where "getEntitiesWithComponents ks s =
         Some ((n, cache_entities c'),
               s1\<lparr>queryCache := (queryCache s1)(createSignature (querySignature ids) \<mapsto> c'),
                  arrayCounter := n + 1\<rparr>)"
        by (rule query_closed [OF h False g])
      then show ?thesis using GetEntitiesWithComponents o1 by simp
    qed
  next
    case StartBatch
    then show ?thesis using o by (simp add: startBatch_def)
  next
    case EndBatch
    then show ?thesis using o by simp
  next
    case ClearQueryCache
    then show ?thesis using o by (simp add: clearQueryCache_def)
  qed
qed

lemma owns_inv_new: "owns_inv (\<lambda>e. Map.empty) newComponentManager"
proof (rule owns_invI [OF heap_inv_new])
  fix e :: Entity and cid :: ComponentId
  show "component_at (newComponentManager :: ('a, 'b) ComponentManager) e cid = None"
    if "componentClassToId (newComponentManager :: ('a, 'b) ComponentManager) k = Some cid" for k
    using that by (simp add: newComponentManager_def)
qed (simp_all add: newComponentManager_def)

lemma run_owns_from:
  assumes "owns_inv m s"
  shows "\<exists>s'. run xs s = Some s' \<and> owns_inv (foldl (\<lambda>m x. owner_step x m) m xs) s'"
  using assms
proof (induction xs arbitrary: s m)
  case Nil
  then show ?case by simp
next
  case (Cons x xs)
  obtain s1 where "step x s = Some s1" "owns_inv (owner_step x m) s1"
    using step_owns [OF Cons.prems] by blast
  then show ?case using Cons.IH [of "owner_step x m" s1] by simp
qed

lemma run_owns:
  "\<exists>s. run xs newComponentManager = Some s \<and> owns_inv (owned xs) s"
  unfolding owned_def using run_owns_from [OF owns_inv_new] .

lemma owned_snoc: "owned (xs @ [x]) = owner_step x (owned xs)"
  by (simp add: owned_def)

lemma owns_inv_row_aligned:
  assumes o: "owns_inv m s"
  shows "row_aligned m s"
  unfolding row_aligned_def
proof (intro allI impI conjI ballI)
  have inv: "heap_inv s" using o by (simp add: owns_inv_def)
  {
    fix e r assume "entityToArchetype s e = Some r"
    then show "\<exists>a i. archetypes s r = Some a \<and> entityToIndex s e = Some i \<and>
               i < length (entities a) \<and> entities a ! i = e"
      using inv unfolding heap_inv_def located_def by blast
  }
  fix key a assume a: "archetypes s key = Some a"
  have ok: "archetype_ok key a" using inv a by (simp add: heap_inv_def archetypes_ok_def)
  {
    fix cid assume "cid \<in> set (signature a)"
    then obtain col where "map_of (componentArrays a) cid = Some col"
      using column_of_signature(1) [OF ok, of cid] by auto
    then show "\<exists>col. map_of (componentArrays a) cid = Some col \<and> length col = length (entities a)"
      using column_of_signature(2) [OF ok] by auto
  }
  {
    fix cid col assume c: "map_of (componentArrays a) cid = Some col"
    then show "cid \<in> set (signature a)" using column_of_signature(1) [OF ok, of cid] by simp
    show "length col = length (entities a)" using column_of_signature(2) [OF ok c] .
  }
  {
    fix i assume i: "i < length (entities a)"
    have m: "entityToArchetype s (entities a ! i) = Some key"
      "entityToIndex s (entities a ! i) = Some i"
      using inv a i unfolding heap_inv_def members_located_def by blast+
    show "entityToArchetype s (entities a ! i) = Some key" using m by simp
    show "entityToIndex s (entities a ! i) = Some i" using m by simp
    fix cid col assume c: "map_of (componentArrays a) cid = Some col"
    have len: "length col = length (entities a)" using column_of_signature(2) [OF ok c] .
    have rd: "component_at s (entities a ! i) cid = Some (col ! i)"
      using component_at_eq [OF m(1) a m(2), of cid] c i len by (simp add: array_get_def)
    have "cid \<in> set (signature a)" using column_of_signature(1) [OF ok, of cid] c by simp
    then have "cid < componentIdCounter s"
      using inv a unfolding heap_inv_def index_complete_def by blast
    then obtain k where k: "componentIdToClass s cid = Some k" "componentClassToId s k = Some cid"
      using owns_inv_onto [OF o] by blast
    have "m (entities a ! i) k = Some (col ! i)"
      using owns_inv_lookup(1) [OF o k(2), of "entities a ! i"] rd by simp
    then show "\<exists>k. componentIdToClass s cid = Some k \<and> m (entities a ! i) k = Some (col ! i)"
      using k(1) by blast
  }
qed

text \<open>
  C7. Every run of operations from a new store ends in a row-aligned store, and every
  operation runs on that store and leaves a row-aligned one: in each archetype every id
  of the signature has a column as long as the entity list (and there is no other
  column), the entity in row \<open>i\<close> is recorded at that archetype and row (and every located
  entity is in its archetype's list at its row), and the value in row \<open>i\<close> of a column is
  the instance that the entity in row \<open>i\<close> owns for the column's class: the one it was last
  given by \<open>addComponent\<close>.
\<close>

theorem row_alignment_preserved:
  "\<exists>s. run ops newComponentManager = Some s \<and> row_aligned (owned ops) s \<and>
        (\<exists>s'. step x s = Some s' \<and> row_aligned (owned (ops @ [x])) s')"
proof -
  obtain s where s: "run ops newComponentManager = Some s" "owns_inv (owned ops) s"
    using run_owns by blast
  obtain s' where s': "step x s = Some s'" "owns_inv (owner_step x (owned ops)) s'"
    using step_owns [OF s(2)] by blast
  show ?thesis
    using s(1) s'(1) owns_inv_row_aligned [OF s(2)] owns_inv_row_aligned [OF s'(2)]
    unfolding owned_snoc by blast
qed

theorem row_alignment_preserved_witness:
  "\<exists>s s'. run [AddComponent 1 0 10, AddComponent 2 0 20, AddComponent 3 0 30]
        (newComponentManager :: (nat, nat) ComponentManager) = Some s \<and>
      row_aligned (owned [AddComponent 1 0 10, AddComponent 2 0 20, AddComponent 3 0 30]) s \<and>
      step (RemoveComponent 1 0) s = Some s' \<and>
      row_aligned (owned ([AddComponent 1 0 10, AddComponent 2 0 20, AddComponent 3 0 30]
                          @ [RemoveComponent 1 0])) s' \<and>
      archetypes s' ''0'' =
        Some \<lparr>signature = [0], entities = [3, 2], componentArrays = [(0, [30, 20])]\<rparr> \<and>
      owned ([AddComponent 1 0 10, AddComponent 2 0 20, AddComponent 3 0 30 :: (nat, nat) operation]
             @ [RemoveComponent 1 0]) 3 0 = Some 30 \<and>
      owned ([AddComponent 1 0 10, AddComponent 2 0 20, AddComponent 3 0 30 :: (nat, nat) operation]
             @ [RemoveComponent 1 0]) 2 0 = Some 20"
proof -
  let ?ops = "[AddComponent 1 0 10, AddComponent 2 0 20, AddComponent 3 0 30]
     :: (nat, nat) operation list"
  obtain s s' where r: "run ?ops newComponentManager = Some s" "row_aligned (owned ?ops) s"
    "step (RemoveComponent 1 0) s = Some s'"
    "row_aligned (owned (?ops @ [RemoveComponent 1 0])) s'"
    using row_alignment_preserved [of ?ops "RemoveComponent 1 0"] by blast
  have "Option.bind (Option.bind (run ?ops newComponentManager) (step (RemoveComponent 1 0)))
          (\<lambda>s. archetypes s ''0'')
        = Some \<lparr>signature = [0], entities = [3, 2], componentArrays = [(0, [30, 20])]\<rparr>"
    by code_simp
  then have a: "archetypes s' ''0'' =
      Some \<lparr>signature = [0], entities = [3, 2], componentArrays = [(0, [30, 20])]\<rparr>"
    by (simp only: r(1,3) Option.bind.bind_lunit)
  have o3: "owned (?ops @ [RemoveComponent 1 0]) 3 0 = Some 30" by code_simp
  have o2: "owned (?ops @ [RemoveComponent 1 0]) 2 0 = Some 20" by code_simp
  show ?thesis using r a o3 o2 by blast
qed








end
